(* ===== verification/Prelude.thy ===== *)
theory Prelude
  imports Main "HOL-Library.Word" "HOL-Library.Multiset"
begin

text \<open>
  Shared vocabulary of the development: the machine types of the crate, the big-endian
  fixed-width integers its transports write, and the facts on lists, words and multisets
  that several components use.  The collections:
  \<^item> \<open>word_nat\<close>: facts that move word arithmetic to \<open>nat\<close>;
  \<^item> \<open>rust_simps\<close>: unfoldings of the small accessors of the model.
\<close>

named_theorems word_nat "facts that read machine words as natural numbers"
named_theorems rust_simps "unfoldings of the small accessors of the model"

section \<open>Machine types\<close>

type_synonym u8 = "8 word"
type_synonym u16 = "16 word"
type_synonym u32 = "32 word"
type_synonym u64 = "64 word"
type_synonym i32 = "32 word"
type_synonym i64 = "64 word"
type_synonym bytes = "u8 list"

text \<open>
  A \<open>uuid::Uuid\<close> is its sixteen bytes; \<open>Uuid::from_slice\<close> accepts exactly the slices
  of that length and \<open>into_bytes\<close> reads them back.
\<close>

datatype Uuid = Uuid (uuid_bytes: bytes)

definition uuid_from_slice :: "bytes \<Rightarrow> Uuid option" where
  "uuid_from_slice bs = (if length bs = 16 then Some (Uuid bs) else None)"

definition uuid_valid :: "Uuid \<Rightarrow> bool" where
  "uuid_valid u \<longleftrightarrow> length (uuid_bytes u) = 16"

lemma uuid_from_slice_bytes [simp]: "uuid_valid u \<Longrightarrow> uuid_from_slice (uuid_bytes u) = Some u"
  by (simp add: uuid_from_slice_def uuid_valid_def)

lemma uuid_from_slice_Some:
  "uuid_from_slice bs = Some u \<longleftrightarrow> length bs = 16 \<and> u = Uuid bs"
  by (auto simp: uuid_from_slice_def)

section \<open>Words\<close>

lemma unat_plus_one [word_nat]: "(w :: u32) \<noteq> - 1 \<Longrightarrow> unat (w + 1) = Suc (unat w)"
  by (metis add.commute add_eq_0_iff unatSuc)

lemma unat_max_u32 [word_nat]: "unat (- 1 :: u32) = 2 ^ 32 - 1"
  by (simp add: unsigned_minus_1_eq_mask mask_eq_exp_minus_1)

lemma unat_u32_less: "unat (w :: u32) < 2 ^ 32"
  using unsigned_less [of w, where 'a = nat] by simp

lemma of_nat_u32_inj:
  assumes "(of_nat i :: u32) = of_nat j" and "i < 2 ^ 32" and "j < 2 ^ 32"
  shows "i = j"
proof -
  have "unat (of_nat i :: u32) = i" "unat (of_nat j :: u32) = j"
    using assms(2,3) by (simp_all add: unat_of_nat take_bit_nat_eq_self)
  with assms(1) show ?thesis by metis
qed

lemma word_offset_eq_iff:
  assumes "i < 2 ^ 32" and "j < 2 ^ 32"
  shows "(n :: u32) + of_nat i = n + of_nat j \<longleftrightarrow> i = j"
  using of_nat_u32_inj [OF _ assms] by auto

text \<open>Consecutive numbers, wrapping around.\<close>

definition consecutive :: "u32 \<Rightarrow> nat \<Rightarrow> u32 list" where
  "consecutive n k = map (\<lambda>i. n + of_nat i) [0..<k]"

lemma consecutive_0 [simp]: "consecutive n 0 = []"
  by (simp add: consecutive_def)

lemma length_consecutive [simp]: "length (consecutive n k) = k"
  by (simp add: consecutive_def)

lemma consecutive_append: "consecutive n (k + j) = consecutive n k @ consecutive (n + of_nat k) j"
proof (induction j)
  case (Suc j)
  then show ?case by (simp add: consecutive_def add.assoc)
qed simp

lemma consecutive_Suc: "consecutive n (Suc k) = n # consecutive (n + 1) k"
  using consecutive_append [of n 1 k] by (simp add: consecutive_def)

lemma consecutive_distinct: "k \<le> 2 ^ 32 \<Longrightarrow> distinct (consecutive n k)"
  unfolding consecutive_def distinct_map by (auto intro!: inj_onI dest!: of_nat_u32_inj)

lemma consecutive_mem: "i < k \<Longrightarrow> n + of_nat i \<in> set (consecutive n k)"
  by (auto simp: consecutive_def)

lemma consecutive_not_mem: "j < 2 ^ 32 \<Longrightarrow> n + of_nat j \<notin> set (consecutive n j)"
  unfolding consecutive_def by (auto dest!: of_nat_u32_inj)

end
