(* ===== verification/Std_Maps.thy ===== *)
theory Std_Maps
  imports Prelude
begin

text \<open>
  The maps of the Rust standard library that the crate uses: the interface its components
  call as locales (\<open>finite_map\<close>, and \<open>ordered_map_min\<close> for the maps that hand out their
  least entry), and the two representations of the model as interpretations:
  \<^item> \<open>bt\<close>: a \<open>BTreeMap\<close> is the list of its entries in strictly increasing key order
    (\<open>iscp/down_order.rs\<close>, \<open>iscp/storage.rs\<close>);
  \<^item> \<open>hm\<close>: a \<open>HashMap\<close> is a list of entries with distinct keys, the list order standing for
    the iteration order, which the standard library leaves open.  A statement about every
    such list covers every iteration order.
\<close>

type_synonym ('k, 'v) btree_map = "('k \<times> 'v) list"
type_synonym ('k, 'v) hash_map = "('k \<times> 'v) list"

section \<open>The interface\<close>

locale finite_map =
  fixes lookup :: "'m \<Rightarrow> 'k \<Rightarrow> 'v option"
    and ins :: "'k \<Rightarrow> 'v \<Rightarrow> 'm \<Rightarrow> 'm"
    and del :: "'k \<Rightarrow> 'm \<Rightarrow> 'm"
    and len_of :: "'m \<Rightarrow> nat"
    and invar :: "'m \<Rightarrow> bool"
  assumes lookup_ins: "invar m \<Longrightarrow> lookup (ins k v m) = (lookup m)(k \<mapsto> v)"
    and lookup_del: "invar m \<Longrightarrow> lookup (del k m) = (lookup m)(k := None)"
    and invar_ins: "invar m \<Longrightarrow> invar (ins k v m)"
    and invar_del: "invar m \<Longrightarrow> invar (del k m)"
    and finite_dom: "invar m \<Longrightarrow> finite (dom (lookup m))"
    and len_of_card: "invar m \<Longrightarrow> len_of m = card (dom (lookup m))"
begin

lemma len_ins:
  assumes "invar m"
  shows "len_of (ins k v m) = (if lookup m k = None then Suc (len_of m) else len_of m)"
  using assms by (simp add: len_of_card invar_ins lookup_ins finite_dom card_insert_if domIff)

lemma len_ins_le: "invar m \<Longrightarrow> len_of (ins k v m) \<le> Suc (len_of m)"
  by (simp add: len_ins)

lemma len_del:
  assumes "invar m"
  shows "len_of (del k m) = (if lookup m k = None then len_of m else len_of m - 1)"
  using assms by (simp add: len_of_card invar_del lookup_del finite_dom card_Diff_singleton_if domIff)

lemma len_pos: "invar m \<Longrightarrow> lookup m k = Some v \<Longrightarrow> 0 < len_of m"
  by (auto simp: len_of_card finite_dom card_gt_0_iff)

lemma len_del_less: "invar m \<Longrightarrow> lookup m k = Some v \<Longrightarrow> len_of (del k m) < len_of m"
  by (simp add: len_del len_pos)

lemma ins_del_cancel:
  assumes "invar m" and "lookup m k = None"
  shows "lookup (del k (ins k v m)) = lookup m"
  using assms by (auto simp: lookup_ins lookup_del invar_ins fun_eq_iff)

end

text \<open>The maps that also hand out their least entry (\<open>pop_first\<close>).\<close>

locale ordered_map_min = finite_map lookup ins del len_of invar
  for lookup :: "'m \<Rightarrow> 'k::linorder \<Rightarrow> 'v option" and ins del len_of invar +
  fixes pop_min :: "'m \<Rightarrow> (('k \<times> 'v) \<times> 'm) option"
  assumes pop_min_None: "invar m \<Longrightarrow> pop_min m = None \<longleftrightarrow> lookup m = Map.empty"
    and pop_min_Some: "invar m \<Longrightarrow> pop_min m = Some ((k, v), m') \<Longrightarrow>
      lookup m k = Some v \<and> m' = del k m \<and> (\<forall>k' \<in> dom (lookup m). k \<le> k')"
begin

lemma pop_min_len:
  assumes "invar m" and "pop_min m = Some ((k, v), m')"
  shows "Suc (len_of m') = len_of m"
  using pop_min_Some [OF assms] len_pos [OF assms(1), of k v] assms(1) by (simp add: len_del)

lemma pop_min_invar: "invar m \<Longrightarrow> pop_min m = Some ((k, v), m') \<Longrightarrow> invar m'"
  using pop_min_Some [of m k v m'] by (simp add: invar_del)

lemma pop_min_total: "invar m \<Longrightarrow> 0 < len_of m \<Longrightarrow> \<exists>k v m'. pop_min m = Some ((k, v), m')"
  by (cases "pop_min m") (auto simp: pop_min_None len_of_card)

end

section \<open>BTreeMap: entries in key order\<close>

fun bt_insert :: "'k::linorder \<Rightarrow> 'v \<Rightarrow> ('k \<times> 'v) list \<Rightarrow> ('k \<times> 'v) list" where
  "bt_insert k v [] = [(k, v)]"
| "bt_insert k v ((k', v') # m) =
     (if k < k' then (k, v) # (k', v') # m
      else if k = k' then (k, v) # m
      else (k', v') # bt_insert k v m)"

fun bt_remove :: "'k::linorder \<Rightarrow> ('k \<times> 'v) list \<Rightarrow> ('k \<times> 'v) list" where
  "bt_remove k [] = []"
| "bt_remove k ((k', v') # m) = (if k = k' then m else (k', v') # bt_remove k m)"

fun bt_pop_first :: "('k \<times> 'v) list \<Rightarrow> (('k \<times> 'v) \<times> ('k \<times> 'v) list) option" where
  "bt_pop_first [] = None"
| "bt_pop_first (e # m) = Some (e, m)"

definition bt_inv :: "('k::linorder \<times> 'v) list \<Rightarrow> bool" where
  "bt_inv m \<longleftrightarrow> sorted_wrt (<) (map fst m)"

lemma bt_inv_Nil [simp]: "bt_inv []"
  by (simp add: bt_inv_def)

lemma bt_inv_Cons [simp]:
  "bt_inv ((k, v) # m) \<longleftrightarrow> bt_inv m \<and> (\<forall>k' \<in> fst ` set m. k < k')"
  by (auto simp: bt_inv_def)

lemma bt_inv_distinct: "bt_inv m \<Longrightarrow> distinct (map fst m)"
  by (induction m) force+

lemma set_bt_insert: "fst ` set (bt_insert k v m) = insert k (fst ` set m)"
  by (induction k v m rule: bt_insert.induct) auto

lemma set_bt_remove: "fst ` set (bt_remove k m) \<subseteq> fst ` set m"
  by (induction k m rule: bt_remove.induct) auto

lemma bt_insert_inv [simp, intro]: "bt_inv m \<Longrightarrow> bt_inv (bt_insert k v m)"
  by (induction k v m rule: bt_insert.induct) (auto simp: set_bt_insert)

lemma bt_remove_inv [simp, intro]: "bt_inv m \<Longrightarrow> bt_inv (bt_remove k m)"
  by (induction k m rule: bt_remove.induct) (use set_bt_remove in \<open>fastforce+\<close>)

lemma bt_insert_lookup: "map_of (bt_insert k v m) = (map_of m)(k \<mapsto> v)"
  by (induction k v m rule: bt_insert.induct) (auto simp: fun_eq_iff)

lemma bt_remove_lookup: "bt_inv m \<Longrightarrow> map_of (bt_remove k m) = (map_of m)(k := None)"
proof (induction k m rule: bt_remove.induct)
  case (2 k k' v' m)
  then show ?case by (force simp: fun_eq_iff map_of_eq_None_iff)
qed simp

lemma bt_remove_head: "bt_inv ((k, v) # m) \<Longrightarrow> bt_remove k ((k, v) # m) = m"
  by simp

interpretation bt: ordered_map_min map_of bt_insert bt_remove length bt_inv bt_pop_first
proof unfold_locales
  fix m :: "('a \<times> 'b) list"
  assume "bt_inv m"
  then show "length m = card (dom (map_of m))"
    using bt_inv_distinct [of m] by (metis distinct_card dom_map_of_conv_image_fst length_map set_map)
next
  fix m m' :: "('a \<times> 'b) list" and k v
  assume "bt_inv m" and "bt_pop_first m = Some ((k, v), m')"
  then show "map_of m k = Some v \<and> m' = bt_remove k m \<and> (\<forall>k' \<in> dom (map_of m). k \<le> k')"
    by (cases m) (auto simp: dom_map_of_conv_image_fst less_imp_le)
next
  fix m :: "('a \<times> 'b) list"
  show "(bt_pop_first m = None) = (map_of m = Map.empty)"
    by (cases m) (auto simp: fun_eq_iff)
qed (auto simp: bt_insert_lookup bt_remove_lookup finite_dom_map_of)

lemma bt_lookup_mem: "bt_inv m \<Longrightarrow> map_of m k = Some v \<longleftrightarrow> (k, v) \<in> set m"
  by (simp add: bt_inv_distinct)

lemma mset_bt_insert_fresh:
  "map_of m k = None \<Longrightarrow> mset (bt_insert k v m) = add_mset (k, v) (mset m)"
  by (induction k v m rule: bt_insert.induct) (auto split: if_splits)

lemma mset_bt_remove:
  "map_of m k = Some v \<Longrightarrow> mset m = add_mset (k, v) (mset (bt_remove k m))"
  by (induction k m rule: bt_remove.induct) (auto split: if_splits)

lemma set_bt_insert_subset: "set (bt_insert k v m) \<subseteq> insert (k, v) (set m)"
  by (induction k v m rule: bt_insert.induct) auto

section \<open>HashMap: entries with distinct keys\<close>

fun hm_insert :: "'k \<Rightarrow> 'v \<Rightarrow> ('k \<times> 'v) list \<Rightarrow> ('k \<times> 'v) list" where
  "hm_insert k v [] = [(k, v)]"
| "hm_insert k v ((k', v') # m) = (if k = k' then (k, v) # m else (k', v') # hm_insert k v m)"

definition hm_remove :: "'k \<Rightarrow> ('k \<times> 'v) list \<Rightarrow> ('k \<times> 'v) list" where
  "hm_remove k m = filter (\<lambda>e. fst e \<noteq> k) m"

definition hm_inv :: "('k \<times> 'v) list \<Rightarrow> bool" where
  "hm_inv m \<longleftrightarrow> distinct (map fst m)"

definition hm_from_list :: "('k \<times> 'v) list \<Rightarrow> ('k \<times> 'v) list" where
  "hm_from_list es = foldl (\<lambda>m (k, v). hm_insert k v m) [] es"

lemma hm_inv_Nil [simp]: "hm_inv []"
  by (simp add: hm_inv_def)

lemma hm_inv_Cons [simp]: "hm_inv (e # m) \<longleftrightarrow> fst e \<notin> fst ` set m \<and> hm_inv m"
  by (simp add: hm_inv_def)

lemma set_hm_insert: "fst ` set (hm_insert k v m) = insert k (fst ` set m)"
  by (induction k v m rule: hm_insert.induct) auto

lemma hm_insert_inv [simp, intro]: "hm_inv m \<Longrightarrow> hm_inv (hm_insert k v m)"
  by (induction k v m rule: hm_insert.induct) (auto simp: set_hm_insert)

lemma hm_remove_inv [simp, intro]: "hm_inv m \<Longrightarrow> hm_inv (hm_remove k m)"
  by (simp add: hm_remove_def hm_inv_def distinct_map_filter)

lemma hm_insert_lookup [simp]: "map_of (hm_insert k v m) = (map_of m)(k \<mapsto> v)"
  by (induction k v m rule: hm_insert.induct) (auto simp: fun_eq_iff)

lemma hm_remove_lookup [simp]: "map_of (hm_remove k m) = (map_of m)(k := None)"
  unfolding hm_remove_def by (induction m) (auto simp: fun_eq_iff)

lemma hm_from_list_inv [simp, intro]: "hm_inv (hm_from_list es)"
proof -
  have "hm_inv m \<Longrightarrow> hm_inv (foldl (\<lambda>m (k, v). hm_insert k v m) m es)" for m
    by (induction es arbitrary: m) auto
  then show ?thesis by (simp add: hm_from_list_def)
qed

text \<open>\<open>HashMap::retain\<close> is \<open>filter\<close> on the entries.\<close>

lemma hm_retain_lookup:
  "hm_inv m \<Longrightarrow> map_of (filter P m) k =
     (case map_of m k of None \<Rightarrow> None | Some v \<Rightarrow> if P (k, v) then Some v else None)"
proof (induction m)
  case (Cons e m)
  then show ?case
    by (cases e) (auto split: option.splits dest: map_of_SomeD simp: map_of_eq_None_iff image_iff)
qed simp

lemma hm_retain_inv [simp, intro]: "hm_inv m \<Longrightarrow> hm_inv (filter P m)"
  by (simp add: hm_inv_def distinct_map_filter)

interpretation hm: finite_map map_of hm_insert hm_remove length hm_inv
proof unfold_locales
  fix m :: "('a \<times> 'b) list"
  assume "hm_inv m"
  then show "length m = card (dom (map_of m))"
    by (metis distinct_card dom_map_of_conv_image_fst hm_inv_def length_map set_map)
qed (auto simp: finite_dom_map_of)

lemma hm_insert_fresh: "map_of m k = None \<Longrightarrow> hm_insert k v m = m @ [(k, v)]"
  by (induction k v m rule: hm_insert.induct) (auto split: if_splits)

lemma hm_lookup_mem: "hm_inv m \<Longrightarrow> map_of m k = Some v \<longleftrightarrow> (k, v) \<in> set m"
  by (simp add: hm_inv_def)

lemma mset_hm_insert:
  "hm_inv m \<Longrightarrow> map_of m k = Some v \<Longrightarrow>
     add_mset (k, v) (mset (hm_insert k v' m)) = add_mset (k, v') (mset m)"
  by (induction k v' m rule: hm_insert.induct) (auto split: if_splits)

end
