(* ===== verification/Codes.thy ===== *)
theory Codes
  imports Prelude
begin

text \<open>
  The two wire enumerations of \<open>message/proto/iscp2.v1.rs\<close> that the crate branches on,
  \<open>QoS\<close> and \<open>ResultCode\<close>: their discriminants, the conversion from the raw \<open>i32\<close> of a
  decoded message, the field-name strings, and the order their \<open>PartialOrd\<close>/\<open>Ord\<close> derive
  gives them.
\<close>

section \<open>QoS\<close>

datatype QoS = Unreliable | Reliable | Partial

primrec qos_i32 :: "QoS \<Rightarrow> i32" where
  "qos_i32 Unreliable = 0"
| "qos_i32 Reliable = 1"
| "qos_i32 Partial = 2"

definition qos_try_from :: "i32 \<Rightarrow> QoS option" where
  "qos_try_from v =
     (if v = 0 then Some Unreliable else if v = 1 then Some Reliable
      else if v = 2 then Some Partial else None)"

primrec qos_as_str_name :: "QoS \<Rightarrow> string" where
  "qos_as_str_name Unreliable = ''UNRELIABLE''"
| "qos_as_str_name Reliable = ''RELIABLE''"
| "qos_as_str_name Partial = ''PARTIAL''"

definition qos_from_str_name :: "string \<Rightarrow> QoS option" where
  "qos_from_str_name s =
     (if s = ''UNRELIABLE'' then Some Unreliable else if s = ''RELIABLE'' then Some Reliable
      else if s = ''PARTIAL'' then Some Partial else None)"

lemma qos_try_from_i32 [simp]: "qos_try_from (qos_i32 q) = Some q"
  by (cases q) (simp_all add: qos_try_from_def)

lemma qos_try_from_Some: "qos_try_from v = Some q \<longleftrightarrow> v = qos_i32 q"
  by (cases q) (auto simp: qos_try_from_def split: if_splits)

lemma qos_from_as_str_name: "qos_from_str_name (qos_as_str_name q) = Some q"
  by (cases q) (simp_all add: qos_from_str_name_def)

instantiation QoS :: linorder
begin

definition less_eq_QoS :: "QoS \<Rightarrow> QoS \<Rightarrow> bool" where
  "less_eq_QoS a b \<longleftrightarrow> qos_i32 a \<le> qos_i32 b"

definition less_QoS :: "QoS \<Rightarrow> QoS \<Rightarrow> bool" where
  "less_QoS a b \<longleftrightarrow> qos_i32 a < qos_i32 b"

instance
proof
  fix a b :: QoS
  assume "a \<le> b" and "b \<le> a"
  then show "a = b"
    by (metis antisym less_eq_QoS_def option.inject qos_try_from_i32)
qed (auto simp: less_eq_QoS_def less_QoS_def)

end

section \<open>ResultCode\<close>

datatype ResultCode =
  Succeeded
| IncompatibleVersion
| MaximumDataIdAlias
| MaximumUpstreamAlias
| UnspecifiedError
| NoNodeId
| AuthFailed
| ConnectTimeout
| MalformedMessage
| ProtocolError
| AckTimeout
| InvalidPayload
| InvalidDataId
| InvalidDataIdAlias
| InvalidDataFilter
| StreamNotFound
| ResumeRequestConflict
| ProcessFailed
| DesiredQosNotSupported
| PingTimeout
| TooLargeMessageSize
| TooManyDataIdAliases
| TooManyStreams
| TooLongAckInterval
| TooManyDownstreamFilters
| TooManyDataFilters
| TooLongExpiryInterval
| TooLongPingTimeout
| TooShortPingInterval
| TooShortPingTimeout
| RateLimitReached
| TooLargeFeedId
| TooManyTargetNodes
| FeedNotFound
| InvalidResumeToken
| NodeIdMismatch
| SessionNotFound
| SessionAlreadyClosed
| SessionCannotClosed

primrec result_code_i32 :: "ResultCode \<Rightarrow> i32" where
  "result_code_i32 Succeeded = 0"
| "result_code_i32 IncompatibleVersion = 1"
| "result_code_i32 MaximumDataIdAlias = 2"
| "result_code_i32 MaximumUpstreamAlias = 3"
| "result_code_i32 UnspecifiedError = 64"
| "result_code_i32 NoNodeId = 65"
| "result_code_i32 AuthFailed = 66"
| "result_code_i32 ConnectTimeout = 67"
| "result_code_i32 MalformedMessage = 68"
| "result_code_i32 ProtocolError = 69"
| "result_code_i32 AckTimeout = 70"
| "result_code_i32 InvalidPayload = 71"
| "result_code_i32 InvalidDataId = 72"
| "result_code_i32 InvalidDataIdAlias = 73"
| "result_code_i32 InvalidDataFilter = 74"
| "result_code_i32 StreamNotFound = 75"
| "result_code_i32 ResumeRequestConflict = 76"
| "result_code_i32 ProcessFailed = 77"
| "result_code_i32 DesiredQosNotSupported = 78"
| "result_code_i32 PingTimeout = 79"
| "result_code_i32 TooLargeMessageSize = 80"
| "result_code_i32 TooManyDataIdAliases = 81"
| "result_code_i32 TooManyStreams = 82"
| "result_code_i32 TooLongAckInterval = 83"
| "result_code_i32 TooManyDownstreamFilters = 84"
| "result_code_i32 TooManyDataFilters = 85"
| "result_code_i32 TooLongExpiryInterval = 86"
| "result_code_i32 TooLongPingTimeout = 87"
| "result_code_i32 TooShortPingInterval = 88"
| "result_code_i32 TooShortPingTimeout = 89"
| "result_code_i32 RateLimitReached = 90"
| "result_code_i32 TooLargeFeedId = 91"
| "result_code_i32 TooManyTargetNodes = 92"
| "result_code_i32 FeedNotFound = 93"
| "result_code_i32 InvalidResumeToken = 94"
| "result_code_i32 NodeIdMismatch = 128"
| "result_code_i32 SessionNotFound = 129"
| "result_code_i32 SessionAlreadyClosed = 130"
| "result_code_i32 SessionCannotClosed = 131"

definition result_codes :: "ResultCode list" where
  "result_codes = [Succeeded, IncompatibleVersion, MaximumDataIdAlias, MaximumUpstreamAlias,
     UnspecifiedError, NoNodeId, AuthFailed, ConnectTimeout,
     MalformedMessage, ProtocolError, AckTimeout, InvalidPayload,
     InvalidDataId, InvalidDataIdAlias, InvalidDataFilter, StreamNotFound,
     ResumeRequestConflict, ProcessFailed, DesiredQosNotSupported, PingTimeout,
     TooLargeMessageSize, TooManyDataIdAliases, TooManyStreams, TooLongAckInterval,
     TooManyDownstreamFilters, TooManyDataFilters, TooLongExpiryInterval, TooLongPingTimeout,
     TooShortPingInterval, TooShortPingTimeout, RateLimitReached, TooLargeFeedId,
     TooManyTargetNodes, FeedNotFound, InvalidResumeToken, NodeIdMismatch,
     SessionNotFound, SessionAlreadyClosed, SessionCannotClosed]"

text \<open>\<open>TryFrom<i32>\<close>: the variant with that discriminant, if there is one.\<close>

definition result_code_try_from :: "i32 \<Rightarrow> ResultCode option" where
  "result_code_try_from v = find (\<lambda>c. result_code_i32 c = v) result_codes"

primrec as_str_name :: "ResultCode \<Rightarrow> string" where
  "as_str_name Succeeded = ''SUCCEEDED''"
| "as_str_name IncompatibleVersion = ''INCOMPATIBLE_VERSION''"
| "as_str_name MaximumDataIdAlias = ''MAXIMUM_DATA_ID_ALIAS''"
| "as_str_name MaximumUpstreamAlias = ''MAXIMUM_UPSTREAM_ALIAS''"
| "as_str_name UnspecifiedError = ''UNSPECIFIED_ERROR''"
| "as_str_name NoNodeId = ''NO_NODE_ID''"
| "as_str_name AuthFailed = ''AUTH_FAILED''"
| "as_str_name ConnectTimeout = ''CONNECT_TIMEOUT''"
| "as_str_name MalformedMessage = ''MALFORMED_MESSAGE''"
| "as_str_name ProtocolError = ''PROTOCOL_ERROR''"
| "as_str_name AckTimeout = ''ACK_TIMEOUT''"
| "as_str_name InvalidPayload = ''INVALID_PAYLOAD''"
| "as_str_name InvalidDataId = ''INVALID_DATA_ID''"
| "as_str_name InvalidDataIdAlias = ''INVALID_DATA_ID_ALIAS''"
| "as_str_name InvalidDataFilter = ''INVALID_DATA_FILTER''"
| "as_str_name StreamNotFound = ''STREAM_NOT_FOUND''"
| "as_str_name ResumeRequestConflict = ''RESUME_REQUEST_CONFLICT''"
| "as_str_name ProcessFailed = ''PROCESS_FAILED''"
| "as_str_name DesiredQosNotSupported = ''DESIRED_QOS_NOT_SUPPORTED''"
| "as_str_name PingTimeout = ''PING_TIMEOUT''"
| "as_str_name TooLargeMessageSize = ''TOO_LARGE_MESSAGE_SIZE''"
| "as_str_name TooManyDataIdAliases = ''TOO_MANY_DATA_ID_ALIASES''"
| "as_str_name TooManyStreams = ''TOO_MANY_STREAMS''"
| "as_str_name TooLongAckInterval = ''TOO_LONG_ACK_INTERVAL''"
| "as_str_name TooManyDownstreamFilters = ''TOO_MANY_DOWNSTREAM_FILTERS''"
| "as_str_name TooManyDataFilters = ''TOO_MANY_DATA_FILTERS''"
| "as_str_name TooLongExpiryInterval = ''TOO_LONG_EXPIRY_INTERVAL''"
| "as_str_name TooLongPingTimeout = ''TOO_LONG_PING_TIMEOUT''"
| "as_str_name TooShortPingInterval = ''TOO_SHORT_PING_INTERVAL''"
| "as_str_name TooShortPingTimeout = ''TOO_SHORT_PING_TIMEOUT''"
| "as_str_name RateLimitReached = ''RATE_LIMIT_REACHED''"
| "as_str_name TooLargeFeedId = ''TOO_LARGE_FEED_ID''"
| "as_str_name TooManyTargetNodes = ''TOO_MANY_TARGET_NODES''"
| "as_str_name FeedNotFound = ''FEED_NOT_FOUND''"
| "as_str_name InvalidResumeToken = ''INVALID_RESUME_TOKEN''"
| "as_str_name NodeIdMismatch = ''NODE_ID_MISMATCH''"
| "as_str_name SessionNotFound = ''SESSION_NOT_FOUND''"
| "as_str_name SessionAlreadyClosed = ''SESSION_ALREADY_CLOSED''"
| "as_str_name SessionCannotClosed = ''SESSION_CANNOT_CLOSED''"

definition from_str_name :: "string \<Rightarrow> ResultCode option" where
  "from_str_name s = find (\<lambda>c. as_str_name c = s) result_codes"

lemma set_result_codes: "c \<in> set result_codes"
  by (cases c) (simp_all add: result_codes_def)

lemma distinct_result_code_i32: "distinct (map result_code_i32 result_codes)"
  by (simp add: result_codes_def)

lemma find_distinct_key:
  assumes "distinct (map f xs)" and "x \<in> set xs"
  shows "find (\<lambda>y. f y = f x) xs = Some x"
  using assms by (induction xs) (auto simp: image_iff)

lemma result_code_try_from_i32 [simp]: "result_code_try_from (result_code_i32 c) = Some c"
  unfolding result_code_try_from_def
  by (rule find_distinct_key [OF distinct_result_code_i32 set_result_codes])

lemma find_SomeD: "find P xs = Some x \<Longrightarrow> P x"
  by (induction xs) (auto split: if_splits)

lemma result_code_try_from_Some: "result_code_try_from v = Some c \<longleftrightarrow> v = result_code_i32 c"
proof
  assume "result_code_try_from v = Some c"
  then show "v = result_code_i32 c"
    by (simp add: result_code_try_from_def find_SomeD [where P = "\<lambda>c. result_code_i32 c = v"])
qed simp

lemma inj_result_code_i32: "result_code_i32 a = result_code_i32 b \<longleftrightarrow> a = b"
  by (metis option.inject result_code_try_from_i32)

lemma from_as_str_name: "from_str_name (as_str_name c) = Some c"
  unfolding from_str_name_def
  by (rule find_distinct_key [OF _ set_result_codes]) (simp add: result_codes_def)

instantiation ResultCode :: linorder
begin

definition less_eq_ResultCode :: "ResultCode \<Rightarrow> ResultCode \<Rightarrow> bool" where
  "less_eq_ResultCode a b \<longleftrightarrow> result_code_i32 a \<le> result_code_i32 b"

definition less_ResultCode :: "ResultCode \<Rightarrow> ResultCode \<Rightarrow> bool" where
  "less_ResultCode a b \<longleftrightarrow> result_code_i32 a < result_code_i32 b"

instance
proof
  fix a b :: ResultCode
  assume "a \<le> b" and "b \<le> a"
  then show "a = b"
    by (metis antisym less_eq_ResultCode_def inj_result_code_i32)
qed (auto simp: less_eq_ResultCode_def less_ResultCode_def)

end

end
