(* ===== verification/Messages.thy ===== *)
theory Messages
  imports Std_Maps Codes
begin

text \<open>
  The messages of \<open>message/proto/iscp2.v1.rs\<close> and \<open>message/mod.rs\<close>: one record per
  message struct, one constructor of \<open>MessageEnum\<close> per variant of the \<open>Message\<close> oneof, and
  the trait implementations the macros of \<open>message/mod.rs\<close> generate.  Record fields carry a
  short prefix of their struct, since field names are global here; a struct that also exists
  under the same name in \<open>iscp/types.rs\<close> or \<open>iscp/metadata.rs\<close> is prefixed \<open>Msg\<close>.  A
  \<open>bytes\<close> field is a byte list, an enumeration field the raw \<open>i32\<close>, an extension struct
  without fields \<open>unit\<close>.
\<close>

section \<open>Extension fields\<close>

record IntdashExtensionFields =
  ief_project_uuid :: string

record ConnectRequestExtensionFields =
  cef_access_token :: string
  cef_intdash :: "IntdashExtensionFields option"

record UpstreamOpenRequestExtensionFields =
  uoef_persist :: bool

record UpstreamCloseRequestExtensionFields =
  ucef_close_session :: bool

record UpstreamMetadataExtensionFields =
  umef_persist :: bool

section \<open>Data points, data ids, filters\<close>

record DataPoint =
  dp_elapsed_time :: "i64"
  dp_payload :: "bytes"

record DataId =
  did_name :: "string"
  did_type :: "string"

datatype DataIdOrAlias = DataIdOrAlias_DataId DataId | DataIdAlias u32

record MsgDataPointGroup =
  mg_data_points :: "DataPoint list"
  mg_data_filter_ids :: "u32 list"
  mg_data_id_or_alias :: "DataIdOrAlias option"

record StreamChunk =
  sc_sequence_number :: "u32"
  sc_data_point_groups :: "MsgDataPointGroup list"

record DataFilter =
  dtf_name :: "string"
  dtf_type :: "string"

record DownstreamFilter =
  dfl_source_node_id :: "string"
  dfl_data_filters :: "DataFilter list"

record DownstreamFilterReference =
  dfr_downstream_filter_index :: "u32"
  dfr_data_filter_index :: "u32"

record DownstreamFilterReferences =
  dfrs_references :: "DownstreamFilterReference list"

section \<open>Connection messages\<close>

record ConnectRequest =
  cnq_request_id :: "u32"
  cnq_protocol_version :: "string"
  cnq_node_id :: "string"
  cnq_ping_interval :: "u32"
  cnq_ping_timeout :: "u32"
  cnq_extension_fields :: "ConnectRequestExtensionFields option"
  cnq_connection_id :: "string"
  cnq_connection_group_id :: "string"
  cnq_expiry_interval :: "u32"

record ConnectResponse =
  cnr_request_id :: "u32"
  cnr_protocol_version :: "string"
  cnr_result_code :: "i32"
  cnr_result_string :: "string"
  cnr_extension_fields :: "unit option"
  cnr_connection_id :: "string"
  cnr_connection_group_id :: "string"

record Disconnect =
  dsc_result_code :: "i32"
  dsc_result_string :: "string"
  dsc_extension_fields :: "unit option"

record Ping =
  ping_request_id :: "u32"
  ping_extension_fields :: "unit option"

record Pong =
  pong_request_id :: "u32"
  pong_extension_fields :: "unit option"

section \<open>Metadata\<close>

record MsgBaseTime =
  mbt_session_id :: "string"
  mbt_name :: "string"
  mbt_priority :: "u32"
  mbt_elapsed_time :: "u64"
  mbt_base_time :: "i64"

record MsgUpstreamOpen =
  muo_stream_id :: "bytes"
  muo_session_id :: "string"
  muo_qos :: "i32"

record MsgUpstreamAbnormalClose =
  muac_stream_id :: "bytes"
  muac_session_id :: "string"

record MsgUpstreamResume =
  mur_stream_id :: "bytes"
  mur_session_id :: "string"
  mur_qos :: "i32"

record MsgUpstreamNormalClose =
  munc_stream_id :: "bytes"
  munc_session_id :: "string"
  munc_total_data_points :: "u64"
  munc_final_sequence_number :: "u32"

record MsgDownstreamOpen =
  mdo_stream_id :: "bytes"
  mdo_downstream_filters :: "DownstreamFilter list"
  mdo_qos :: "i32"

record MsgDownstreamAbnormalClose =
  mdac_stream_id :: "bytes"

record MsgDownstreamResume =
  mdr_stream_id :: "bytes"
  mdr_downstream_filters :: "DownstreamFilter list"
  mdr_qos :: "i32"

record MsgDownstreamNormalClose =
  mdnc_stream_id :: "bytes"

datatype DownMetadata =
  DM_BaseTime MsgBaseTime
| DM_UpstreamOpen MsgUpstreamOpen
| DM_UpstreamAbnormalClose MsgUpstreamAbnormalClose
| DM_UpstreamResume MsgUpstreamResume
| DM_UpstreamNormalClose MsgUpstreamNormalClose
| DM_DownstreamOpen MsgDownstreamOpen
| DM_DownstreamAbnormalClose MsgDownstreamAbnormalClose
| DM_DownstreamResume MsgDownstreamResume
| DM_DownstreamNormalClose MsgDownstreamNormalClose

datatype UpMetadata = UM_BaseTime MsgBaseTime

record MsgDownstreamMetadata =
  mdm_request_id :: "u32"
  mdm_stream_id_alias :: "u32"
  mdm_source_node_id :: "string"
  mdm_extension_fields :: "unit option"
  mdm_metadata :: "DownMetadata option"

record DownstreamMetadataAck =
  dma_request_id :: "u32"
  dma_result_code :: "i32"
  dma_result_string :: "string"
  dma_extension_fields :: "unit option"

record UpstreamMetadata =
  mum_request_id :: "u32"
  mum_extension_fields :: "UpstreamMetadataExtensionFields option"
  mum_metadata :: "UpMetadata option"

record UpstreamMetadataAck =
  uma_request_id :: "u32"
  uma_result_code :: "i32"
  uma_result_string :: "string"
  uma_extension_fields :: "unit option"

section \<open>Downstream messages\<close>

record MsgUpstreamInfo =
  mui_session_id :: "string"
  mui_stream_id :: "bytes"
  mui_source_node_id :: "string"

datatype UpstreamOrAlias = UOA_UpstreamInfo MsgUpstreamInfo | UOA_UpstreamAlias u32

record DownstreamOpenRequest =
  doq_request_id :: "u32"
  doq_desired_stream_id_alias :: "u32"
  doq_downstream_filters :: "DownstreamFilter list"
  doq_expiry_interval :: "u32"
  doq_data_id_aliases :: "(u32, DataId) hash_map"
  doq_qos :: "i32"
  doq_extension_fields :: "unit option"
  doq_omit_empty_chunk :: "bool"

record DownstreamOpenResponse =
  dor_request_id :: "u32"
  dor_assigned_stream_id :: "bytes"
  dor_server_time :: "i64"
  dor_result_code :: "i32"
  dor_result_string :: "string"
  dor_extension_fields :: "unit option"
  dor_resume_token :: "string"

record DownstreamResumeRequest =
  drq_request_id :: "u32"
  drq_stream_id :: "bytes"
  drq_desired_stream_id_alias :: "u32"
  drq_extension_fields :: "unit option"
  drq_resume_token :: "string"

record DownstreamResumeResponse =
  drr_request_id :: "u32"
  drr_result_code :: "i32"
  drr_result_string :: "string"
  drr_extension_fields :: "unit option"
  drr_resume_token :: "string"

record DownstreamCloseRequest =
  dcq_request_id :: "u32"
  dcq_stream_id :: "bytes"
  dcq_extension_fields :: "unit option"

record DownstreamCloseResponse =
  dcr_request_id :: "u32"
  dcr_result_code :: "i32"
  dcr_result_string :: "string"
  dcr_extension_fields :: "unit option"

record MsgDownstreamChunk =
  mdc_stream_id_alias :: "u32"
  mdc_stream_chunk :: "StreamChunk option"
  mdc_extension_fields :: "unit option"
  mdc_downstream_filter_references :: "DownstreamFilterReferences list"
  mdc_upstream_or_alias :: "UpstreamOrAlias option"

record DownstreamChunkResult =
  dcrs_stream_id_of_upstream :: "bytes"
  dcrs_sequence_number_in_upstream :: "u32"
  dcrs_result_code :: "i32"
  dcrs_result_string :: "string"
  dcrs_extension_fields :: "unit option"

record DownstreamChunkAck =
  dca_stream_id_alias :: "u32"
  dca_ack_id :: "u32"
  dca_results :: "DownstreamChunkResult list"
  dca_upstream_aliases :: "(u32, MsgUpstreamInfo) hash_map"
  dca_data_id_aliases :: "(u32, DataId) hash_map"
  dca_extension_fields :: "unit option"

record DownstreamChunkAckComplete =
  dcc_stream_id_alias :: "u32"
  dcc_ack_id :: "u32"
  dcc_result_code :: "i32"
  dcc_result_string :: "string"
  dcc_extension_fields :: "unit option"

section \<open>Upstream messages\<close>

record UpstreamOpenRequest =
  uoq_request_id :: "u32"
  uoq_session_id :: "string"
  uoq_ack_interval :: "u32"
  uoq_expiry_interval :: "u32"
  uoq_data_ids :: "DataId list"
  uoq_qos :: "i32"
  uoq_extension_fields :: "UpstreamOpenRequestExtensionFields option"

record UpstreamOpenResponse =
  uor_request_id :: "u32"
  uor_assigned_stream_id :: "bytes"
  uor_assigned_stream_id_alias :: "u32"
  uor_data_id_aliases :: "(u32, DataId) hash_map"
  uor_server_time :: "i64"
  uor_result_code :: "i32"
  uor_result_string :: "string"
  uor_extension_fields :: "unit option"
  uor_resume_token :: "string"

record UpstreamResumeRequest =
  urq_request_id :: "u32"
  urq_stream_id :: "bytes"
  urq_extension_fields :: "unit option"
  urq_resume_token :: "string"

record UpstreamResumeResponse =
  urr_request_id :: "u32"
  urr_assigned_stream_id_alias :: "u32"
  urr_result_code :: "i32"
  urr_result_string :: "string"
  urr_extension_fields :: "unit option"
  urr_resume_token :: "string"

record UpstreamCloseRequest =
  ucq_request_id :: "u32"
  ucq_stream_id :: "bytes"
  ucq_total_data_points :: "u64"
  ucq_final_sequence_number :: "u32"
  ucq_extension_fields :: "UpstreamCloseRequestExtensionFields option"

record UpstreamCloseResponse =
  ucr_request_id :: "u32"
  ucr_result_code :: "i32"
  ucr_result_string :: "string"
  ucr_extension_fields :: "unit option"

record MsgUpstreamChunk =
  mup_stream_id_alias :: "u32"
  mup_stream_chunk :: "StreamChunk option"
  mup_data_ids :: "DataId list"
  mup_extension_fields :: "unit option"

record MsgUpstreamChunkResult =
  mrs_sequence_number :: "u32"
  mrs_result_code :: "i32"
  mrs_result_string :: "string"
  mrs_extension_fields :: "unit option"

record UpstreamChunkAck =
  mua_stream_id_alias :: "u32"
  mua_results :: "MsgUpstreamChunkResult list"
  mua_data_id_aliases :: "(u32, DataId) hash_map"
  mua_extension_fields :: "unit option"

section \<open>End-to-end calls\<close>

record MsgUpstreamCall =
  muc_call_id :: "string"
  muc_request_call_id :: "string"
  muc_destination_node_id :: "string"
  muc_name :: "string"
  muc_type :: "string"
  muc_payload :: "bytes"
  muc_extension_fields :: "unit option"

record UpstreamCallAck =
  uca_call_id :: "string"
  uca_result_code :: "i32"
  uca_result_string :: "string"
  uca_extension_fields :: "unit option"

record MsgDownstreamCall =
  mdl_call_id :: "string"
  mdl_request_call_id :: "string"
  mdl_source_node_id :: "string"
  mdl_name :: "string"
  mdl_type :: "string"
  mdl_payload :: "bytes"
  mdl_extension_fields :: "unit option"

section \<open>The message sum\<close>

datatype (plugins del: size) MessageEnum =
  M_ConnectRequest ConnectRequest
| M_ConnectResponse ConnectResponse
| M_Disconnect Disconnect
| M_UpstreamOpenRequest UpstreamOpenRequest
| M_UpstreamOpenResponse UpstreamOpenResponse
| M_UpstreamResumeRequest UpstreamResumeRequest
| M_UpstreamResumeResponse UpstreamResumeResponse
| M_UpstreamCloseRequest UpstreamCloseRequest
| M_UpstreamCloseResponse UpstreamCloseResponse
| M_UpstreamChunk MsgUpstreamChunk
| M_UpstreamChunkAck UpstreamChunkAck
| M_UpstreamMetadata UpstreamMetadata
| M_UpstreamMetadataAck UpstreamMetadataAck
| M_DownstreamOpenRequest DownstreamOpenRequest
| M_DownstreamOpenResponse DownstreamOpenResponse
| M_DownstreamResumeRequest DownstreamResumeRequest
| M_DownstreamResumeResponse DownstreamResumeResponse
| M_DownstreamCloseRequest DownstreamCloseRequest
| M_DownstreamCloseResponse DownstreamCloseResponse
| M_DownstreamChunk MsgDownstreamChunk
| M_DownstreamChunkAck DownstreamChunkAck
| M_DownstreamChunkAckComplete DownstreamChunkAckComplete
| M_DownstreamMetadata MsgDownstreamMetadata
| M_DownstreamMetadataAck DownstreamMetadataAck
| M_Ping Ping
| M_Pong Pong
| M_UpstreamCall MsgUpstreamCall
| M_UpstreamCallAck UpstreamCallAck
| M_DownstreamCall MsgDownstreamCall

record Message =
  msg_message :: "MessageEnum option"

text \<open>\<open>Message::request_id\<close>: twenty message kinds carry a request id.\<close>

definition message_request_id :: "Message \<Rightarrow> u32 option" where
  "message_request_id m =
     (case msg_message m of
        None \<Rightarrow> None
      | Some e \<Rightarrow> (case e of
          M_ConnectRequest a \<Rightarrow> Some (cnq_request_id a)
        | M_ConnectResponse a \<Rightarrow> Some (cnr_request_id a)
        | M_DownstreamCloseRequest a \<Rightarrow> Some (dcq_request_id a)
        | M_DownstreamCloseResponse a \<Rightarrow> Some (dcr_request_id a)
        | M_DownstreamMetadata a \<Rightarrow> Some (mdm_request_id a)
        | M_DownstreamMetadataAck a \<Rightarrow> Some (dma_request_id a)
        | M_DownstreamOpenRequest a \<Rightarrow> Some (doq_request_id a)
        | M_DownstreamOpenResponse a \<Rightarrow> Some (dor_request_id a)
        | M_DownstreamResumeRequest a \<Rightarrow> Some (drq_request_id a)
        | M_DownstreamResumeResponse a \<Rightarrow> Some (drr_request_id a)
        | M_Ping a \<Rightarrow> Some (ping_request_id a)
        | M_Pong a \<Rightarrow> Some (pong_request_id a)
        | M_UpstreamCloseRequest a \<Rightarrow> Some (ucq_request_id a)
        | M_UpstreamCloseResponse a \<Rightarrow> Some (ucr_request_id a)
        | M_UpstreamMetadata a \<Rightarrow> Some (mum_request_id a)
        | M_UpstreamMetadataAck a \<Rightarrow> Some (uma_request_id a)
        | M_UpstreamOpenRequest a \<Rightarrow> Some (uoq_request_id a)
        | M_UpstreamOpenResponse a \<Rightarrow> Some (uor_request_id a)
        | M_UpstreamResumeRequest a \<Rightarrow> Some (urq_request_id a)
        | M_UpstreamResumeResponse a \<Rightarrow> Some (urr_request_id a)
        | _ \<Rightarrow> None))"

end
