(* ===== verification/Errors.thy ===== *)
theory Errors
  imports Messages
begin

text \<open>
  The crate's error type (\<open>error.rs\<close>) and the result type of its fallible operations: a
  Rust \<open>Result<T, Error>\<close> is \<open>Error + 'a\<close>, \<open>Inl\<close> the error.  A message that ends in the
  \<open>Display\<close> text of another crate's error keeps the crate's own prefix.
\<close>

datatype Error =
  Transport string
| TokenSource string
| FailedMessage (error_result_code: ResultCode) string
| Timeout string
| ConnectionClosed
| CancelledByClose
| StreamClosed
| Unexpected string
| InvalidValue string
| Reordering Uuid

type_synonym 'a res = "Error + 'a"

fun can_retry :: "Error \<Rightarrow> bool" where
  "can_retry (Transport _) = True"
| "can_retry ConnectionClosed = True"
| "can_retry CancelledByClose = True"
| "can_retry _ = False"

definition can_retry_resume :: "Error \<Rightarrow> bool" where
  "can_retry_resume e \<longleftrightarrow>
     can_retry e \<or> (case e of Timeout _ \<Rightarrow> True | Unexpected _ \<Rightarrow> True | _ \<Rightarrow> False)"

definition error_code :: "Error \<Rightarrow> ResultCode option" where
  "error_code e = (case e of FailedMessage c _ \<Rightarrow> Some c | _ \<Rightarrow> None)"

text \<open>\<open>Result::and_then\<close>, the shape of the \<open>?\<close> operator.\<close>

definition res_bind :: "'a res \<Rightarrow> ('a \<Rightarrow> 'b res) \<Rightarrow> 'b res" where
  "res_bind r f = (case r of Inl e \<Rightarrow> Inl e | Inr a \<Rightarrow> f a)"

lemma res_bind_simps [simp]:
  "res_bind (Inl e) f = Inl e"
  "res_bind (Inr a) f = f a"
  by (simp_all add: res_bind_def)

lemma res_bind_Inr: "res_bind r f = Inr b \<longleftrightarrow> (\<exists>a. r = Inr a \<and> f a = Inr b)"
  by (cases r) auto

lemma res_bind_Inl: "res_bind r f = Inl e \<longleftrightarrow> r = Inl e \<or> (\<exists>a. r = Inr a \<and> f a = Inl e)"
  by (cases r) auto

lemmas res_binds = res_bind_Inr res_bind_Inl

text \<open>An error that carries a result code is final for both retry loops.\<close>

lemma error_code_not_retried: "error_code e = Some c \<Longrightarrow> \<not> can_retry_resume e"
  by (cases e) (auto simp: error_code_def can_retry_resume_def)

lemma can_retry_resume_iff:
  "can_retry_resume e \<longleftrightarrow>
     (\<exists>s. e = Transport s \<or> e = Timeout s \<or> e = Unexpected s) \<or>
     e = ConnectionClosed \<or> e = CancelledByClose"
  by (cases e) (auto simp: can_retry_resume_def)

text \<open>Decimal digits, for the numbers the error messages print.\<close>

definition digit :: "nat \<Rightarrow> char" where
  "digit n = char_of (48 + n)"

fun show_nat :: "nat \<Rightarrow> string" where
  "show_nat n = (if n < 10 then [digit n] else show_nat (n div 10) @ [digit (n mod 10)])"

declare show_nat.simps [simp del]

end
