(* ===== verification/Data_Id.thy ===== *)
theory Data_Id
  imports Messages
begin

text \<open>
  Data ids as text (\<open>message/mod.rs\<close>): \<open>DataId::validate\<close>, \<open>FromStr\<close> and \<open>Display\<close> of the
  form \<open>type:name\<close>, with \<open>str::split\<close> on one character.
\<close>

datatype DataIdParseError = SplitterNotFound | MultipleSplitterFound | InvalidChar char

fun str_split :: "char \<Rightarrow> string \<Rightarrow> string list" where
  "str_split c [] = [[]]"
| "str_split c (x # s) =
     (if x = c then [] # str_split c s
      else (case str_split c s of
              [] \<Rightarrow> [[x]]
            | p # ps \<Rightarrow> (x # p) # ps))"

definition data_id_new :: "string \<Rightarrow> string \<Rightarrow> DataId" where
  "data_id_new name ty = \<lparr>did_name = name, did_type = ty\<rparr>"

fun validate_chars :: "DataId \<Rightarrow> char list \<Rightarrow> DataIdParseError + unit" where
  "validate_chars d [] = Inr ()"
| "validate_chars d (c # cs) =
     (if c \<in> set (did_name d) \<or> c \<in> set (did_type d) then Inl (InvalidChar c)
      else validate_chars d cs)"

definition validate :: "DataId \<Rightarrow> DataIdParseError + unit" where
  "validate d = validate_chars d [CHR ''#'', CHR ''+'', CHR '':'']"

definition data_id_from_str :: "string \<Rightarrow> DataIdParseError + DataId" where
  "data_id_from_str s =
     (case str_split (CHR '':'') s of
        [] \<Rightarrow> Inl SplitterNotFound
      | [ty] \<Rightarrow> Inl SplitterNotFound
      | [ty, name] \<Rightarrow>
          (let d = \<lparr>did_name = name, did_type = ty\<rparr>
           in case validate d of Inl e \<Rightarrow> Inl e | Inr _ \<Rightarrow> Inr d)
      | _ \<Rightarrow> Inl MultipleSplitterFound)"

definition data_id_display :: "DataId \<Rightarrow> string" where
  "data_id_display d = did_type d @ CHR '':'' # did_name d"

section \<open>Splitting and joining\<close>

lemma str_split_nonempty [simp]: "str_split c s \<noteq> []"
  by (induction s) (auto split: list.splits)

lemma str_split_no_sep: "c \<notin> set s \<Longrightarrow> str_split c s = [s]"
  by (induction s) auto

lemma str_split_append: "c \<notin> set a \<Longrightarrow> str_split c (a @ c # s) = a # str_split c s"
  by (induction a) auto

lemma str_split_parts: "p \<in> set (str_split c s) \<Longrightarrow> c \<notin> set p"
  by (induction s arbitrary: p) (auto split: if_splits list.splits)

lemma str_split_two: "str_split c s = [a, b] \<Longrightarrow> s = a @ c # b"
proof (induction s arbitrary: a)
  case (Cons x s)
  show ?case
  proof (cases "x = c")
    case True
    with Cons.prems have "a = []" and "str_split c s = [b]" by auto
    moreover from this have "s = b"
      by (induction s arbitrary: b) (auto split: if_splits list.splits)
    ultimately show ?thesis using True by simp
  next
    case False
    with Cons.prems obtain p where "str_split c s = [p, b]" and "a = x # p"
      by (auto split: list.splits)
    with Cons.IH show ?thesis by simp
  qed
qed simp

lemma validate_ok:
  "validate d = Inr u \<longleftrightarrow>
     (\<forall>c \<in> {CHR ''#'', CHR ''+'', CHR '':''}. c \<notin> set (did_name d) \<and> c \<notin> set (did_type d))"
  by (auto simp: validate_def)

lemma str_split_singleton: "str_split c s = [a] \<longleftrightarrow> a = s \<and> c \<notin> set s"
proof (induction s arbitrary: a)
  case (Cons x s)
  show ?case
    by (cases "str_split c s") (use Cons.IH in \<open>auto split: if_splits\<close>)
qed auto

lemma length_str_split: "length (str_split c s) = Suc (count_list s c)"
  by (induction s) (auto split: list.splits)

lemma data_id_from_str_two:
  "str_split (CHR '':'') s = [ty, name] \<Longrightarrow> data_id_from_str s =
     (case validate \<lparr>did_name = name, did_type = ty\<rparr> of
        Inl e \<Rightarrow> Inl e | Inr _ \<Rightarrow> Inr \<lparr>did_name = name, did_type = ty\<rparr>)"
  by (simp add: data_id_from_str_def Let_def)

lemma data_id_from_str_Inr:
  assumes "data_id_from_str s = Inr d"
  shows "str_split (CHR '':'') s = [did_type d, did_name d] \<and> validate d = Inr ()"
  using assms
  by (auto simp: data_id_from_str_def Let_def split: list.splits sum.splits)

section \<open>Properties\<close>

text \<open>
  Parsing and printing a data id are inverse: a string parses to a data id exactly when
  it is the printed form of that data id and the data id passes \<open>validate\<close>.
\<close>

theorem data_id_parse_print:
  "data_id_from_str s = Inr d \<longleftrightarrow> s = data_id_display d \<and> validate d = Inr ()"
proof
  assume "data_id_from_str s = Inr d"
  then show "s = data_id_display d \<and> validate d = Inr ()"
    using data_id_from_str_Inr str_split_two by (fastforce simp: data_id_display_def)
next
  assume d: "s = data_id_display d \<and> validate d = Inr ()"
  then have "str_split (CHR '':'') s = [did_type d, did_name d]"
    by (auto simp: data_id_display_def validate_ok str_split_append str_split_no_sep)
  with d show "data_id_from_str s = Inr d"
    by (cases d) (simp add: data_id_from_str_two)
qed

text \<open>
  Which error a malformed data id string gives: no separator, more than one separator,
  or (with exactly one) a forbidden character, which is then never the separator.
\<close>

theorem data_id_parse_errors:
  "(data_id_from_str s = Inl SplitterNotFound \<longleftrightarrow> count_list s (CHR '':'') = 0) \<and>
   (data_id_from_str s = Inl MultipleSplitterFound \<longleftrightarrow> 2 \<le> count_list s (CHR '':'')) \<and>
   (\<forall>c. data_id_from_str s = Inl (InvalidChar c) \<longleftrightarrow>
      count_list s (CHR '':'') = 1 \<and>
      (CHR ''#'' \<in> set s \<and> c = CHR ''#'' \<or>
       CHR ''#'' \<notin> set s \<and> CHR ''+'' \<in> set s \<and> c = CHR ''+''))"
proof -
  let ?p = "str_split (CHR '':'') s"
  have len: "length ?p = Suc (count_list s (CHR '':''))"
    by (rule length_str_split)
  consider a where "?p = [a]" | a b where "?p = [a, b]" | a b c r where "?p = a # b # c # r"
    by (metis str_split_nonempty list.exhaust)
  then show ?thesis
  proof cases
    case 1
    with len show ?thesis by (simp add: data_id_from_str_def)
  next
    case 2
    then have "s = a @ CHR '':'' # b" and "CHR '':'' \<notin> set a" and "CHR '':'' \<notin> set b"
      by (auto dest: str_split_two str_split_parts [of _ "CHR '':''" s, rotated])
        (metis list.set_intros(1,2) str_split_parts)+
    with 2 len show ?thesis
      by (auto simp: data_id_from_str_two validate_def)
  next
    case 3
    with len show ?thesis by (simp add: data_id_from_str_def)
  qed
qed

end
