(* ===== verification/Byte_Codec.thy ===== *)
theory Byte_Codec
  imports Prelude
begin

text \<open>
  The fixed-width big-endian integers that the transports put before their payloads
  (\<open>BufMut::put_u16\<close>, \<open>put_u32\<close>; \<open>BigEndian::read_u16\<close>, \<open>read_u32\<close>, \<open>write_u32\<close>), and the
  contract their users rely on as the locale \<open>fixed_width\<close>.
\<close>

unbundle bit_operations_syntax

section \<open>The contract of a fixed-width integer\<close>

locale fixed_width =
  fixes put :: "'w \<Rightarrow> bytes" and read :: "bytes \<Rightarrow> 'w" and width :: nat
  assumes length_put: "length (put w) = width"
    and read_put: "read (put w @ rest) = w"
begin

lemma take_put: "take width (put w @ rest) = put w"
  by (simp add: length_put)

lemma drop_put: "drop width (put w @ rest) = rest"
  by (simp add: length_put)

lemma put_inject: "put v @ r = put w @ s \<longleftrightarrow> v = w \<and> r = s"
  by (metis drop_put read_put)

lemma read_put_here: "read (put w) = w"
  using read_put [of w "[]"] by simp

end

section \<open>Sixteen and thirty-two bits\<close>

definition put_u16 :: "u16 \<Rightarrow> bytes" where
  "put_u16 w = [ucast (drop_bit 8 w), ucast w]"

definition put_u32 :: "u32 \<Rightarrow> bytes" where
  "put_u32 w = [ucast (drop_bit 24 w), ucast (drop_bit 16 w), ucast (drop_bit 8 w), ucast w]"

definition read_u16 :: "bytes \<Rightarrow> u16" where
  "read_u16 bs = push_bit 8 (ucast (bs ! 0)) OR ucast (bs ! 1)"

definition read_u32 :: "bytes \<Rightarrow> u32" where
  "read_u32 bs = push_bit 24 (ucast (bs ! 0)) OR push_bit 16 (ucast (bs ! 1)) OR
     push_bit 8 (ucast (bs ! 2)) OR ucast (bs ! 3)"

interpretation w16: fixed_width put_u16 read_u16 2
proof
  fix w :: u16 and rest
  show "length (put_u16 w) = 2" by (simp add: put_u16_def)
  show "read_u16 (put_u16 w @ rest) = w"
    unfolding read_u16_def put_u16_def
    by (rule bit_word_eqI) (auto simp: bit_simps)
qed

lemma read_put_u32: "read_u32 (put_u32 w @ rest) = w"
proof (rule bit_word_eqI)
  fix n
  assume "n < LENGTH(32)"
  then consider "n < 8" | "8 \<le> n" "n < 16" | "16 \<le> n" "n < 24" | "24 \<le> n" "n < 32"
    by fastforce
  then show "bit (read_u32 (put_u32 w @ rest)) n = bit w n"
    by cases (auto simp: read_u32_def put_u32_def bit_simps)
qed

interpretation w32: fixed_width put_u32 read_u32 4
  by unfold_locales (simp add: put_u32_def, rule read_put_u32)

end
