(* ===== verification/Datagram.thy ===== *)
theory Datagram
  imports Std_Maps Byte_Codec
begin

text \<open>
  Datagram segmentation (\<open>transport/datagram.rs\<close>): \<open>Splitter::split\<close> cuts a message into
  frames of at most the datagram size, each with an eight-byte header (sequence number, last
  segment index, segment index), and \<open>FrameBuf::push\<close> puts the frames of a message together
  again, in whatever order and interleaving they arrive, dropping partial messages that are
  older than \<open>expire\<close>.  Instants are nanosecond counts; the two \<open>Instant::now()\<close> readings of
  a call are arguments, and the subtraction of instants stops at zero as in the library.
\<close>

section \<open>Splitting\<close>

record Splitter =
  sp_sequence_number :: u32
  sp_max_segment_size :: nat
  sp_max_message_size :: nat

definition splitter_new :: "nat \<Rightarrow> Splitter option" where
  "splitter_new max_datagram_size =
     (if max_datagram_size > 8
      then Some \<lparr>sp_sequence_number = 0, sp_max_segment_size = max_datagram_size - 8,
             sp_max_message_size = (max_datagram_size - 8) * 65535\<rparr>
      else None)"

definition max_segment_index :: "nat \<Rightarrow> nat \<Rightarrow> nat" where
  "max_segment_index seg len =
     (let i = len div seg in if len mod seg = 0 \<and> i > 0 then i - 1 else i)"

definition segment_data :: "nat \<Rightarrow> nat \<Rightarrow> bytes \<Rightarrow> nat \<Rightarrow> bytes" where
  "segment_data seg max_i data i =
     (if i = max_i then drop (i * seg) data else take seg (drop (i * seg) data))"

definition frame_of :: "u32 \<Rightarrow> nat \<Rightarrow> nat \<Rightarrow> bytes \<Rightarrow> bytes" where
  "frame_of sn max_i i payload =
     put_u32 sn @ put_u16 (of_nat max_i) @ put_u16 (of_nat i) @ payload"

definition split_frames :: "u32 \<Rightarrow> nat \<Rightarrow> bytes \<Rightarrow> bytes list" where
  "split_frames sn seg data =
     (let max_i = max_segment_index seg (length data)
      in map (\<lambda>i. frame_of sn max_i i (segment_data seg max_i data i)) [0..<max_i + 1])"

text \<open>
  The outer \<open>None\<close> is a panic: the division by a zero segment size and the \<open>unwrap\<close> of the
  conversion of the segment index.  \<open>Inl ()\<close> is the source's \<open>Err(())\<close>.
\<close>

definition split :: "Splitter \<Rightarrow> bytes \<Rightarrow> bytes list \<Rightarrow> (Splitter \<times> bytes list \<times> (unit + unit)) option" where
  "split s data frames =
     (if length data \<ge> sp_max_message_size s then Some (s, frames, Inl ())
      else if sp_max_segment_size s = 0 then None
      else if max_segment_index (sp_max_segment_size s) (length data) \<ge> 2 ^ 16 then None
      else Some (s\<lparr>sp_sequence_number := sp_sequence_number s + 1\<rparr>,
             frames @ split_frames (sp_sequence_number s) (sp_max_segment_size s) data, Inr ()))"

definition splitter_inv :: "Splitter \<Rightarrow> bool" where
  "splitter_inv s \<longleftrightarrow> 0 < sp_max_segment_size s \<and>
     sp_max_message_size s = sp_max_segment_size s * 65535"

section \<open>Reassembly\<close>

record FrameBuf =
  fb_expire :: nat
  fb_checked_at :: nat
  fb_frames :: "(u32, nat \<times> nat \<times> bytes list) hash_map"

definition frame_buf_new :: "nat \<Rightarrow> FrameBuf" where
  "frame_buf_new now = \<lparr>fb_expire = 20000000000, fb_checked_at = now, fb_frames = []\<rparr>"

definition frame_seq :: "bytes \<Rightarrow> u32" where
  "frame_seq frame = read_u32 (take 4 frame)"

definition frame_max :: "bytes \<Rightarrow> u16" where
  "frame_max frame = read_u16 (take 2 (drop 4 frame))"

definition frame_index :: "bytes \<Rightarrow> u16" where
  "frame_index frame = read_u16 (take 2 (drop 6 frame))"

definition join_frames :: "bytes list \<Rightarrow> bytes" where
  "join_frames frames = concat (map (drop 8) (sort_key frame_index frames))"

definition drop_expired :: "nat \<Rightarrow> FrameBuf \<Rightarrow> FrameBuf" where
  "drop_expired now fb =
     (if now - fb_checked_at fb > fb_expire fb
      then fb\<lparr>fb_frames := filter (\<lambda>(_, t, _, _). now - t \<le> fb_expire fb) (fb_frames fb),
              fb_checked_at := now\<rparr>
      else fb)"

definition frame_push :: "nat \<Rightarrow> nat \<Rightarrow> FrameBuf \<Rightarrow> bytes \<Rightarrow> FrameBuf \<times> bytes option" where
  "frame_push now now' fb frame =
     (if length frame < 9 then (fb, None)
      else let fb = drop_expired now fb; sn = frame_seq frame; mx = frame_max frame
        in if mx = 0 then (fb, Some (drop 8 frame))
           else case map_of (fb_frames fb) sn of
              Some (t, needed, frames) \<Rightarrow>
                (let frames = frames @ [frame]
                 in if needed = length frames
                    then (fb\<lparr>fb_frames := hm_remove sn (fb_frames fb)\<rparr>, Some (join_frames frames))
                    else (fb\<lparr>fb_frames := hm_insert sn (t, needed, frames) (fb_frames fb)\<rparr>, None))
            | None \<Rightarrow>
                (fb\<lparr>fb_frames := hm_insert sn (now', unat mx + 1, [frame]) (fb_frames fb)\<rparr>, None))"

text \<open>
  A run: each event is the two clock readings of the call and the frame it got.
  \<open>outputs_for n\<close> collects what the calls for frames of message \<open>n\<close> returned.
\<close>

type_synonym frame_event = "nat \<times> nat \<times> bytes"

definition is_frame_of :: "u32 \<Rightarrow> bytes \<Rightarrow> bool" where
  "is_frame_of n f \<longleftrightarrow> 9 \<le> length f \<and> frame_seq f = n"

fun outputs_for :: "u32 \<Rightarrow> FrameBuf \<Rightarrow> frame_event list \<Rightarrow> bytes option list" where
  "outputs_for n fb [] = []"
| "outputs_for n fb ((now, now', f) # evs) =
     (case frame_push now now' fb f of
        (fb', out) \<Rightarrow>
          if is_frame_of n f then out # outputs_for n fb' evs else outputs_for n fb' evs)"

definition frames_for :: "u32 \<Rightarrow> frame_event list \<Rightarrow> bytes list" where
  "frames_for n evs = filter (is_frame_of n) (map (\<lambda>(_, _, f). f) evs)"

section \<open>The frames of a message\<close>

lemma splitter_new_inv: "splitter_new m = Some s \<Longrightarrow> splitter_inv s"
  by (auto simp: splitter_new_def splitter_inv_def split: if_splits)

lemma frame_fields:
  "length (frame_of sn m i p) = 8 + length p"
  "frame_seq (frame_of sn m i p) = sn"
  "frame_max (frame_of sn m i p) = of_nat m"
  "frame_index (frame_of sn m i p) = of_nat i"
  "drop 8 (frame_of sn m i p) = p"
proof -
  have l: "length (put_u32 sn) = 4" "length (put_u16 w) = 2" for w
    by (simp_all add: w32.length_put w16.length_put)
  show "length (frame_of sn m i p) = 8 + length p"
    by (simp add: frame_of_def l)
  show "frame_seq (frame_of sn m i p) = sn"
    by (simp add: frame_of_def frame_seq_def l w32.read_put_here)
  show "frame_max (frame_of sn m i p) = of_nat m"
    by (simp add: frame_of_def frame_max_def l w16.read_put_here)
  show "frame_index (frame_of sn m i p) = of_nat i"
    by (simp add: frame_of_def frame_index_def l w16.read_put_here)
  show "drop 8 (frame_of sn m i p) = p"
    by (simp add: frame_of_def l)
qed

lemma max_segment_index_exact:
  "len mod seg = 0 \<and> 0 < len div seg \<Longrightarrow> max_segment_index seg len = len div seg - 1"
  by (simp add: max_segment_index_def)

lemma max_segment_index_rest:
  "\<not> (len mod seg = 0 \<and> 0 < len div seg) \<Longrightarrow> max_segment_index seg len = len div seg"
  by (auto simp: max_segment_index_def)

lemma max_segment_index_spec:
  assumes "0 < seg"
  shows "max_segment_index seg len * seg \<le> len"
    and "len - max_segment_index seg len * seg \<le> seg"
    and "0 < len \<Longrightarrow> max_segment_index seg len * seg < len"
    and "max_segment_index seg len \<le> len div seg"
proof -
  let ?i = "len div seg"
  have eq: "len = ?i * seg + len mod seg" and lt: "len mod seg < seg" using assms by simp_all
  have "max_segment_index seg len * seg \<le> len \<and> len - max_segment_index seg len * seg \<le> seg \<and>
    (0 < len \<longrightarrow> max_segment_index seg len * seg < len) \<and> max_segment_index seg len \<le> ?i"
  proof (cases "len mod seg = 0 \<and> 0 < ?i")
    case True
    then obtain j where "?i = Suc j" by (metis Suc_pred')
    with True eq assms show ?thesis by (simp add: max_segment_index_exact)
  next
    case False
    have "0 < len \<longrightarrow> ?i * seg < len"
      using False eq by (cases "?i = 0") (simp, linarith)
    with False lt show ?thesis
      by (simp add: max_segment_index_rest minus_div_mult_eq_mod)
  qed
  then show "max_segment_index seg len * seg \<le> len"
    and "len - max_segment_index seg len * seg \<le> seg"
    and "0 < len \<Longrightarrow> max_segment_index seg len * seg < len"
    and "max_segment_index seg len \<le> len div seg"
    by simp_all
qed

lemma max_segment_index_bound:
  assumes "0 < seg" and "len < seg * 65535"
  shows "max_segment_index seg len < 65535"
proof -
  have "len div seg < 65535"
    using assms by (simp add: div_less_iff_less_mult mult.commute)
  with max_segment_index_spec(4) [OF assms(1), of len] show ?thesis by linarith
qed

lemma concat_chunks:
  "concat (map (\<lambda>i. take seg (drop (i * seg) xs)) [0..<n]) = take (n * seg) xs"
proof (induction n)
  case (Suc n)
  have "take (Suc n * seg) xs = take (n * seg) xs @ take seg (drop (n * seg) xs)"
    by (metis add.commute mult_Suc take_add)
  with Suc show ?case by simp
qed simp

lemma concat_segments:
  "concat (map (segment_data seg m data) [0..<Suc m]) = data"
proof -
  have "map (segment_data seg m data) [0..<m] = map (\<lambda>i. take seg (drop (i * seg) data)) [0..<m]"
    by (simp add: segment_data_def)
  then have "concat (map (segment_data seg m data) [0..<m]) = take (m * seg) data"
    by (simp only: concat_chunks)
  then show ?thesis
    by (simp add: segment_data_def [of seg m data m])
qed

lemma segment_length:
  assumes "0 < seg" and "m = max_segment_index seg (length data)"
  shows "length (segment_data seg m data i) \<le> seg"
  using max_segment_index_spec(2) [OF assms(1), of "length data"] assms(2)
  by (simp add: segment_data_def)

lemma segment_nonempty:
  assumes "0 < seg" and "data \<noteq> []" and "m = max_segment_index seg (length data)" and "i \<le> m"
  shows "segment_data seg m data i \<noteq> []"
proof -
  have m: "m * seg < length data"
    using max_segment_index_spec(3) [OF assms(1)] assms(2,3) by simp
  have "i * seg \<le> m * seg" using assms(4) by simp
  with m have "i * seg < length data" by linarith
  with m assms(1) show ?thesis by (auto simp: segment_data_def)
qed

section \<open>The frames that \<open>split\<close> makes\<close>

lemma length_split_frames:
  "length (split_frames sn seg data) = max_segment_index seg (length data) + 1"
  by (simp add: split_frames_def Let_def)

lemma split_frames_nth:
  "i \<le> max_segment_index seg (length data) \<Longrightarrow> split_frames sn seg data ! i =
     frame_of sn (max_segment_index seg (length data)) i
       (segment_data seg (max_segment_index seg (length data)) data i)"
  by (simp add: split_frames_def Let_def del: upt_Suc)

lemma split_frames_mem:
  "f \<in> set (split_frames sn seg data) \<longleftrightarrow>
     (\<exists>i \<le> max_segment_index seg (length data). f = frame_of sn (max_segment_index seg (length data)) i
        (segment_data seg (max_segment_index seg (length data)) data i))"
  by (auto simp: split_frames_def Let_def less_Suc_eq_le image_iff Bex_def simp del: upt_Suc)

lemma split_frames_payload: "concat (map (drop 8) (split_frames sn seg data)) = data"
  by (simp add: split_frames_def Let_def comp_def frame_fields concat_segments del: upt_Suc)

lemma split_frames_sorted:
  assumes "max_segment_index seg (length data) < 2 ^ 16"
  shows "sorted (map frame_index (split_frames sn seg data))"
    and "inj_on frame_index (set (split_frames sn seg data))"
proof -
  let ?m = "max_segment_index seg (length data)"
  have idx: "map frame_index (split_frames sn seg data) = map of_nat [0..<?m + 1]"
    by (simp add: split_frames_def Let_def comp_def frame_fields del: upt_Suc)
  have le: "(of_nat i :: u16) \<le> of_nat j" if "i \<le> j" "j \<le> ?m" for i j
    using that assms by (simp add: word_le_nat_alt unat_of_nat take_bit_nat_eq_self)
  show "sorted (map frame_index (split_frames sn seg data))"
    unfolding idx by (auto simp: sorted_iff_nth_mono le simp del: upt_Suc)
  have "i = j" if "(of_nat i :: u16) = of_nat j" "i \<le> ?m" "j \<le> ?m" for i j
  proof -
    have "unat (of_nat i :: u16) = i" "unat (of_nat j :: u16) = j"
      using that(2,3) assms by (simp_all add: unat_of_nat take_bit_nat_eq_self)
    with that(1) show ?thesis by metis
  qed
  then show "inj_on frame_index (set (split_frames sn seg data))"
    by (intro inj_onI) (metis split_frames_mem frame_fields(4))
qed

text \<open>
  Whatever sorting routine orders the frames by their index, a complete set of frames joins
  to the message: the indices are distinct, so the sorted order is unique.
\<close>

lemma join_frames_perm:
  assumes "mset fs = mset (split_frames sn seg data)"
    and "max_segment_index seg (length data) < 2 ^ 16"
  shows "join_frames fs = data"
proof -
  have "set fs = set (split_frames sn seg data)"
    using assms(1) by (metis set_mset_mset)
  then have "sort_key frame_index fs = split_frames sn seg data"
    using assms split_frames_sorted by (intro sort_key_inj_key_eq) simp_all
  then show ?thesis
    by (simp add: join_frames_def split_frames_payload)
qed

section \<open>Reassembly in any order\<close>

lemma drop_expired_fields [simp]:
  "fb_expire (drop_expired now fb) = fb_expire fb"
  "hm_inv (fb_frames fb) \<Longrightarrow> hm_inv (fb_frames (drop_expired now fb))"
  by (auto simp: drop_expired_def)

lemma drop_expired_lookup:
  assumes "hm_inv (fb_frames fb)"
  shows "map_of (fb_frames (drop_expired now fb)) n =
     (case map_of (fb_frames fb) n of
        None \<Rightarrow> None
      | Some (t, k, g) \<Rightarrow>
          if now - fb_checked_at fb > fb_expire fb \<and> now - t > fb_expire fb then None
          else Some (t, k, g))"
  using assms by (auto simp: drop_expired_def hm_retain_lookup split: option.splits)

lemma frame_push_inv:
  "hm_inv (fb_frames fb) \<Longrightarrow> hm_inv (fb_frames (fst (frame_push now now' fb f)))"
  "fb_expire (fst (frame_push now now' fb f)) = fb_expire fb"
  by (auto simp: frame_push_def Let_def split: option.splits)

lemma frame_push_other:
  assumes "hm_inv (fb_frames fb)" and "\<not> is_frame_of n f"
    and "\<And>t k g. map_of (fb_frames fb) n = Some (t, k, g) \<Longrightarrow> now - t \<le> fb_expire fb"
  shows "map_of (fb_frames (fst (frame_push now now' fb f))) n = map_of (fb_frames fb) n"
proof -
  have "map_of (fb_frames (drop_expired now fb)) n = map_of (fb_frames fb) n"
    using assms(1,3) by (fastforce simp: drop_expired_lookup split: option.splits)
  with assms(2) show ?thesis
    by (auto simp: frame_push_def Let_def is_frame_of_def split: option.splits)
qed

lemma frame_push_first:
  assumes "hm_inv (fb_frames fb)" and "9 \<le> length f" and "frame_max f \<noteq> 0"
    and "map_of (fb_frames fb) (frame_seq f) = None"
  shows "frame_push now now' fb f =
    ((drop_expired now fb)\<lparr>fb_frames := hm_insert (frame_seq f) (now', unat (frame_max f) + 1, [f])
        (fb_frames (drop_expired now fb))\<rparr>, None)"
  using assms by (simp add: frame_push_def Let_def drop_expired_lookup)

lemma frame_push_next:
  assumes "hm_inv (fb_frames fb)" and "9 \<le> length f" and "frame_max f \<noteq> 0"
    and "map_of (fb_frames fb) (frame_seq f) = Some (t0, k, got)" and "now - t0 \<le> fb_expire fb"
  shows "frame_push now now' fb f =
    (let fb' = drop_expired now fb in
     if k = Suc (length got)
     then (fb'\<lparr>fb_frames := hm_remove (frame_seq f) (fb_frames fb')\<rparr>, Some (join_frames (got @ [f])))
     else (fb'\<lparr>fb_frames := hm_insert (frame_seq f) (t0, k, got @ [f]) (fb_frames fb')\<rparr>, None))"
  using assms by (simp add: frame_push_def Let_def drop_expired_lookup)

lemma outputs_for_none: "frames_for n evs = [] \<Longrightarrow> outputs_for n fb evs = []"
  by (induction n fb evs rule: outputs_for.induct)
    (auto simp: frames_for_def split: if_splits prod.splits)

lemma frames_for_Cons:
  "frames_for n ((t, t', f) # evs) =
     (if is_frame_of n f then f # frames_for n evs else frames_for n evs)"
  by (simp add: frames_for_def)

text \<open>What the buffer holds for message \<open>n\<close> once it got the frames \<open>got\<close> of \<open>k\<close>.\<close>

definition holds_frames :: "u32 \<Rightarrow> nat \<Rightarrow> FrameBuf \<Rightarrow> bytes list \<Rightarrow> frame_event list \<Rightarrow> bool" where
  "holds_frames n k fb got evs \<longleftrightarrow> hm_inv (fb_frames fb) \<and>
     (if got = [] then map_of (fb_frames fb) n = None
      else \<exists>t0. map_of (fb_frames fb) n = Some (t0, k, got) \<and>
             (\<forall>(t, _, _) \<in> set evs. t - t0 \<le> fb_expire fb))"

definition within_expiry :: "nat \<Rightarrow> frame_event list \<Rightarrow> bool" where
  "within_expiry d evs \<longleftrightarrow> (\<forall>(t, _, _) \<in> set evs. \<forall>(_, u, _) \<in> set evs. t - u \<le> d)"

lemma holds_frames_other:
  assumes "holds_frames n k fb got ((t, t', f) # evs)" and "\<not> is_frame_of n f"
  shows "holds_frames n k (fst (frame_push t t' fb f)) got evs"
  using assms frame_push_other [of fb n f t t']
  by (auto simp: holds_frames_def frame_push_inv)

lemma holds_frames_mine:
  assumes holds: "holds_frames n k fb got ((t, t', f) # evs)" and f: "is_frame_of n f"
    and max: "unat (frame_max f) + 1 = k" "frame_max f \<noteq> 0"
    and time: "\<forall>(u, _, _) \<in> set evs. u - t' \<le> fb_expire fb"
    and len: "Suc (length got) < k"
  shows "snd (frame_push t t' fb f) = None \<and>
    holds_frames n k (fst (frame_push t t' fb f)) (got @ [f]) evs"
proof (cases "got = []")
  case True
  with holds f max frame_push_first [of fb f t t'] time show ?thesis
    by (auto simp: holds_frames_def is_frame_of_def)
next
  case False
  with holds obtain t0 where "map_of (fb_frames fb) n = Some (t0, k, got)" "t - t0 \<le> fb_expire fb"
      "\<forall>(t, _, _) \<in> set evs. t - t0 \<le> fb_expire fb" "hm_inv (fb_frames fb)"
    by (auto simp: holds_frames_def)
  with f max len frame_push_next [of fb f t0 k got t t'] show ?thesis
    by (auto simp: holds_frames_def is_frame_of_def Let_def)
qed

lemma holds_frames_last:
  assumes holds: "holds_frames n k fb got ((t, t', f) # evs)" and f: "is_frame_of n f"
    and max: "frame_max f \<noteq> 0" and len: "Suc (length got) = k" "got \<noteq> []"
  shows "snd (frame_push t t' fb f) = Some (join_frames (got @ [f]))"
proof -
  from holds len obtain t0 where "map_of (fb_frames fb) n = Some (t0, k, got)"
      "t - t0 \<le> fb_expire fb" "hm_inv (fb_frames fb)"
    by (auto simp: holds_frames_def)
  with f max len frame_push_next [of fb f t0 k got t t'] show ?thesis
    by (auto simp: is_frame_of_def Let_def)
qed

lemma split_frames_header:
  assumes "f \<in> set (split_frames n seg data)" and "0 < seg" and "data \<noteq> []"
    and "max_segment_index seg (length data) < 2 ^ 16"
  shows "is_frame_of n f" and "unat (frame_max f) = max_segment_index seg (length data)"
proof -
  let ?m = "max_segment_index seg (length data)"
  obtain i where i: "i \<le> ?m" and f: "f = frame_of n ?m i (segment_data seg ?m data i)"
    using assms(1) by (auto simp: split_frames_mem)
  have "segment_data seg ?m data i \<noteq> []"
    using segment_nonempty [OF assms(2,3) refl i] .
  then show "is_frame_of n f"
    by (simp add: f is_frame_of_def frame_fields Suc_le_eq)
  show "unat (frame_max f) = ?m"
    using assms(4) by (simp add: f frame_fields unat_of_nat take_bit_nat_eq_self)
qed

lemma reassemble:
  assumes seg: "0 < seg" "data \<noteq> []" and fs: "fs = split_frames n seg data"
    and m: "max_segment_index seg (length data) < 2 ^ 16" "0 < max_segment_index seg (length data)"
  shows "holds_frames n (length fs) fb got evs \<Longrightarrow> within_expiry (fb_expire fb) evs \<Longrightarrow>
    mset (got @ frames_for n evs) = mset fs \<Longrightarrow> frames_for n evs \<noteq> [] \<Longrightarrow>
    outputs_for n fb evs = replicate (length (frames_for n evs) - 1) None @ [Some data]"
proof (induction evs arbitrary: fb got)
  case Nil
  then show ?case by (simp add: frames_for_def)
next
  case (Cons e evs)
  obtain t t' f where e: "e = (t, t', f)" by (cases e)
  let ?fb = "fst (frame_push t t' fb f)" and ?out = "snd (frame_push t t' fb f)"
  have exp: "within_expiry (fb_expire ?fb) evs"
    using Cons.prems(2) by (auto simp: e within_expiry_def frame_push_inv)
  have out: "outputs_for n fb (e # evs) =
      (if is_frame_of n f then ?out # outputs_for n ?fb evs else outputs_for n ?fb evs)"
    by (simp add: e split: prod.splits)
  show ?case
  proof (cases "is_frame_of n f")
    case False
    with Cons.prems e have "holds_frames n (length fs) ?fb got evs"
      by (simp add: holds_frames_other)
    with Cons exp False out show ?thesis by (simp add: e frames_for_Cons)
  next
    case True
    then have ff: "frames_for n (e # evs) = f # frames_for n evs" by (simp add: e frames_for_Cons)
    with Cons.prems(3) have mf: "mset (got @ [f] @ frames_for n evs) = mset fs" by simp
    then have "f \<in> set fs" by (metis in_set_conv_decomp append_Cons append_Nil mset_eq_setD)
    then have mx: "unat (frame_max f) = max_segment_index seg (length data)"
      using split_frames_header seg m fs by metis
    then have mx0: "frame_max f \<noteq> 0" and k: "unat (frame_max f) + 1 = length fs"
      using m by (auto simp: fs length_split_frames)
    have len: "Suc (length got + length (frames_for n evs)) = length fs"
      using arg_cong [OF mf, of size] by simp
    have holds: "holds_frames n (length fs) fb got ((t, t', f) # evs)"
      using Cons.prems(1) e by simp
    show ?thesis
    proof (cases "frames_for n evs = []")
      case True
      with mf fs m(1) have "join_frames (got @ [f]) = data"
        by (intro join_frames_perm) simp_all
      moreover have "got \<noteq> []" using True len k m mx by auto
      ultimately have "?out = Some data"
        using holds_frames_last [OF holds \<open>is_frame_of n f\<close> mx0] True len by simp
      with True ff out show ?thesis by (simp add: outputs_for_none \<open>is_frame_of n f\<close>)
    next
      case False
      have "\<forall>(u, _, _) \<in> set evs. u - t' \<le> fb_expire fb"
        using Cons.prems(2) by (auto simp: e within_expiry_def)
      moreover have "Suc (length got) < length fs" using len False by (cases "frames_for n evs") auto
      ultimately have "?out = None" and "holds_frames n (length fs) ?fb (got @ [f]) evs"
        using holds_frames_mine [OF holds \<open>is_frame_of n f\<close> k mx0] by simp_all
      with Cons.IH [of ?fb "got @ [f]"] exp mf False out ff show ?thesis
        by (cases "frames_for n evs") (simp_all add: \<open>is_frame_of n f\<close>)
    qed
  qed
qed

lemma reassemble_single:
  "frames_for n evs = [f] \<Longrightarrow> frame_max f = 0 \<Longrightarrow> outputs_for n fb evs = [Some (drop 8 f)]"
proof (induction evs arbitrary: fb)
  case (Cons e evs)
  obtain t t' g where e: "e = (t, t', g)" by (cases e)
  show ?case
  proof (cases "is_frame_of n g")
    case True
    with Cons.prems e have "g = f" and "frames_for n evs = []" by (simp_all add: frames_for_Cons)
    moreover from this have "snd (frame_push t t' fb f) = Some (drop 8 f)"
      using True Cons.prems(2) by (simp add: frame_push_def is_frame_of_def Let_def)
    ultimately show ?thesis
      using True e by (cases "frame_push t t' fb f") (simp add: outputs_for_none)
  next
    case False
    with Cons e show ?thesis by (cases "frame_push t t' fb g") (simp add: frames_for_Cons)
  qed
qed (simp add: frames_for_def)

lemma split_ok:
  assumes "splitter_inv s" and "length data < sp_max_message_size s"
  shows "split s data q = Some (s\<lparr>sp_sequence_number := sp_sequence_number s + 1\<rparr>,
      q @ split_frames (sp_sequence_number s) (sp_max_segment_size s) data, Inr ())"
    and "max_segment_index (sp_max_segment_size s) (length data) < 65535"
  using assms max_segment_index_bound [of "sp_max_segment_size s" "length data"]
  by (auto simp: split_def splitter_inv_def)

lemma split_Inr:
  assumes "splitter_inv s" and "split s data q = Some (s', q', Inr u)"
  shows "length data < sp_max_message_size s"
  using assms by (auto simp: split_def not_le split: if_splits)

lemma split_frames_reassemble:
  fixes s :: Splitter and data :: bytes
  defines "n \<equiv> sp_sequence_number s"
  defines "fs \<equiv> split_frames n (sp_max_segment_size s) data"
  assumes "splitter_inv s" and "data \<noteq> []" and "length data < sp_max_message_size s"
    and "hm_inv (fb_frames fb)" and "map_of (fb_frames fb) n = None"
    and "within_expiry (fb_expire fb) evs" and "mset (frames_for n evs) = mset fs"
  shows "outputs_for n fb evs = replicate (length fs - 1) None @ [Some data]"
proof -
  let ?seg = "sp_max_segment_size s"
  let ?m = "max_segment_index ?seg (length data)"
  have fs: "fs = split_frames n ?seg data" and seg: "0 < ?seg" and m: "?m < 2 ^ 16"
    using split_ok [OF assms(3,5)] assms(3) by (simp_all add: splitter_inv_def fs_def n_def)
  have len: "length (frames_for n evs) = length fs"
    using assms(9) by (metis size_mset)
  show ?thesis
  proof (cases "?m = 0")
    case True
    then obtain f where f: "fs = [f]"
      using length_split_frames [of n ?seg data] fs by (metis One_nat_def add_0 length_0_conv length_Suc_conv)
    with assms(9) have "frames_for n evs = [f]" by simp
    moreover have "frame_max f = 0" and "drop 8 f = data"
      using f fs True split_frames_payload [of n ?seg data] split_frames_header(2) [of f n ?seg data]
        seg assms(4) m by (auto simp: unat_eq_zero)
    ultimately show ?thesis by (simp add: reassemble_single f)
  next
    case False
    have "holds_frames n (length fs) fb [] evs"
      using assms(6,7) by (simp add: holds_frames_def)
    moreover have "frames_for n evs \<noteq> []"
      using len fs by (auto simp: length_split_frames)
    ultimately show ?thesis
      using reassemble [OF seg assms(4) fs m, of fb "[]" evs] False assms(8,9) len by simp
  qed
qed

section \<open>Properties\<close>

text \<open>
  C10: a message that \<open>split\<close> cut into frames is put together again from them by
  \<open>FrameBuf::push\<close>, whatever the order of the frames and whatever frames of other messages
  (or short garbage) arrive between them, as long as they arrive within the expiry time: every
  frame but the last to arrive yields nothing, the last one yields the message.
\<close>

theorem split_reassemble:
  assumes "splitter_inv s" and "data \<noteq> []"
    and "split s data q = Some (s', q @ fs, Inr ())"
    and "hm_inv (fb_frames fb)" and "map_of (fb_frames fb) (sp_sequence_number s) = None"
    and "within_expiry (fb_expire fb) evs"
    and "mset (frames_for (sp_sequence_number s) evs) = mset fs"
  shows "outputs_for (sp_sequence_number s) fb evs = replicate (length fs - 1) None @ [Some data]"
proof -
  have len: "length data < sp_max_message_size s" by (rule split_Inr [OF assms(1,3)])
  then have "fs = split_frames (sp_sequence_number s) (sp_max_segment_size s) data"
    using split_ok [OF assms(1)] assms(3) by simp
  then show ?thesis using split_frames_reassemble [OF assms(1,2) len assms(4,5,6)] assms(7) by simp
qed

text \<open>
  C40: \<open>split\<close> never panics on a splitter made by \<open>Splitter::new\<close>, refuses exactly the messages
  of at least \<open>max_message_size\<close> bytes (and then changes nothing), and otherwise appends at most
  65535 frames that fit the datagram size, carry the sequence number, the index of the last
  segment and their own index, hold the message in order, and advances the sequence number.
\<close>

theorem split_frames_layout:
  assumes "splitter_inv s"
  shows "(sp_max_message_size s \<le> length data \<longrightarrow> split s data q = Some (s, q, Inl ())) \<and>
    (length data < sp_max_message_size s \<longrightarrow>
      (\<exists>fs. split s data q =
          Some (s\<lparr>sp_sequence_number := sp_sequence_number s + 1\<rparr>, q @ fs, Inr ()) \<and>
        0 < length fs \<and> length fs \<le> 65535 \<and> concat (map (drop 8) fs) = data \<and>
        (\<forall>i < length fs. length (fs ! i) \<le> sp_max_segment_size s + 8 \<and>
           frame_seq (fs ! i) = sp_sequence_number s \<and>
           unat (frame_max (fs ! i)) = length fs - 1 \<and> unat (frame_index (fs ! i)) = i)))"
proof (intro conjI impI)
  assume "sp_max_message_size s \<le> length data"
  then show "split s data q = Some (s, q, Inl ())" by (simp add: split_def)
next
  assume "length data < sp_max_message_size s"
  note ok = split_ok [OF assms this]
  let ?n = "sp_sequence_number s" and ?seg = "sp_max_segment_size s"
  let ?m = "max_segment_index ?seg (length data)" and ?fs = "split_frames ?n ?seg data"
  have "length (?fs ! i) \<le> ?seg + 8 \<and> frame_seq (?fs ! i) = ?n \<and>
      unat (frame_max (?fs ! i)) = length ?fs - 1 \<and> unat (frame_index (?fs ! i)) = i"
    if "i < length ?fs" for i
    using that ok(2) assms segment_length [of ?seg ?m data i]
    by (simp add: length_split_frames split_frames_nth frame_fields unat_of_nat
        take_bit_nat_eq_self splitter_inv_def)
  with ok show "\<exists>fs. split s data q = Some (s\<lparr>sp_sequence_number := ?n + 1\<rparr>, q @ fs, Inr ()) \<and>
        0 < length fs \<and> length fs \<le> 65535 \<and> concat (map (drop 8) fs) = data \<and>
        (\<forall>i < length fs. length (fs ! i) \<le> ?seg + 8 \<and> frame_seq (fs ! i) = ?n \<and>
           unat (frame_max (fs ! i)) = length fs - 1 \<and> unat (frame_index (fs ! i)) = i)"
    by (intro exI [of _ ?fs]) (simp add: length_split_frames split_frames_payload)
qed

text \<open>The example of the crate's own test: six bytes over twelve-byte datagrams.\<close>

definition sp12 :: Splitter where
  "sp12 = \<lparr>sp_sequence_number = 0, sp_max_segment_size = 4, sp_max_message_size = 262140\<rparr>"

definition six_frames :: "bytes list" where
  "six_frames = [[0,0,0,0,0,1,0,0,0,1,2,3], [0,0,0,0,0,1,0,1,4,5]]"

lemma split_six: "split sp12 [0,1,2,3,4,5] [] =
    Some (sp12\<lparr>sp_sequence_number := 1\<rparr>, six_frames, Inr ())"
  by (simp add: split_def sp12_def six_frames_def split_frames_def max_segment_index_def
      frame_of_def segment_data_def put_u16_def put_u32_def upt_rec)

lemma sp12_inv: "splitter_inv sp12"
  by (simp add: splitter_inv_def sp12_def)

lemma six_frames_seq: "f \<in> set six_frames \<Longrightarrow> is_frame_of 0 f"
  by (auto simp: six_frames_def is_frame_of_def frame_seq_def read_u32_def)

theorem split_reassemble_witness:
  "outputs_for 0 (frame_buf_new 5) [(7, 7, six_frames ! 1), (9, 9, six_frames ! 0)] =
     [None, Some [0,1,2,3,4,5]]"
proof -
  let ?evs = "[(7, 7, six_frames ! 1), (9, 9, six_frames ! 0)] :: frame_event list"
  have s: "split sp12 [0,1,2,3,4,5] [] = Some (sp12\<lparr>sp_sequence_number := 1\<rparr>, [] @ six_frames, Inr ())"
    by (simp add: split_six)
  have six: "length six_frames = 2" by (simp add: six_frames_def)
  have "is_frame_of 0 (six_frames ! 0)" "is_frame_of 0 (six_frames ! 1)"
    using six by (simp_all add: six_frames_seq)
  then have "mset (frames_for (sp_sequence_number sp12) ?evs) = mset six_frames"
    by (simp add: frames_for_def sp12_def) (simp add: six_frames_def add_mset_commute)
  from split_reassemble [OF sp12_inv _ s _ _ _ this, of "frame_buf_new 5"] six show ?thesis
    by (simp add: frame_buf_new_def within_expiry_def sp12_def)
qed

theorem split_frames_layout_witness:
  "splitter_inv sp12 \<and>
     split sp12 (replicate 262140 0) [] = Some (sp12, [], Inl ())"
  using sp12_inv split_frames_layout [OF sp12_inv, of "replicate 262140 0" "[]"]
  by (simp add: sp12_def)

text \<open>
  A frame that arrives twice is counted twice: the first frame of the example, received two
  times, completes the message with the second frame missing.
\<close>

theorem duplicate_frame_completes:
  "outputs_for 0 (frame_buf_new 5) [(7, 7, six_frames ! 0), (9, 9, six_frames ! 0)] =
     [None, Some [0,1,2,3,0,1,2,3]]"
  by (simp add: six_frames_def frame_buf_new_def frame_push_def drop_expired_def is_frame_of_def
      frame_seq_def frame_max_def frame_index_def join_frames_def read_u32_def read_u16_def)

end
