(* ===== verification/Types.thy ===== *)
theory Types
  imports Errors
begin

text \<open>
  The public data types of the streams: \<open>iscp/types.rs\<close>, the stream configurations of
  \<open>iscp/upstream.rs\<close> and \<open>iscp/downstream.rs\<close> with their defaults, the flush policy of
  \<open>iscp/flush_policy.rs\<close> and the conversions of \<open>iscp/misc.rs\<close>.  A \<open>Duration\<close> is a number
  of nanoseconds, a \<open>SystemTime\<close> the nanoseconds since the Unix epoch; a callback is present
  or absent, what it is called with is recorded by the component that calls it.
\<close>

section \<open>Stream data (\<open>iscp/types.rs\<close>)\<close>

record DataPointGroup =
  dpg_data_id :: DataId
  dpg_data_points :: "DataPoint list"

record UpstreamChunk =
  uc_sequence_number :: u32
  uc_data_point_groups :: "DataPointGroup list"

record UpstreamChunkResult =
  ucrs_sequence_number :: u32
  ucrs_result_code :: ResultCode
  ucrs_result_string :: string

record UpstreamInfo =
  ui_session_id :: string
  ui_stream_id :: Uuid
  ui_source_node_id :: string

record DownstreamChunk =
  dc_sequence_number :: u32
  dc_data_point_groups :: "DataPointGroup list"
  dc_upstream :: UpstreamInfo

section \<open>Flush policy (\<open>iscp/flush_policy.rs\<close>)\<close>

type_synonym duration = nat

definition millis :: "nat \<Rightarrow> duration" where
  "millis n = n * 1000000"

definition secs :: "nat \<Rightarrow> duration" where
  "secs n = n * 1000000000"

datatype FlushPolicy =
  FlushNone
| IntervalOnly duration
| BufferSizeOnly u64
| IntervalOrBufferSize duration u64
| Immediately

definition flush_policy_default :: FlushPolicy where
  "flush_policy_default = IntervalOnly (millis 100)"

definition flush_interval :: "FlushPolicy \<Rightarrow> duration option" where
  "flush_interval p =
     (case p of IntervalOnly i \<Rightarrow> Some i | IntervalOrBufferSize i _ \<Rightarrow> Some i | _ \<Rightarrow> None)"

definition flush_buffer_size :: "FlushPolicy \<Rightarrow> u64 option" where
  "flush_buffer_size p =
     (case p of BufferSizeOnly b \<Rightarrow> Some b | IntervalOrBufferSize _ b \<Rightarrow> Some b | _ \<Rightarrow> None)"

definition need_flush :: "FlushPolicy \<Rightarrow> u64 \<Rightarrow> bool" where
  "need_flush p current_buffer_size =
     (case p of
        Immediately \<Rightarrow> True
      | BufferSizeOnly b \<Rightarrow> b \<le> current_buffer_size
      | IntervalOrBufferSize _ b \<Rightarrow> b \<le> current_buffer_size
      | _ \<Rightarrow> False)"

lemma need_flush_iff:
  "need_flush p n \<longleftrightarrow> p = Immediately \<or> (\<exists>b. flush_buffer_size p = Some b \<and> b \<le> n)"
  by (cases p) (auto simp: need_flush_def flush_buffer_size_def)

section \<open>Configurations\<close>

record UpstreamConfig =
  ucfg_session_id :: string
  ucfg_ack_interval :: duration
  ucfg_expiry_interval :: duration
  ucfg_data_ids :: "DataId list"
  ucfg_qos :: QoS
  ucfg_persist :: bool
  ucfg_flush_policy :: FlushPolicy
  ucfg_close_timeout :: duration
  ucfg_send_data_points_callback :: bool
  ucfg_receive_ack_callback :: bool
  ucfg_resumed_callback :: bool

definition upstream_config_default :: UpstreamConfig where
  "upstream_config_default =
     \<lparr>ucfg_session_id = [], ucfg_ack_interval = millis 100, ucfg_expiry_interval = secs 60,
      ucfg_data_ids = [], ucfg_qos = Unreliable, ucfg_persist = False,
      ucfg_flush_policy = flush_policy_default, ucfg_close_timeout = secs 10,
      ucfg_send_data_points_callback = False, ucfg_receive_ack_callback = False,
      ucfg_resumed_callback = False\<rparr>"

datatype DownstreamReordering = ReorderNone | BestEffort | Strict

record DownstreamConfig =
  dcfg_filters :: "DownstreamFilter list"
  dcfg_expiry_interval :: duration
  dcfg_qos :: QoS
  dcfg_data_ids :: "DataId list"
  dcfg_ack_interval :: duration
  dcfg_omit_empty_chunk :: bool
  dcfg_reordering :: DownstreamReordering
  dcfg_reordering_chunks :: nat
  dcfg_close_timeout :: duration

definition downstream_config_default :: DownstreamConfig where
  "downstream_config_default =
     \<lparr>dcfg_filters = [], dcfg_expiry_interval = secs 60, dcfg_qos = Unreliable,
      dcfg_data_ids = [], dcfg_ack_interval = millis 100, dcfg_omit_empty_chunk = False,
      dcfg_reordering = ReorderNone, dcfg_reordering_chunks = 255, dcfg_close_timeout = secs 10\<rparr>"

section \<open>Conversions (\<open>iscp/misc.rs\<close>)\<close>

definition parse_stream_id :: "bytes \<Rightarrow> Uuid res" where
  "parse_stream_id bs =
     (case uuid_from_slice bs of
        Some u \<Rightarrow> Inr u
      | None \<Rightarrow> Inl (InvalidValue ''invalid bytes for stream id: ''))"

text \<open>\<open>SystemTime::checked_add\<close> on a platform that counts seconds in an \<open>i64\<close>.\<close>

definition system_time_checked_add :: "int \<Rightarrow> duration \<Rightarrow> int option" where
  "system_time_checked_add t d =
     (if t + int d < 2 ^ 63 * 1000000000 then Some (t + int d) else None)"

definition unix_epoch_to_system_time :: "i64 \<Rightarrow> int res" where
  "unix_epoch_to_system_time nsecs =
     (if sint nsecs < 0 then Inl (InvalidValue ''server time overflow'')
      else case system_time_checked_add 0 (nat (sint nsecs)) of
             Some t \<Rightarrow> Inr t
           | None \<Rightarrow> Inl (InvalidValue ''server time overflow''))"

text \<open>The error of \<open>from_qos_i32\<close> is the text of prost's conversion error, left empty here.\<close>

definition from_qos_i32 :: "i32 \<Rightarrow> QoS res" where
  "from_qos_i32 v =
     (case qos_try_from v of Some q \<Rightarrow> Inr q | None \<Rightarrow> Inl (InvalidValue []))"

lemma parse_stream_id_Inr: "parse_stream_id bs = Inr u \<longleftrightarrow> length bs = 16 \<and> u = Uuid bs"
  by (auto simp: parse_stream_id_def uuid_from_slice_def)

lemma unix_epoch_to_system_time_eq:
  "unix_epoch_to_system_time n =
     (if sint n < 0 then Inl (InvalidValue ''server time overflow'') else Inr (sint n))"
proof -
  have "sint n < 2 ^ 63" using sint_lt [of n] by simp
  then have "sint n < 2 ^ 63 * 1000000000" by simp
  then show ?thesis
    by (simp add: unix_epoch_to_system_time_def system_time_checked_add_def)
qed

end
