(* ===== verification/Down_Order.thy ===== *)
theory Down_Order
  imports Types
begin

text \<open>
  Reordering of downstream chunks (\<open>iscp/down_order.rs\<close>).  Per upstream, the reorderer keeps
  the next sequence number to hand out and the chunks that arrived early, in a \<open>BTreeMap\<close> by
  sequence number.  The outer \<open>option\<close> of the operations is \<open>None\<close> where the source would
  panic (an \<open>unwrap\<close> or an index of a missing key).
\<close>

record DownReorderer =
  ro_enabled :: bool
  ro_strict :: bool
  ro_limit :: nat
  ro_next :: "(Uuid, u32) hash_map"
  ro_store :: "(Uuid, (u32, DownstreamChunk) btree_map) hash_map"

datatype DownReordererIter = NotReordered "DownstreamChunk option" | Reordered Uuid

definition reorderer_new :: "DownstreamConfig \<Rightarrow> DownReorderer" where
  "reorderer_new config =
     \<lparr>ro_enabled = (dcfg_qos config = Reliable \<and> dcfg_reordering config \<noteq> ReorderNone),
      ro_strict = (dcfg_reordering config = Strict),
      ro_limit = dcfg_reordering_chunks config,
      ro_next = [], ro_store = []\<rparr>"

definition chunk_stream :: "DownstreamChunk \<Rightarrow> Uuid" where
  "chunk_stream c = ui_stream_id (dc_upstream c)"

definition open_stream :: "DownReorderer \<Rightarrow> Uuid \<Rightarrow> u32 \<Rightarrow> DownReorderer" where
  "open_stream r u n =
     (if map_of (ro_next r) u = None
      then r\<lparr>ro_next := hm_insert u n (ro_next r), ro_store := hm_insert u [] (ro_store r)\<rparr>
      else r)"

definition reorder_iter ::
  "DownReorderer \<Rightarrow> DownstreamChunk \<Rightarrow> (DownReorderer \<times> DownReordererIter res) option" where
  "reorder_iter r chunk =
     (if ro_enabled r then
        let u = chunk_stream chunk; sn = dc_sequence_number chunk; r = open_stream r u sn
        in case map_of (ro_store r) u of
             None \<Rightarrow> None
           | Some st \<Rightarrow>
               if ro_strict r \<and> length st \<ge> ro_limit r \<and> map_of (ro_next r) u \<noteq> Some sn
               then Some (r, Inl (Reordering u))
               else Some (r\<lparr>ro_store := hm_insert u (bt_insert sn chunk st) (ro_store r)\<rparr>,
                          Inr (Reordered u))
      else Some (r, Inr (NotReordered (Some chunk))))"

definition set_stream :: "DownReorderer \<Rightarrow> Uuid \<Rightarrow> u32 \<Rightarrow> (u32, DownstreamChunk) btree_map \<Rightarrow> DownReorderer" where
  "set_stream r u n st =
     r\<lparr>ro_store := hm_insert u st (ro_store r), ro_next := hm_insert u n (ro_next r)\<rparr>"

definition reorder_pop :: "DownReorderer \<Rightarrow> Uuid \<Rightarrow> (DownReorderer \<times> DownstreamChunk option) option" where
  "reorder_pop r u =
     (case map_of (ro_store r) u of
        None \<Rightarrow> None
      | Some st \<Rightarrow>
          (case map_of (ro_next r) u of
             None \<Rightarrow> None
           | Some n \<Rightarrow>
               if \<not> ro_strict r \<and> length st \<ge> ro_limit r then
                 (case bt_pop_first st of
                    Some ((k, chunk), st') \<Rightarrow>
                      Some (set_stream r u (k + 1) st', Some chunk)
                  | None \<Rightarrow> Some (r, None))
               else
                 (case map_of st n of
                    Some chunk \<Rightarrow>
                      Some (set_stream r u (n + 1) (bt_remove n st), Some chunk)
                  | None \<Rightarrow> Some (r, None))))"

text \<open>\<open>Iterator::next\<close>, and the \<open>for\<close> loop that runs it to exhaustion.\<close>

definition reorder_iter_next ::
  "DownReorderer \<Rightarrow> DownReordererIter \<Rightarrow> (DownReorderer \<times> DownReordererIter \<times> DownstreamChunk option) option" where
  "reorder_iter_next r it =
     (case it of
        NotReordered chunk \<Rightarrow> Some (r, NotReordered None, chunk)
      | Reordered u \<Rightarrow> map_option (\<lambda>(r', c). (r', Reordered u, c)) (reorder_pop r u))"

definition stored_len :: "DownReorderer \<Rightarrow> Uuid \<Rightarrow> nat" where
  "stored_len r u = (case map_of (ro_store r) u of None \<Rightarrow> 0 | Some st \<Rightarrow> length st)"

fun iter_measure :: "DownReorderer \<times> DownReordererIter \<Rightarrow> nat" where
  "iter_measure (r, NotReordered None) = 0"
| "iter_measure (r, NotReordered (Some _)) = 1"
| "iter_measure (r, Reordered u) = stored_len r u"

lemma bt_remove_length: "map_of m k = Some v \<Longrightarrow> length (bt_remove k m) < length m"
  by (induction k m rule: bt_remove.induct) (auto split: if_splits)

lemma reorder_pop_less:
  "reorder_pop r u = Some (r', Some c) \<Longrightarrow> stored_len r' u < stored_len r u"
  by (auto simp: reorder_pop_def set_stream_def stored_len_def bt_remove_length elim!: bt_pop_first.elims
      split: option.splits if_splits prod.splits)

function reorder_drain ::
  "DownReorderer \<Rightarrow> DownReordererIter \<Rightarrow> (DownReorderer \<times> DownstreamChunk list) option" where
  "reorder_drain r it =
     (case reorder_iter_next r it of
        None \<Rightarrow> None
      | Some (r', it', None) \<Rightarrow> Some (r', [])
      | Some (r', it', Some c) \<Rightarrow> map_option (\<lambda>(r'', cs). (r'', c # cs)) (reorder_drain r' it'))"
  by pat_completeness auto
termination
proof (relation "measure iter_measure")
  fix r it a r' p it' oc c
  assume "reorder_iter_next r it = Some a" "(r', p) = a" "(it', oc) = p" "oc = Some c"
  then show "((r', it'), (r, it)) \<in> measure iter_measure"
    by (cases it) (auto simp: reorder_iter_next_def reorder_pop_less)
qed simp

declare reorder_drain.simps [simp del]

text \<open>What the downstream loop does with one received chunk, and with a run of them.\<close>

definition deliver ::
  "DownReorderer \<Rightarrow> DownstreamChunk \<Rightarrow> (DownReorderer \<times> DownstreamChunk list res) option" where
  "deliver r chunk =
     (case reorder_iter r chunk of
        None \<Rightarrow> None
      | Some (r', Inl e) \<Rightarrow> Some (r', Inl e)
      | Some (r', Inr it) \<Rightarrow> map_option (\<lambda>(r'', cs). (r'', Inr cs)) (reorder_drain r' it))"

fun deliver_all ::
  "DownReorderer \<Rightarrow> DownstreamChunk list \<Rightarrow> (DownReorderer \<times> DownstreamChunk list \<times> Error option) option" where
  "deliver_all r [] = Some (r, [], None)"
| "deliver_all r (c # cs) =
     (case deliver r c of
        None \<Rightarrow> None
      | Some (r', Inl e) \<Rightarrow> Some (r', [], Some e)
      | Some (r', Inr out) \<Rightarrow>
          map_option (\<lambda>(r'', out', e). (r'', out @ out', e)) (deliver_all r' cs))"

section \<open>The invariant\<close>

definition entries_ok :: "Uuid \<Rightarrow> (u32, DownstreamChunk) btree_map \<Rightarrow> bool" where
  "entries_ok u st \<longleftrightarrow> bt_inv st \<and>
     (\<forall>(k, c) \<in> set st. dc_sequence_number c = k \<and> chunk_stream c = u)"

definition reorderer_inv :: "DownReorderer \<Rightarrow> bool" where
  "reorderer_inv r \<longleftrightarrow> hm_inv (ro_next r) \<and> hm_inv (ro_store r) \<and>
     (\<forall>u. map_of (ro_next r) u = None \<longleftrightarrow> map_of (ro_store r) u = None) \<and>
     (\<forall>u st. map_of (ro_store r) u = Some st \<longrightarrow> entries_ok u st)"

definition stream_at :: "DownReorderer \<Rightarrow> Uuid \<Rightarrow> u32 \<Rightarrow> (u32, DownstreamChunk) btree_map \<Rightarrow> bool" where
  "stream_at r u n st \<longleftrightarrow> reorderer_inv r \<and>
     map_of (ro_next r) u = Some n \<and> map_of (ro_store r) u = Some st"

definition same_but :: "Uuid \<Rightarrow> DownReorderer \<Rightarrow> DownReorderer \<Rightarrow> bool" where
  "same_but u r r' \<longleftrightarrow> ro_enabled r' = ro_enabled r \<and> ro_strict r' = ro_strict r \<and>
     ro_limit r' = ro_limit r \<and>
     (\<forall>v. v \<noteq> u \<longrightarrow> map_of (ro_next r') v = map_of (ro_next r) v \<and>
        map_of (ro_store r') v = map_of (ro_store r) v)"

lemma same_but_refl [simp]: "same_but u r r"
  by (simp add: same_but_def)

lemma same_but_trans: "same_but u r r' \<Longrightarrow> same_but u r' r'' \<Longrightarrow> same_but u r r''"
  by (simp add: same_but_def)

lemma reorderer_new_inv: "reorderer_inv (reorderer_new config)"
  by (simp add: reorderer_new_def reorderer_inv_def)

lemma entries_ok_Nil [simp]: "entries_ok u []"
  by (simp add: entries_ok_def)

lemma entries_ok_insert:
  "entries_ok u st \<Longrightarrow> chunk_stream c = u \<Longrightarrow> entries_ok u (bt_insert (dc_sequence_number c) c st)"
  using set_bt_insert_subset [of "dc_sequence_number c" c st] by (auto simp: entries_ok_def)

lemma entries_ok_remove: "entries_ok u st \<Longrightarrow> entries_ok u (bt_remove k st)"
proof -
  have "set (bt_remove k st) \<subseteq> set st"
    by (induction k st rule: bt_remove.induct) auto
  then show "entries_ok u st \<Longrightarrow> entries_ok u (bt_remove k st)" by (auto simp: entries_ok_def)
qed

lemma entries_ok_lookup:
  "entries_ok u st \<Longrightarrow> map_of st k = Some c \<Longrightarrow> dc_sequence_number c = k \<and> chunk_stream c = u"
  by (auto simp: entries_ok_def dest: map_of_SomeD)

lemma set_stream_at:
  assumes "reorderer_inv r" and "entries_ok u st"
  shows "stream_at (set_stream r u n st) u n st" and "same_but u r (set_stream r u n st)"
  using assms by (auto simp: stream_at_def set_stream_def reorderer_inv_def same_but_def)

section \<open>Draining one stream\<close>

lemma drain_stop:
  "reorder_pop r u = Some (r', None) \<Longrightarrow> reorder_drain r (Reordered u) = Some (r', [])"
  by (simp add: reorder_drain.simps [of r] reorder_iter_next_def)

lemma drain_step:
  "reorder_pop r u = Some (r', Some c) \<Longrightarrow> reorder_drain r' (Reordered u) = Some (r'', cs) \<Longrightarrow>
     reorder_drain r (Reordered u) = Some (r'', c # cs)"
  by (simp add: reorder_drain.simps [of r] reorder_iter_next_def)

text \<open>
  What one call of \<open>pop\<close> does: it hands out the least stored chunk when best-effort
  reordering is full, otherwise the chunk with the awaited number if it is there.
\<close>

lemma pop_cases:
  assumes "stream_at r u n st"
  obtains
    (stop) "reorder_pop r u = Some (r, None)" "map_of st n = None \<or> st = []"
      "\<not> ro_strict r \<Longrightarrow> length st < max 1 (ro_limit r)"
  | (found) c where "map_of st n = Some c"
      "reorder_pop r u = Some (set_stream r u (n + 1) (bt_remove n st), Some c)"
  | (least) k c st' where "\<not> ro_strict r" "st = (k, c) # st'"
      "reorder_pop r u = Some (set_stream r u (k + 1) st', Some c)"
proof (cases "\<not> ro_strict r \<and> ro_limit r \<le> length st")
  case True
  with assms that(1,3) show ?thesis
    by (cases st) (auto simp: reorder_pop_def stream_at_def)
next
  case False
  with assms that(1,2) show ?thesis
    by (cases "map_of st n") (auto simp: reorder_pop_def stream_at_def)
qed

text \<open>A whole drain: where it leads, that it loses no chunk, and when it stops.\<close>

definition drains_to ::
  "DownReorderer \<Rightarrow> Uuid \<Rightarrow> u32 \<Rightarrow> (u32, DownstreamChunk) btree_map \<Rightarrow> DownReorderer \<Rightarrow>
     DownstreamChunk list \<Rightarrow> u32 \<Rightarrow> (u32, DownstreamChunk) btree_map \<Rightarrow> bool" where
  "drains_to r u n st r' cs n' st' \<longleftrightarrow>
     reorder_drain r (Reordered u) = Some (r', cs) \<and> stream_at r' u n' st' \<and> same_but u r r' \<and>
     mset (map snd st) = mset cs + mset (map snd st') \<and>
     (ro_strict r \<longrightarrow> map dc_sequence_number cs = consecutive n (length cs) \<and>
        n' = n + of_nat (length cs) \<and> map_of st' n' = None) \<and>
     (\<not> ro_strict r \<longrightarrow> length st' < max 1 (ro_limit r))"

lemma drains_to_step:
  assumes "reorder_pop r u = Some (set_stream r u m st', Some c)"
    and "stream_at r u n st" and "entries_ok u st'"
    and "mset (map snd st) = add_mset c (mset (map snd st'))"
    and "ro_strict r \<Longrightarrow> m = n + 1 \<and> dc_sequence_number c = n"
    and "drains_to (set_stream r u m st') u m st' r'' cs n'' st''"
  shows "drains_to r u n st r'' (c # cs) n'' st''"
proof -
  have "same_but u r (set_stream r u m st')" and "ro_strict (set_stream r u m st') = ro_strict r"
    and "ro_limit (set_stream r u m st') = ro_limit r"
    using set_stream_at(2) [of r u st' m] assms(2,3) by (auto simp: stream_at_def set_stream_def)
  with assms drain_step [OF assms(1)] show ?thesis
    by (auto simp: drains_to_def consecutive_Suc add.assoc intro: same_but_trans)
qed

lemma stream_at_entries: "stream_at r u n st \<Longrightarrow> entries_ok u st"
  by (auto simp: stream_at_def reorderer_inv_def)

lemma drain_exists:
  "stream_at r u n st \<Longrightarrow> \<exists>r' cs n' st'. drains_to r u n st r' cs n' st'"
proof (induction "length st" arbitrary: r n st rule: less_induct)
  case less
  note ok = stream_at_entries [OF less.prems]
  have inv: "reorderer_inv r" using less.prems by (simp add: stream_at_def)
  from less.prems show ?case
  proof (cases rule: pop_cases)
    case stop
    then have "drains_to r u n st r [] n st"
      using less.prems by (auto simp: drains_to_def drain_stop)
    then show ?thesis by blast
  next
    case (found c)
    let ?st = "bt_remove n st"
    have ok': "entries_ok u ?st" by (rule entries_ok_remove [OF ok])
    obtain r' cs n' st' where "drains_to (set_stream r u (n + 1) ?st) u (n + 1) ?st r' cs n' st'"
      using less.hyps [OF bt_remove_length [OF found(1)] set_stream_at(1) [OF inv ok']] by blast
    from drains_to_step [OF found(2) less.prems ok' _ _ this] found(1) ok show ?thesis
      using mset_bt_remove [OF found(1)] entries_ok_lookup [OF ok found(1)] by force
  next
    case (least k c st'')
    have ok': "entries_ok u st''" using ok least(2) by (auto simp: entries_ok_def)
    obtain r' cs n' st' where "drains_to (set_stream r u (k + 1) st'') u (k + 1) st'' r' cs n' st'"
      using less.hyps [OF _ set_stream_at(1) [OF inv ok']] least(2) by fastforce
    from drains_to_step [OF least(3) less.prems ok' _ _ this] least(1,2) show ?thesis by force
  qed
qed

section \<open>One received chunk\<close>

definition store_at :: "DownReorderer \<Rightarrow> Uuid \<Rightarrow> (u32, DownstreamChunk) btree_map" where
  "store_at r u = (case map_of (ro_store r) u of None \<Rightarrow> [] | Some st \<Rightarrow> st)"

definition awaited :: "DownReorderer \<Rightarrow> Uuid \<Rightarrow> u32 \<Rightarrow> u32" where
  "awaited r u sn = (case map_of (ro_next r) u of None \<Rightarrow> sn | Some n \<Rightarrow> n)"

lemma stored_len_store_at: "stored_len r u = length (store_at r u)"
  by (simp add: stored_len_def store_at_def split: option.splits)

lemma stream_at_store: "stream_at r u n st \<Longrightarrow> store_at r u = st"
  and stream_at_awaited: "stream_at r u n st \<Longrightarrow> awaited r u sn = n"
  by (simp_all add: stream_at_def store_at_def awaited_def)

lemma same_but_store: "same_but u r r' \<Longrightarrow> v \<noteq> u \<Longrightarrow> store_at r' v = store_at r v"
  and same_but_awaited: "same_but u r r' \<Longrightarrow> v \<noteq> u \<Longrightarrow> awaited r' v sn = awaited r v sn"
  by (simp_all add: same_but_def store_at_def awaited_def)

lemma store_at_entries: "reorderer_inv r \<Longrightarrow> entries_ok u (store_at r u)"
  by (auto simp: store_at_def reorderer_inv_def split: option.splits)

lemma open_stream_at:
  assumes "reorderer_inv r"
  shows "stream_at (open_stream r u sn) u (awaited r u sn) (store_at r u)"
    and "same_but u r (open_stream r u sn)"
proof -
  have "map_of (ro_next r) u = None \<longleftrightarrow> map_of (ro_store r) u = None"
    using assms by (simp add: reorderer_inv_def)
  then show "stream_at (open_stream r u sn) u (awaited r u sn) (store_at r u)"
    using assms
    by (cases "map_of (ro_next r) u"; cases "map_of (ro_store r) u")
      (simp_all add: open_stream_def stream_at_def awaited_def store_at_def, simp add: reorderer_inv_def)
  show "same_but u r (open_stream r u sn)"
    by (simp add: open_stream_def same_but_def)
qed

lemma stream_at_put:
  assumes "stream_at r u n st" and "entries_ok u st'"
  shows "stream_at (r\<lparr>ro_store := hm_insert u st' (ro_store r)\<rparr>) u n st'"
  using assms by (auto simp: stream_at_def reorderer_inv_def)

lemma deliver_cases:
  assumes "reorderer_inv r" and "ro_enabled r"
  obtains
    (rejected) r' where "ro_strict r" "ro_limit r \<le> length (store_at r (chunk_stream c))"
      "awaited r (chunk_stream c) (dc_sequence_number c) \<noteq> dc_sequence_number c"
      "deliver r c = Some (r', Inl (Reordering (chunk_stream c)))"
      "reorderer_inv r'" "same_but (chunk_stream c) r r'"
      "store_at r' (chunk_stream c) = store_at r (chunk_stream c)"
  | (accepted) r1 r' out n' st' where "deliver r c = Some (r', Inr out)"
      "drains_to r1 (chunk_stream c) (awaited r (chunk_stream c) (dc_sequence_number c))
         (bt_insert (dc_sequence_number c) c (store_at r (chunk_stream c))) r' out n' st'"
      "ro_strict r1 = ro_strict r" "ro_limit r1 = ro_limit r" "same_but (chunk_stream c) r r'"
      "\<not> ro_strict r \<or> length (store_at r (chunk_stream c)) < ro_limit r \<or>
         awaited r (chunk_stream c) (dc_sequence_number c) = dc_sequence_number c"
proof -
  let ?u = "chunk_stream c" and ?sn = "dc_sequence_number c"
  let ?o = "open_stream r ?u ?sn"
  let ?st = "bt_insert ?sn c (store_at r ?u)"
  note o = open_stream_at [OF assms(1), of ?u ?sn]
  have eqs: "map_of (ro_store ?o) ?u = Some (store_at r ?u)"
    "map_of (ro_next ?o) ?u = Some (awaited r ?u ?sn)"
    "ro_strict ?o = ro_strict r" "ro_limit ?o = ro_limit r"
    using o by (auto simp: stream_at_def same_but_def)
  show ?thesis
  proof (cases "ro_strict r \<and> ro_limit r \<le> length (store_at r ?u) \<and> awaited r ?u ?sn \<noteq> ?sn")
    case True
    with eqs assms(2) have "deliver r c = Some (?o, Inl (Reordering ?u))"
      by (simp add: deliver_def reorder_iter_def Let_def)
    with True o show ?thesis
      by (intro rejected [of ?o]) (simp_all add: stream_at_store, simp add: stream_at_def)
  next
    case False
    let ?r = "?o\<lparr>ro_store := hm_insert ?u ?st (ro_store ?o)\<rparr>"
    have "entries_ok ?u ?st"
      using store_at_entries [OF assms(1)] by (simp add: entries_ok_insert)
    from drain_exists [OF stream_at_put [OF o(1) this]] obtain r' out n' st'
      where d: "drains_to ?r ?u (awaited r ?u ?sn) ?st r' out n' st'" by blast
    have "reorder_iter r c = Some (?r, Inr (Reordered ?u))"
      using False eqs assms(2) by (auto simp: reorder_iter_def Let_def)
    with d have "deliver r c = Some (r', Inr out)"
      by (simp add: deliver_def drains_to_def)
    moreover have "same_but ?u r r'"
    proof -
      have "same_but ?u ?o ?r" by (simp add: same_but_def)
      with o(2) d show ?thesis by (auto simp: drains_to_def intro: same_but_trans)
    qed
    ultimately show ?thesis
      using False eqs by (intro accepted [OF _ d]) auto
  qed
qed

text \<open>What an accepted chunk keeps of the store, when it was not stored already.\<close>

lemma accepted_facts:
  assumes "drains_to r1 u n (bt_insert (dc_sequence_number c) c st) r' out n' st'"
    and "entries_ok u st" and "chunk_stream c = u"
  shows "reorderer_inv r'" and "stream_at r' u n' st'"
    and "\<forall>d \<in> set out. chunk_stream d = u"
    and "dc_sequence_number c \<notin> fst ` set st \<Longrightarrow>
      mset (map snd st) + {#c#} = mset out + mset (map snd st')"
proof -
  show "reorderer_inv r'" and "stream_at r' u n' st'"
    using assms(1) by (auto simp: drains_to_def stream_at_def)
  have m: "mset (map snd (bt_insert (dc_sequence_number c) c st)) = mset out + mset (map snd st')"
    using assms(1) by (simp add: drains_to_def)
  then have "set out \<subseteq> snd ` set (bt_insert (dc_sequence_number c) c st)"
    by (metis mset_subset_eq_add_left set_mset_mset set_mset_mono set_map)
  then show "\<forall>d \<in> set out. chunk_stream d = u"
    using entries_ok_insert [OF assms(2,3)] by (fastforce simp: entries_ok_def)
  assume "dc_sequence_number c \<notin> fst ` set st"
  then have "map_of st (dc_sequence_number c) = None" by (simp add: map_of_eq_None_iff)
  with m show "mset (map snd st) + {#c#} = mset out + mset (map snd st')"
    by (simp add: mset_bt_insert_fresh)
qed

section \<open>A run of received chunks\<close>

text \<open>The chunks of one upstream, and the sequence number its delivery starts with.\<close>

abbreviation of_stream :: "Uuid \<Rightarrow> DownstreamChunk list \<Rightarrow> DownstreamChunk list" where
  "of_stream u cs \<equiv> filter (\<lambda>c. chunk_stream c = u) cs"

fun first_number :: "DownstreamChunk list \<Rightarrow> u32" where
  "first_number [] = 0"
| "first_number (c # _) = dc_sequence_number c"

definition store_bounded :: "DownReorderer \<Rightarrow> Uuid \<Rightarrow> bool" where
  "store_bounded r u \<longleftrightarrow>
     (if ro_strict r then length (store_at r u) \<le> ro_limit r else length (store_at r u) < max 1 (ro_limit r))"

lemma store_bounded_cong:
  "same_but v r r' \<Longrightarrow> store_at r' u = store_at r u \<Longrightarrow> store_bounded r' u = store_bounded r u"
  by (simp add: store_bounded_def same_but_def)

lemma map_snd_length: "mset (map snd a) = mset b + mset (map snd c) \<Longrightarrow> length a = length b + length c"
  by (metis length_map size_mset size_union)

lemma map_snd_set: "mset (map snd a) = mset b + mset (map snd c) \<Longrightarrow> snd ` set a = set b \<union> snd ` set c"
  by (metis set_map set_mset_mset set_mset_union)

lemma stored_mem: "c \<in> snd ` set (bt_insert sn c st)"
  by (induction sn c st rule: bt_insert.induct) auto

lemma awaited_shrinks:
  assumes "drains_to r1 u n (bt_insert n c st) r' out n' st'" and "ro_strict r1" and "bt_inv st"
    and "dc_sequence_number c = n"
  shows "length st' \<le> length st"
proof -
  have m: "mset (map snd (bt_insert n c st)) = mset out + mset (map snd st')"
    using assms(1) by (simp add: drains_to_def)
  have "out \<noteq> []"
  proof
    assume "out = []"
    with m map_snd_set [OF m] have "c \<in> snd ` set st'" using stored_mem [of c n st] by simp
    moreover have "map_of st' n = None" and "stream_at r' u n' st'"
      using assms(1,2) \<open>out = []\<close> by (auto simp: drains_to_def)
    ultimately obtain k where "(k, c) \<in> set st'" "entries_ok u st'" "n \<notin> fst ` set st'"
      using stream_at_entries by (auto simp: map_of_eq_None_iff)
    with assms(4) show False by (force simp: entries_ok_def)
  qed
  with map_snd_length [OF m] have "length st' < length (bt_insert n c st)" by (cases out) auto
  with bt.len_ins_le [OF assms(3), of n c] show ?thesis by simp
qed

lemma accepted_bounded:
  assumes "drains_to r1 u n (bt_insert sn c st) r' out n' st'" and "bt_inv st"
    and "\<not> ro_strict r1 \<or> length st < ro_limit r1 \<or> n = sn" and "store_bounded r u"
    and "store_at r u = st" and "ro_strict r1 = ro_strict r" and "ro_limit r1 = ro_limit r"
    and "dc_sequence_number c = sn"
  shows "store_bounded r' u"
proof -
  have st': "store_at r' u = st'" and same: "ro_strict r' = ro_strict r" "ro_limit r' = ro_limit r"
    using assms(1,6,7) by (auto simp: drains_to_def stream_at_store same_but_def)
  have len: "length (bt_insert sn c st) = length out + length st'"
    using assms(1) by (auto simp: drains_to_def intro: map_snd_length)
  show ?thesis
  proof (cases "ro_strict r")
    case False
    with assms(1,6,7) st' same show ?thesis by (simp add: drains_to_def store_bounded_def)
  next
    case True
    have "length st' \<le> ro_limit r"
    proof (cases "n = sn")
      case True
      with assms \<open>ro_strict r\<close> awaited_shrinks [of r1 u n c st r' out n' st'] show ?thesis
        by (simp add: store_bounded_def)
    next
      case False
      with assms bt.len_ins_le [of st sn c] len \<open>ro_strict r\<close> show ?thesis by simp
    qed
    with True st' same show ?thesis by (simp add: store_bounded_def)
  qed
qed

lemma deliver_all_total:
  assumes "reorderer_inv r" and "ro_enabled r"
  shows "\<exists>r' out e. deliver_all r cs = Some (r', out, e) \<and> reorderer_inv r' \<and>
    ro_strict r' = ro_strict r \<and> ro_limit r' = ro_limit r \<and>
    (\<forall>u. (\<forall>v. store_bounded r v) \<longrightarrow> store_bounded r' u)"
  using assms
proof (induction cs arbitrary: r)
  case (Cons c cs)
  let ?u = "chunk_stream c"
  from Cons.prems show ?case
  proof (cases rule: deliver_cases [where c = c])
    case (rejected r')
    have "store_bounded r' v" if "store_bounded r v" for v
      using that rejected(7) same_but_store [OF rejected(6)] store_bounded_cong [OF rejected(6)]
      by (cases "v = ?u") simp_all
    with rejected(4,5,6) show ?thesis by (auto simp: same_but_def)
  next
    case (accepted r1 r' out n' st')
    note ok = store_at_entries [OF Cons.prems(1), of ?u]
    have inv: "reorderer_inv r'" "ro_enabled r'"
      using accepted_facts(1) [OF accepted(2) ok refl] accepted(5) Cons.prems(2)
      by (auto simp: same_but_def)
    have "store_bounded r' v" if "\<forall>w. store_bounded r w" for v
    proof (cases "v = ?u")
      case True
      with accepted ok that show ?thesis
        using accepted_bounded [OF accepted(2), of r] by (auto simp: entries_ok_def)
    next
      case False
      with that same_but_store [OF accepted(5)] store_bounded_cong [OF accepted(5)] show ?thesis
        by simp
    qed
    moreover have "ro_strict r' = ro_strict r" "ro_limit r' = ro_limit r"
      using accepted(5) by (simp_all add: same_but_def)
    ultimately show ?thesis using Cons.IH [OF inv] accepted(1) by fastforce
  qed
qed auto

text \<open>In strict mode the chunks of a stream come out with consecutive numbers.\<close>

definition start_of :: "DownReorderer \<Rightarrow> Uuid \<Rightarrow> DownstreamChunk list \<Rightarrow> u32" where
  "start_of r u cs = awaited r u (first_number (of_stream u cs))"

lemma deliver_all_strict:
  assumes "reorderer_inv r" and "ro_enabled r" and "ro_strict r"
    and "deliver_all r cs = Some (r', out, e)"
  shows "map dc_sequence_number (of_stream u out) =
    consecutive (start_of r u cs) (length (of_stream u out))"
  using assms
proof (induction cs arbitrary: r out)
  case (Cons c cs)
  let ?u = "chunk_stream c"
  from Cons.prems(1,2) show ?case
  proof (cases rule: deliver_cases [where c = c])
    case (rejected r'')
    with Cons.prems(4) show ?thesis by simp
  next
    case (accepted r1 r'' out1 n' st')
    note ok = store_at_entries [OF Cons.prems(1), of ?u]
    note facts = accepted_facts [OF accepted(2) ok refl]
    obtain out2 where rest: "deliver_all r'' cs = Some (r', out2, e)" and out: "out = out1 @ out2"
      using Cons.prems(4) accepted(1) by auto
    have "ro_enabled r''" "ro_strict r''"
      using accepted(5) Cons.prems by (simp_all add: same_but_def)
    note IH = Cons.IH [OF facts(1) this rest]
    show ?thesis
    proof (cases "u = ?u")
      case True
      have "of_stream u out1 = out1" using True facts(3) by simp
      moreover have "start_of r u (c # cs) = awaited r ?u (dc_sequence_number c)"
        using True by (simp add: start_of_def)
      moreover have "start_of r'' u cs = n'"
        using True facts(2) by (simp add: start_of_def stream_at_awaited)
      ultimately show ?thesis
        using IH accepted(2,3) Cons.prems(3) by (simp add: out drains_to_def consecutive_append)
    next
      case False
      have "of_stream u out1 = []" using False facts(3) by (auto simp: filter_empty_conv)
      moreover have "start_of r'' u cs = start_of r u (c # cs)"
        using False same_but_awaited [OF accepted(5) False] by (simp add: start_of_def)
      ultimately show ?thesis using IH by (simp add: out)
    qed
  qed
qed (simp add: start_of_def)

text \<open>No chunk is lost or made up: what came in is what went out and what is still stored.\<close>

definition fresh_run :: "DownReorderer \<Rightarrow> Uuid \<Rightarrow> DownstreamChunk list \<Rightarrow> bool" where
  "fresh_run r u cs \<longleftrightarrow>
     distinct (map dc_sequence_number (map snd (store_at r u) @ of_stream u cs))"

lemma fresh_run_mset:
  "mset (map snd (store_at r u)) + {#c#} = mset out + mset (map snd (store_at r' u)) \<Longrightarrow>
     chunk_stream c = u \<Longrightarrow> fresh_run r u (c # cs) \<Longrightarrow> fresh_run r' u cs"
proof -
  assume m: "mset (map snd (store_at r u)) + {#c#} = mset out + mset (map snd (store_at r' u))"
    and u: "chunk_stream c = u" and f: "fresh_run r u (c # cs)"
  have "mset (map snd (store_at r u) @ of_stream u (c # cs)) =
      mset (out @ map snd (store_at r' u) @ of_stream u cs)"
    using m u by (simp add: add.assoc [symmetric])
  then have "mset (map dc_sequence_number (map snd (store_at r u) @ of_stream u (c # cs))) =
      mset (map dc_sequence_number (out @ map snd (store_at r' u) @ of_stream u cs))"
    by (simp only: mset_map)
  with f have "distinct (map dc_sequence_number (out @ map snd (store_at r' u) @ of_stream u cs))"
    unfolding fresh_run_def by (metis mset_eq_imp_distinct_iff)
  then show ?thesis by (simp add: fresh_run_def)
qed

lemma mset_chain:
  fixes a b c d e :: "'a multiset"
  assumes "a + {#x#} = b + c" and "c + d = e + f"
  shows "a + add_mset x d = b + e + f"
proof -
  have "a + add_mset x d = (a + {#x#}) + d" by simp
  also have "\<dots> = b + (c + d)" by (simp only: assms(1) add.assoc)
  finally show ?thesis by (simp only: assms(2) add.assoc)
qed

lemma deliver_all_conserves:
  assumes "reorderer_inv r" and "ro_enabled r" and "deliver_all r cs = Some (r', out, None)"
    and "fresh_run r u cs"
  shows "mset (map snd (store_at r u)) + mset (of_stream u cs) =
    mset (of_stream u out) + mset (map snd (store_at r' u))"
  using assms
proof (induction cs arbitrary: r out)
  case (Cons c cs)
  let ?u = "chunk_stream c"
  from Cons.prems(1,2) show ?case
  proof (cases rule: deliver_cases [where c = c])
    case (rejected r'')
    with Cons.prems(3) show ?thesis by simp
  next
    case (accepted r1 r'' out1 n' st')
    note ok = store_at_entries [OF Cons.prems(1), of ?u]
    note facts = accepted_facts [OF accepted(2) ok refl]
    obtain out2 where rest: "deliver_all r'' cs = Some (r', out2, None)" and out: "out = out1 @ out2"
      using Cons.prems(3) accepted(1) by auto
    have "ro_enabled r''" using accepted(5) Cons.prems(2) by (simp add: same_but_def)
    note IH = Cons.IH [OF facts(1) this rest]
    show ?thesis
    proof (cases "u = ?u")
      case True
      have "of_stream u out1 = out1" using True facts(3) by simp
      have "dc_sequence_number c \<notin> fst ` set (store_at r ?u)"
        using Cons.prems(4) True ok by (force simp: fresh_run_def entries_ok_def)
      then have m: "mset (map snd (store_at r u)) + {#c#} = mset out1 + mset (map snd (store_at r'' u))"
        using facts(2,4) True by (simp add: stream_at_store)
      have "fresh_run r'' u cs"
        by (rule fresh_run_mset [OF m _ Cons.prems(4)]) (simp add: True)
      from IH [OF this] have "mset (map snd (store_at r'' u)) + mset (of_stream u cs) =
          mset (of_stream u out2) + mset (map snd (store_at r' u))" .
      from mset_chain [OF m this] show ?thesis
        using True \<open>of_stream u out1 = out1\<close> by (simp add: out)
    next
      case False
      have "of_stream u out1 = []" using False facts(3) by (auto simp: filter_empty_conv)
      moreover have "store_at r'' u = store_at r u" using same_but_store [OF accepted(5) False] .
      ultimately show ?thesis using IH Cons.prems(4) False by (simp add: out fresh_run_def)
    qed
  qed
qed simp

text \<open>In strict mode the awaited chunk of a stream is never among the stored ones.\<close>

definition gapped :: "DownReorderer \<Rightarrow> Uuid \<Rightarrow> bool" where
  "gapped r u \<longleftrightarrow> (\<forall>m. map_of (ro_next r) u = Some m \<longrightarrow> map_of (store_at r u) m = None)"

lemma deliver_all_next:
  assumes "reorderer_inv r" and "ro_enabled r" and "ro_strict r" and "gapped r u"
    and "deliver_all r cs = Some (r', out, None)"
  shows "gapped r' u \<and> reorderer_inv r' \<and>
    (\<forall>m. map_of (ro_next r') u = Some m \<longrightarrow>
       m = start_of r u cs + of_nat (length (of_stream u out)))"
  using assms
proof (induction cs arbitrary: r out)
  case (Cons c cs)
  let ?u = "chunk_stream c"
  from Cons.prems(1,2) show ?case
  proof (cases rule: deliver_cases [where c = c])
    case (rejected r'')
    with Cons.prems(5) show ?thesis by simp
  next
    case (accepted r1 r'' out1 n' st')
    note ok = store_at_entries [OF Cons.prems(1), of ?u]
    note facts = accepted_facts [OF accepted(2) ok refl]
    obtain out2 where rest: "deliver_all r'' cs = Some (r', out2, None)" and out: "out = out1 @ out2"
      using Cons.prems(5) accepted(1) by auto
    have on: "ro_enabled r''" "ro_strict r''"
      using accepted(5) Cons.prems by (simp_all add: same_but_def)
    show ?thesis
    proof (cases "u = ?u")
      case True
      have next_u: "map_of (ro_next r'') u = Some n'" "store_at r'' u = st'"
        using facts(2) True by (simp_all add: stream_at_store) (simp add: stream_at_def)
      then have "gapped r'' u"
        using accepted(2,3) Cons.prems(3) by (auto simp: gapped_def drains_to_def)
      from Cons.IH [OF facts(1) on this rest]
      have IH: "gapped r' u \<and> reorderer_inv r' \<and> (\<forall>m. map_of (ro_next r') u = Some m \<longrightarrow>
          m = start_of r'' u cs + of_nat (length (of_stream u out2)))" .
      have "start_of r'' u cs = n'" using next_u by (simp add: start_of_def awaited_def)
      moreover have "start_of r u (c # cs) = awaited r ?u (dc_sequence_number c)"
        using True by (simp add: start_of_def)
      moreover have "of_stream u out1 = out1" using True facts(3) by simp
      ultimately show ?thesis
        using IH accepted(2,3) Cons.prems(3) by (simp add: out drains_to_def add.assoc)
    next
      case False
      have "gapped r'' u" "start_of r'' u cs = start_of r u (c # cs)"
        using False same_but_awaited [OF accepted(5) False] same_but_store [OF accepted(5) False]
          accepted(5) Cons.prems(4)
        by (simp_all add: gapped_def same_but_def start_of_def)
      moreover have "of_stream u out1 = []" using False facts(3) by (auto simp: filter_empty_conv)
      ultimately show ?thesis using Cons.IH [OF facts(1) on _ rest] by (simp add: out)
    qed
  qed
qed (simp add: start_of_def awaited_def)

text \<open>A window that fits the store raises no reordering error.\<close>

lemma deliver_all_no_error:
  assumes "reorderer_inv r" and "ro_enabled r" and "ro_strict r"
    and "\<forall>c \<in> set cs. chunk_stream c = u" and "length (store_at r u) + length cs \<le> ro_limit r"
    and "deliver_all r cs = Some (r', out, e)"
  shows "e = None"
  using assms
proof (induction cs arbitrary: r out)
  case (Cons c cs)
  have u: "chunk_stream c = u" using Cons.prems(4) by simp
  from Cons.prems(1,2) show ?case
  proof (cases rule: deliver_cases [where c = c])
    case (rejected r'')
    with Cons.prems(5) u show ?thesis by simp
  next
    case (accepted r1 r'' out1 n' st')
    note ok = store_at_entries [OF Cons.prems(1), of u]
    note facts = accepted_facts [OF accepted(2) [unfolded u] ok u]
    obtain out2 where rest: "deliver_all r'' cs = Some (r', out2, e)"
      using Cons.prems(6) accepted(1) by auto
    have on: "ro_enabled r''" "ro_strict r''" "ro_limit r'' = ro_limit r"
      using accepted(5) Cons.prems by (simp_all add: same_but_def)
    have "length (bt_insert (dc_sequence_number c) c (store_at r u)) = length out1 + length st'"
      using accepted(2) u by (auto simp: drains_to_def intro: map_snd_length)
    moreover have "bt_inv (store_at r u)" using ok by (simp add: entries_ok_def)
    ultimately have "length (store_at r'' u) + length cs \<le> ro_limit r''"
      using Cons.prems(5) bt.len_ins_le [of "store_at r u" "dc_sequence_number c" c] on(3)
      by (simp add: stream_at_store [OF facts(2)])
    with Cons.IH [OF facts(1) on(1,2) _ _ rest] Cons.prems(4) show ?thesis by simp
  qed
qed simp

lemma deliver_all_new_no_error:
  assumes "ro_enabled r" and "ro_strict r" and "ro_next r = []" and "ro_store r = []"
    and "\<forall>c \<in> set cs. chunk_stream c = u" and "length cs \<le> Suc (ro_limit r)"
    and "deliver_all r cs = Some (r', out, e)"
  shows "e = None"
proof (cases cs)
  case (Cons c cs')
  have inv: "reorderer_inv r" using assms(3,4) by (simp add: reorderer_inv_def)
  have new: "store_at r v = []" "awaited r v sn = sn" for v sn
    using assms(3,4) by (simp_all add: store_at_def awaited_def)
  from inv assms(1) show ?thesis
  proof (cases rule: deliver_cases [where c = c])
    case (rejected r'')
    then show ?thesis by (simp add: new)
  next
    case (accepted r1 r'' out1 n' st')
    have u: "chunk_stream c = u" using assms(5) Cons by simp
    note facts = accepted_facts [OF accepted(2) [unfolded new] entries_ok_Nil refl]
    have "length st' \<le> length ([] :: (u32 \<times> DownstreamChunk) list)"
      by (rule awaited_shrinks [OF accepted(2) [unfolded new]]) (use accepted(3) assms(2) in simp_all)
    then have "store_at r'' u = []"
      using facts(2) u by (simp add: stream_at_store)
    moreover obtain out2 where "deliver_all r'' cs' = Some (r', out2, e)"
      using assms(7) accepted(1) Cons by auto
    moreover have "ro_enabled r''" "ro_strict r''" "ro_limit r'' = ro_limit r"
      using accepted(5) assms(1,2) by (simp_all add: same_but_def)
    ultimately show ?thesis
      using deliver_all_no_error [OF facts(1), of cs' u r' out2 e] assms(5,6) Cons by simp
  qed
qed (use assms(7) in simp)

lemma window_full:
  assumes "mset cs = mset out + mset (map snd (store_at r u))"
    and "map dc_sequence_number out = consecutive n (length out)"
    and "gapped r u" and "reorderer_inv r"
    and "\<forall>m. map_of (ro_next r) u = Some m \<longrightarrow> m = n + of_nat (length out)"
    and "mset (map dc_sequence_number cs) = mset (consecutive n k)" and "k \<le> 2 ^ 32"
  shows "length out = k"
proof (rule ccontr)
  let ?m = "n + of_nat (length out)"
  assume "length out \<noteq> k"
  moreover have "length out \<le> k"
    using assms(1,6) by (metis length_consecutive length_map size_mset size_union le_add1)
  ultimately have "length out < k" by simp
  then have "?m \<in> dc_sequence_number ` set cs"
    using consecutive_mem [of "length out" k n] assms(6) by (metis set_map set_mset_mset)
  moreover have "?m \<notin> dc_sequence_number ` set out"
    using consecutive_not_mem [of "length out" n] assms(2,7) \<open>length out < k\<close>
    by (metis less_le_trans set_map)
  moreover have "set cs = set out \<union> snd ` set (store_at r u)"
    using assms(1) by (metis set_map set_mset_mset set_mset_union)
  ultimately obtain key d where d: "(key, d) \<in> set (store_at r u)" "dc_sequence_number d = ?m"
    by auto
  then have "?m \<in> fst ` set (store_at r u)"
    using store_at_entries [OF assms(4), of u] by (force simp: entries_ok_def)
  moreover have "map_of (ro_next r) u = Some ?m"
  proof -
    have "map_of (ro_store r) u \<noteq> None" using d(1) by (cases "map_of (ro_store r) u") (simp_all add: store_at_def)
    then have "map_of (ro_next r) u \<noteq> None" using assms(4) by (simp add: reorderer_inv_def)
    with assms(5) show ?thesis by auto
  qed
  ultimately show False using assms(3) by (simp add: gapped_def map_of_eq_None_iff)
qed

lemma reorderer_new_sel [simp]:
  "ro_next (reorderer_new config) = []" "ro_store (reorderer_new config) = []"
  "ro_limit (reorderer_new config) = dcfg_reordering_chunks config"
  "ro_enabled (reorderer_new config) \<longleftrightarrow> dcfg_qos config = Reliable \<and> dcfg_reordering config \<noteq> ReorderNone"
  "ro_strict (reorderer_new config) \<longleftrightarrow> dcfg_reordering config = Strict"
  by (simp_all add: reorderer_new_def)

lemma reorderer_new_at [simp]:
  "store_at (reorderer_new config) u = []" "awaited (reorderer_new config) u sn = sn"
  "gapped (reorderer_new config) u" "store_bounded (reorderer_new config) u"
  by (auto simp: store_at_def awaited_def gapped_def store_bounded_def less_max_iff_disj)

section \<open>A concrete stream\<close>

definition a_config :: "DownstreamReordering \<Rightarrow> DownstreamConfig" where
  "a_config o' = downstream_config_default
     \<lparr>dcfg_qos := Reliable, dcfg_reordering := o', dcfg_reordering_chunks := 2\<rparr>"

definition a_chunk :: "u32 \<Rightarrow> DownstreamChunk" where
  "a_chunk n = \<lparr>dc_sequence_number = n, dc_data_point_groups = [],
     dc_upstream = \<lparr>ui_session_id = ''s'', ui_stream_id = Uuid [], ui_source_node_id = ''n''\<rparr>\<rparr>"

definition a_stored :: DownReorderer where
  "a_stored = (reorderer_new (a_config Strict))
     \<lparr>ro_next := [(Uuid [], 6)], ro_store := [(Uuid [], [(7, a_chunk 7)])]\<rparr>"

lemma a_config_sel [simp]:
  "dcfg_qos (a_config o') = Reliable" "dcfg_reordering (a_config o') = o'"
  "dcfg_reordering_chunks (a_config o') = 2"
  by (simp_all add: a_config_def)

lemma a_chunk_sel [simp]: "dc_sequence_number (a_chunk n) = n" "chunk_stream (a_chunk n) = Uuid []"
  by (simp_all add: a_chunk_def chunk_stream_def)

lemma deliver_a_chunks:
  "deliver (reorderer_new (a_config Strict)) (a_chunk 5) =
     Some (a_stored\<lparr>ro_store := [(Uuid [], [])]\<rparr>, Inr [a_chunk 5])"
  "deliver (a_stored\<lparr>ro_store := [(Uuid [], [])]\<rparr>) (a_chunk 7) = Some (a_stored, Inr [])"
   apply (simp add: deliver_def reorder_iter_def open_stream_def Let_def reorderer_new_def a_stored_def)
   apply (subst reorder_drain.simps, simp add: reorder_iter_next_def reorder_pop_def set_stream_def)
   apply (subst reorder_drain.simps, simp add: reorder_iter_next_def reorder_pop_def set_stream_def)
  apply (simp add: deliver_def reorder_iter_def open_stream_def Let_def reorderer_new_def a_stored_def)
  apply (subst reorder_drain.simps, simp add: reorder_iter_next_def reorder_pop_def set_stream_def)
  done

section \<open>Properties\<close>

text \<open>
  C6: with reliable QoS and strict reordering, whatever chunks arrive in whatever order, the
  chunks handed to the client carry, for every upstream, consecutive sequence numbers (modulo
  wrap-around) from the first received number of that upstream on; nothing panics.
\<close>

theorem strict_in_order:
  assumes "dcfg_qos config = Reliable" and "dcfg_reordering config = Strict"
  shows "\<exists>r out e. deliver_all (reorderer_new config) cs = Some (r, out, e) \<and>
    (\<forall>u. map dc_sequence_number (of_stream u out) =
      consecutive (first_number (of_stream u cs)) (length (of_stream u out)))"
  using deliver_all_total [OF reorderer_new_inv, of config cs]
    deliver_all_strict [OF reorderer_new_inv, of config cs] assms
  by (fastforce simp: start_of_def)

theorem strict_in_order_witness:
  "\<exists>r out e. deliver_all (reorderer_new (a_config Strict)) [a_chunk 5, a_chunk 7, a_chunk 6] = Some (r, out, e) \<and>
    (\<forall>u. map dc_sequence_number (of_stream u out) =
      consecutive (first_number (of_stream u [a_chunk 5, a_chunk 7, a_chunk 6])) (length (of_stream u out)))"
  by (rule strict_in_order) simp_all

text \<open>
  C20: strict reordering delivers everything the store can bridge: if the chunks of an upstream
  arrive in any order that begins with the first one, and are at most one more than the
  configured number of chunks, then all of them come out, in order, and no error is raised.
\<close>

theorem strict_window_complete:
  assumes "dcfg_qos config = Reliable" and "dcfg_reordering config = Strict"
    and "\<forall>c \<in> set cs. chunk_stream c = u" and "first_number cs = n"
    and "mset (map dc_sequence_number cs) = mset (consecutive n k)" and "k \<le> 2 ^ 32"
    and "k \<le> Suc (dcfg_reordering_chunks config)"
  shows "\<exists>r out. deliver_all (reorderer_new config) cs = Some (r, out, None) \<and>
    mset out = mset cs \<and> map dc_sequence_number out = consecutive n k"
proof -
  let ?r = "reorderer_new config"
  have on: "ro_enabled ?r" "ro_strict ?r" using assms(1,2) by simp_all
  have all_u: "of_stream u cs = cs" using assms(3) by simp
  have len: "length cs = k" using assms(5) by (metis length_consecutive length_map size_mset)
  obtain r out e where run: "deliver_all ?r cs = Some (r, out, e)"
    using deliver_all_total [OF reorderer_new_inv on(1), of cs] by auto
  have "e = None"
    by (rule deliver_all_new_no_error [OF on _ _ assms(3) _ run]) (use assms(7) len in simp_all)
  note run = run [unfolded this]
  have dist: "distinct (map dc_sequence_number cs)"
    using assms(5,6) consecutive_distinct [of k n] mset_eq_imp_distinct_iff by blast
  then have "fresh_run ?r u cs" using all_u by (simp add: fresh_run_def)
  from deliver_all_conserves [OF reorderer_new_inv on(1) run this]
  have cons: "mset cs = mset (of_stream u out) + mset (map snd (store_at r u))" using all_u by simp
  let ?out = "of_stream u out"
  have seqs: "map dc_sequence_number ?out = consecutive n (length ?out)"
    using deliver_all_strict [OF reorderer_new_inv on run, of u] all_u assms(4)
    by (simp add: start_of_def)
  have nxt: "gapped r u" "reorderer_inv r"
    "\<forall>m. map_of (ro_next r) u = Some m \<longrightarrow> m = n + of_nat (length ?out)"
    using deliver_all_next [OF reorderer_new_inv on _ run, of u] all_u assms(4)
    by (simp_all add: start_of_def)
  have "length ?out = k"
    by (rule window_full [OF cons seqs nxt assms(5,6)])
  moreover have "length cs = length ?out + length (store_at r u)"
    using cons by (metis length_map size_mset size_union)
  ultimately have "mset cs = mset ?out" using cons len by simp
  moreover have "?out = out"
  proof -
    have "chunk_stream d = u" if "d \<in> set out" for d
    proof (rule ccontr)
      assume "chunk_stream d \<noteq> u"
      then have none: "of_stream (chunk_stream d) cs = []"
        using assms(3) by (auto simp: filter_empty_conv)
      then have "fresh_run ?r (chunk_stream d) cs" by (simp add: fresh_run_def)
      from deliver_all_conserves [OF reorderer_new_inv on(1) run this] none that show False
        by (simp add: filter_empty_conv) blast
    qed
    then show ?thesis by simp
  qed
  ultimately show ?thesis using run seqs \<open>length ?out = k\<close> by simp
qed

theorem strict_window_complete_witness:
  "\<exists>r out. deliver_all (reorderer_new (a_config Strict)) [a_chunk 5, a_chunk 7, a_chunk 6] = Some (r, out, None) \<and>
    mset out = mset [a_chunk 5, a_chunk 7, a_chunk 6] \<and> map dc_sequence_number out = consecutive 5 3"
  by (rule strict_window_complete [where u = "Uuid []"])
    (simp_all add: consecutive_def numeral_3_eq_3)

text \<open>
  C19: reordering loses and invents nothing: when the received chunks of every upstream carry
  distinct sequence numbers and no error was raised, the chunks received of an upstream are
  those handed out and those still stored for it.
\<close>

theorem reorderer_conserves:
  assumes "dcfg_qos config = Reliable" and "dcfg_reordering config \<noteq> ReorderNone"
    and "distinct (map (\<lambda>c. (chunk_stream c, dc_sequence_number c)) cs)"
    and "deliver_all (reorderer_new config) cs = Some (r, out, None)"
  shows "mset (of_stream u cs) = mset (of_stream u out) + mset (map snd (store_at r u))"
proof -
  have "inj_on (\<lambda>c. (chunk_stream c, dc_sequence_number c)) (set cs)" "distinct cs"
    using assms(3) by (simp_all add: distinct_map)
  then have "fresh_run (reorderer_new config) u cs"
    by (auto simp: fresh_run_def distinct_map intro!: inj_onI dest: inj_onD)
  from deliver_all_conserves [OF reorderer_new_inv _ assms(4) this] assms(1,2) show ?thesis by simp
qed

theorem reorderer_conserves_witness:
  "mset (of_stream (Uuid []) [a_chunk 5, a_chunk 7]) =
    mset (of_stream (Uuid []) [a_chunk 5]) + mset (map snd (store_at a_stored (Uuid [])))"
proof (rule reorderer_conserves [where config = "a_config Strict"])
  show "deliver_all (reorderer_new (a_config Strict)) [a_chunk 5, a_chunk 7] =
      Some (a_stored, [a_chunk 5], None)"
    by (simp add: deliver_a_chunks)
qed simp_all

text \<open>
  The store of early chunks is bounded and nothing panics: after any run, strict reordering
  stores at most the configured number of chunks per upstream, best-effort reordering fewer
  than that (none when the number is 0).
\<close>

theorem reorderer_bounded:
  assumes "dcfg_qos config = Reliable" and "dcfg_reordering config \<noteq> ReorderNone"
  shows "\<exists>r out e. deliver_all (reorderer_new config) cs = Some (r, out, e) \<and>
    (\<forall>u. if dcfg_reordering config = Strict then stored_len r u \<le> dcfg_reordering_chunks config
         else stored_len r u < max 1 (dcfg_reordering_chunks config))"
proof -
  have on: "ro_enabled (reorderer_new config)" using assms by simp
  obtain r out e where run: "deliver_all (reorderer_new config) cs = Some (r, out, e)"
    and b: "\<forall>u. store_bounded r u" "ro_strict r = (dcfg_reordering config = Strict)"
      "ro_limit r = dcfg_reordering_chunks config"
    using deliver_all_total [OF reorderer_new_inv on, of cs] by auto
  with b run show ?thesis by (auto simp: store_bounded_def stored_len_store_at)
qed

theorem reorderer_bounded_witness:
  "\<exists>r out e. deliver_all (reorderer_new (a_config BestEffort)) [a_chunk 5, a_chunk 7, a_chunk 9] = Some (r, out, e) \<and>
    (\<forall>u. if dcfg_reordering (a_config BestEffort) = Strict
         then stored_len r u \<le> dcfg_reordering_chunks (a_config BestEffort)
         else stored_len r u < max 1 (dcfg_reordering_chunks (a_config BestEffort)))"
  by (rule reorderer_bounded) simp_all

end
