(* ===== verification/Storage.thy ===== *)
theory Storage
  imports Types
begin

text \<open>
  The store of sent upstream chunks (\<open>iscp/storage.rs\<close>).  In reliable mode it keeps every
  chunk until it is acknowledged, for resending after a resume.  A callback is present or
  absent; the arguments of each call it gets are part of the operation's result.  The outer
  \<open>option\<close> of \<open>add_chunk\<close> is \<open>None\<close> where the source would panic (\<open>unwrap\<close> of a missing
  \<open>stream_chunk\<close>).
\<close>

record UpstreamStorage =
  us_stream_id :: Uuid
  us_is_reliable :: bool
  us_send_data_points_callback :: bool
  us_receive_ack_callback :: bool
  us_chunks :: "(u32, MsgUpstreamChunk) btree_map"
  us_last_received :: "u32 option"

definition storage_new :: "Uuid \<Rightarrow> QoS \<Rightarrow> bool \<Rightarrow> bool \<Rightarrow> UpstreamStorage" where
  "storage_new stream_id qos send_data_points_callback receive_ack_callback =
     \<lparr>us_stream_id = stream_id, us_is_reliable = (qos = Reliable),
      us_send_data_points_callback = send_data_points_callback,
      us_receive_ack_callback = receive_ack_callback,
      us_chunks = [], us_last_received = None\<rparr>"

definition add_chunk ::
  "UpstreamStorage \<Rightarrow> MsgUpstreamChunk \<Rightarrow> DataPointGroup list \<Rightarrow>
     (UpstreamStorage \<times> (Uuid \<times> UpstreamChunk) list) option" where
  "add_chunk s chunk dpgs =
     (case mup_stream_chunk chunk of
        None \<Rightarrow> None
      | Some sc \<Rightarrow>
          let n = sc_sequence_number sc;
              s' = if us_is_reliable s then s\<lparr>us_chunks := bt_insert n chunk (us_chunks s)\<rparr> else s
          in Some (s', if us_send_data_points_callback s
             then [(us_stream_id s, \<lparr>uc_sequence_number = n, uc_data_point_groups = dpgs\<rparr>)]
             else []))"

definition convert_upstream_chunk_result :: "MsgUpstreamChunkResult \<Rightarrow> UpstreamChunkResult res" where
  "convert_upstream_chunk_result r =
     (case result_code_try_from (mrs_result_code r) of
        None \<Rightarrow> Inl (InvalidValue ''invalid result_code'')
      | Some c \<Rightarrow> Inr \<lparr>ucrs_sequence_number = mrs_sequence_number r, ucrs_result_code = c,
          ucrs_result_string = mrs_result_string r\<rparr>)"

definition process_result ::
  "UpstreamStorage \<Rightarrow> MsgUpstreamChunkResult \<Rightarrow> UpstreamStorage \<times> (Uuid \<times> UpstreamChunkResult) list" where
  "process_result s r =
     (let n = mrs_sequence_number r;
          s = (if us_last_received s = None \<or> the (us_last_received s) < n
               then s\<lparr>us_last_received := Some n\<rparr> else s);
          s = (if us_is_reliable s then s\<lparr>us_chunks := bt_remove n (us_chunks s)\<rparr> else s)
      in (s, if us_receive_ack_callback s
             then (case convert_upstream_chunk_result r of Inr c \<Rightarrow> [(us_stream_id s, c)] | Inl _ \<Rightarrow> [])
             else []))"

fun process_results ::
  "UpstreamStorage \<Rightarrow> MsgUpstreamChunkResult list \<Rightarrow> UpstreamStorage \<times> (Uuid \<times> UpstreamChunkResult) list" where
  "process_results s [] = (s, [])"
| "process_results s (r # rs) =
     (let (s', out) = process_result s r; (s'', outs) = process_results s' rs in (s'', out @ outs))"

definition storage_process_ack ::
  "UpstreamStorage \<Rightarrow> UpstreamChunkAck \<Rightarrow> UpstreamStorage \<times> (Uuid \<times> UpstreamChunkResult) list" where
  "storage_process_ack s ack = process_results s (mua_results ack)"

definition iter_chunks :: "UpstreamStorage \<Rightarrow> MsgUpstreamChunk list" where
  "iter_chunks s = map snd (us_chunks s)"

section \<open>What the operations keep and change\<close>

definition storage_inv :: "UpstreamStorage \<Rightarrow> bool" where
  "storage_inv s \<longleftrightarrow> bt_inv (us_chunks s) \<and> (\<not> us_is_reliable s \<longrightarrow> us_chunks s = [])"

text \<open>The fixed part of a store: who it belongs to and which callbacks it has.\<close>

definition storage_conf :: "UpstreamStorage \<Rightarrow> Uuid \<times> bool \<times> bool \<times> bool" where
  "storage_conf s = (us_stream_id s, us_is_reliable s, us_send_data_points_callback s, us_receive_ack_callback s)"

abbreviation acked_numbers :: "UpstreamChunkAck \<Rightarrow> u32 list" where
  "acked_numbers ack \<equiv> map mrs_sequence_number (mua_results ack)"

lemma storage_new_inv [simp]: "storage_inv (storage_new u q a b)"
  by (simp add: storage_new_def storage_inv_def)

lemma storage_new_sel [simp]:
  "us_chunks (storage_new u q a b) = []" "us_last_received (storage_new u q a b) = None"
  "storage_conf (storage_new u q a b) = (u, q = Reliable, a, b)"
  by (simp_all add: storage_new_def storage_conf_def)

lemma add_chunk_facts:
  assumes "add_chunk s chunk dpgs = Some (s', out)" and "storage_inv s"
  shows "storage_inv s'" and "storage_conf s' = storage_conf s"
    and "us_last_received s' = us_last_received s"
    and "\<exists>sc. mup_stream_chunk chunk = Some sc \<and>
      map_of (us_chunks s') = (if us_is_reliable s
        then (map_of (us_chunks s))(sc_sequence_number sc \<mapsto> chunk) else map_of (us_chunks s))"
  using assms
  by (auto simp: add_chunk_def storage_inv_def storage_conf_def bt_insert_lookup Let_def
      split: option.splits if_splits)

lemma process_result_facts:
  assumes "process_result s r = (s', out)" and "storage_inv s"
  shows "storage_inv s'" and "storage_conf s' = storage_conf s"
    and "us_last_received s' =
      (case us_last_received s of None \<Rightarrow> Some (mrs_sequence_number r)
       | Some m \<Rightarrow> Some (max m (mrs_sequence_number r)))"
    and "map_of (us_chunks s') = (map_of (us_chunks s))(mrs_sequence_number r := None)"
  using assms
  by (auto simp: process_result_def storage_inv_def storage_conf_def Let_def bt_remove_lookup max_def
      fun_eq_iff split: option.splits if_splits)

text \<open>The highest number a list of acknowledged numbers leaves as last received.\<close>

definition max_received :: "u32 option \<Rightarrow> u32 list \<Rightarrow> u32 option" where
  "max_received m ns =
     foldl (\<lambda>m n. case m of None \<Rightarrow> Some n | Some k \<Rightarrow> Some (max k n)) m ns"

lemma max_received_Some: "max_received (Some m) ns = Some (foldl max m ns)"
  by (induction ns arbitrary: m) (simp_all add: max_received_def)

lemma foldl_max_eq: "foldl max (m :: 'a::linorder) ns = Max (set (m # ns))"
  unfolding foldl_conv_fold Max.set_eq_fold by (simp add: max.commute)

lemma max_received_None: "max_received None ns = (if ns = [] then None else Some (Max (set ns)))"
proof (cases ns)
  case (Cons n ns')
  have "max_received None ns = max_received (Some n) ns'" by (simp add: max_received_def Cons)
  then show ?thesis by (simp add: max_received_Some foldl_max_eq Cons)
qed (simp add: max_received_def)

lemma process_results_facts:
  "process_results s rs = (s', out) \<Longrightarrow> storage_inv s \<Longrightarrow>
     storage_inv s' \<and> storage_conf s' = storage_conf s \<and>
     us_last_received s' = max_received (us_last_received s) (map mrs_sequence_number rs) \<and>
     map_of (us_chunks s') = (map_of (us_chunks s)) |` (- set (map mrs_sequence_number rs))"
proof (induction rs arbitrary: s out)
  case (Cons r rs)
  obtain s1 out1 out2 where s: "process_result s r = (s1, out1)" "process_results s1 rs = (s', out2)"
    using Cons.prems(1) by (auto split: prod.splits)
  note facts = process_result_facts [OF s(1) Cons.prems(2)]
  have "map_of (us_chunks s1) |` (- set (map mrs_sequence_number rs)) =
      map_of (us_chunks s) |` (- set (map mrs_sequence_number (r # rs)))"
    by (auto simp: facts(4) restrict_map_def fun_eq_iff)
  with Cons.IH [OF s(2) facts(1)] facts(2,3) show ?case
    by (simp add: max_received_def split: option.splits)
qed (auto simp: max_received_def restrict_map_def fun_eq_iff)

lemma storage_process_ack_facts:
  assumes "storage_inv s"
  shows "storage_inv (fst (storage_process_ack s ack))"
    and "storage_conf (fst (storage_process_ack s ack)) = storage_conf s"
    and "us_last_received (fst (storage_process_ack s ack)) =
      max_received (us_last_received s) (acked_numbers ack)"
    and "map_of (us_chunks (fst (storage_process_ack s ack))) =
      map_of (us_chunks s) |` (- set (acked_numbers ack))"
proof -
  obtain s' out where "process_results s (mua_results ack) = (s', out)"
    by (cases "process_results s (mua_results ack)")
  with process_results_facts [OF this assms]
  show "storage_inv (fst (storage_process_ack s ack))"
    and "storage_conf (fst (storage_process_ack s ack)) = storage_conf s"
    and "us_last_received (fst (storage_process_ack s ack)) =
      max_received (us_last_received s) (acked_numbers ack)"
    and "map_of (us_chunks (fst (storage_process_ack s ack))) =
      map_of (us_chunks s) |` (- set (acked_numbers ack))"
    by (simp_all add: storage_process_ack_def)
qed

end
