(* ===== verification/Upstream_Core.thy ===== *)
theory Upstream_Core
  imports Storage
begin

text \<open>
  The data path of an upstream (\<open>iscp/upstream.rs\<close>): the shared state, \<open>write_data_points\<close>,
  \<open>take_chunk\<close> and \<open>flush\<close>.  Sizes and counters are \<open>u64\<close> and wrap, sequence numbers
  \<open>u32\<close> and wrap (release profile).  The iteration order of the two hash maps \<open>take_chunk\<close>
  builds is a parameter, \<open>MapOrders\<close>: any function that permutes the entries.
\<close>

section \<open>State\<close>

record State =
  st_data_id_aliases :: "(u32, DataId) hash_map"
  st_total_data_points :: u64
  st_last_issued_sequence_number :: u32
  st_data_points_buffer :: "DataPointGroup list"
  st_buffer_payload_size :: u64

definition state_new :: "(u32, DataId) hash_map \<Rightarrow> State" where
  "state_new data_id_aliases =
     \<lparr>st_data_id_aliases = data_id_aliases, st_total_data_points = 0,
      st_last_issued_sequence_number = 0, st_data_points_buffer = [], st_buffer_payload_size = 0\<rparr>"

record UpstreamCloseOptions =
  close_session :: bool

text \<open>
  The shared part of an upstream.  A oneshot sender is the number of its channel; the permit of
  \<open>notify_flush\<close> and the cancellation token are flags.
\<close>

record UpstreamInner =
  in_config :: UpstreamConfig
  in_stream_id :: Uuid
  in_stream_id_alias :: u32
  in_notify_flush :: bool
  in_is_connected :: bool
  in_tx_result :: "nat option"
  in_close_opts :: "UpstreamCloseOptions option"
  in_state :: State
  in_resume_token :: string
  in_cancelled :: bool

record UpstreamFlusher =
  fl_rev_data_id_aliases :: "(DataId, u32) hash_map"
  fl_data_size :: u64
  fl_storage :: UpstreamStorage

definition flusher_new :: "UpstreamInner \<Rightarrow> UpstreamFlusher" where
  "flusher_new inn =
     \<lparr>fl_rev_data_id_aliases =
        hm_from_list (map (\<lambda>(k, v). (v, k)) (st_data_id_aliases (in_state inn))),
      fl_data_size = 0,
      fl_storage = storage_new (in_stream_id inn) (ucfg_qos (in_config inn))
        (ucfg_send_data_points_callback (in_config inn)) (ucfg_receive_ack_callback (in_config inn))\<rparr>"

section \<open>Opening\<close>

definition upstream_open_request :: "UpstreamConfig \<Rightarrow> UpstreamOpenRequest res" where
  "upstream_open_request config =
     (let ack_interval = ucfg_ack_interval config div 1000000;
          expiry_interval = ucfg_expiry_interval config div 1000000000
      in if 2 ^ 32 \<le> ack_interval then Inl (InvalidValue ''ack_interval overflow'')
         else if 2 ^ 32 \<le> expiry_interval then Inl (InvalidValue ''expiry_interval overflow'')
         else Inr \<lparr>uoq_request_id = 0, uoq_session_id = ucfg_session_id config,
           uoq_ack_interval = of_nat ack_interval, uoq_expiry_interval = of_nat expiry_interval,
           uoq_data_ids = ucfg_data_ids config, uoq_qos = qos_i32 (ucfg_qos config),
           uoq_extension_fields = Some \<lparr>uoef_persist = ucfg_persist config\<rparr>\<rparr>)"

text \<open>
  The counter of failed opens that all upstreams share: the new count, and whether the wire
  connection is cancelled.
\<close>

definition count_open_errors :: "u64 \<Rightarrow> bool \<Rightarrow> u64 \<times> bool" where
  "count_open_errors n failed =
     (if failed then (if 4 \<le> n + 1 then (0, True) else (n + 1, False)) else (0, False))"

section \<open>Writing data points\<close>

definition payload_size :: "DataPoint list \<Rightarrow> nat" where
  "payload_size dps = sum_list (map (\<lambda>dp. length (dp_payload dp)) dps)"

definition write_data_points ::
  "UpstreamInner \<Rightarrow> DataId \<Rightarrow> DataPoint list \<Rightarrow> UpstreamInner \<times> unit res" where
  "write_data_points inn data_id dps =
     (let st = in_state inn;
          current_size = st_buffer_payload_size st + of_nat (payload_size dps);
          inn = inn\<lparr>in_state := st\<lparr>
            st_data_points_buffer := st_data_points_buffer st @
              [\<lparr>dpg_data_id = data_id, dpg_data_points = dps\<rparr>],
            st_buffer_payload_size := current_size\<rparr>\<rparr>
      in if in_cancelled inn then (inn, Inl StreamClosed)
         else if need_flush (ucfg_flush_policy (in_config inn)) current_size
         then (inn\<lparr>in_notify_flush := True\<rparr>, Inr ())
         else (inn, Inr ()))"

section \<open>Taking a chunk out of the buffer\<close>

record MapOrders =
  mo_data_id :: "(DataId \<times> DataPoint list) list \<Rightarrow> (DataId \<times> DataPoint list) list"
  mo_alias :: "(DataIdOrAlias \<times> DataPoint list) list \<Rightarrow> (DataIdOrAlias \<times> DataPoint list) list"

definition map_orders_ok :: "MapOrders \<Rightarrow> bool" where
  "map_orders_ok mo \<longleftrightarrow> (\<forall>m. mset (mo_data_id mo m) = mset m) \<and> (\<forall>m. mset (mo_alias mo m) = mset m)"

text \<open>One round of the loops that collect the points of equal keys.\<close>

definition collect_points ::
  "('k \<times> DataPoint list) list \<Rightarrow> 'k \<Rightarrow> DataPoint list \<Rightarrow> ('k \<times> DataPoint list) list" where
  "collect_points m k dps =
     (case map_of m k of Some old \<Rightarrow> hm_insert k (old @ dps) m | None \<Rightarrow> hm_insert k dps m)"

definition sort_points :: "DataPoint list \<Rightarrow> DataPoint list" where
  "sort_points = sort_key (\<lambda>dp. sint (dp_elapsed_time dp))"

definition collect_groups :: "(DataPointGroup \<Rightarrow> 'k) \<Rightarrow> DataPointGroup list \<Rightarrow> ('k \<times> DataPoint list) list" where
  "collect_groups key dpgs = foldl (\<lambda>m g. collect_points m (key g) (dpg_data_points g)) [] dpgs"

definition points_for_callback :: "MapOrders \<Rightarrow> DataPointGroup list \<Rightarrow> DataPointGroup list" where
  "points_for_callback mo dpgs =
     map (\<lambda>(data_id, dps). \<lparr>dpg_data_id = data_id, dpg_data_points = sort_points dps\<rparr>)
       (mo_data_id mo (collect_groups dpg_data_id dpgs))"

definition data_id_or_alias :: "(DataId, u32) hash_map \<Rightarrow> DataId \<Rightarrow> DataIdOrAlias" where
  "data_id_or_alias als d =
     (case map_of als d of Some a \<Rightarrow> DataIdAlias a | None \<Rightarrow> DataIdOrAlias_DataId d)"

definition points_for_message ::
  "MapOrders \<Rightarrow> (DataId, u32) hash_map \<Rightarrow> DataPointGroup list \<Rightarrow> MsgDataPointGroup list" where
  "points_for_message mo als dpgs =
     map (\<lambda>(k, dps). \<lparr>mg_data_points = sort_points dps, mg_data_filter_ids = [],
         mg_data_id_or_alias = Some k\<rparr>)
       (mo_alias mo (collect_groups (\<lambda>g. data_id_or_alias als (dpg_data_id g)) dpgs))"

definition take_chunk ::
  "MapOrders \<Rightarrow> UpstreamInner \<Rightarrow> UpstreamFlusher \<Rightarrow>
     UpstreamInner \<times> UpstreamFlusher \<times> (MsgUpstreamChunk \<times> DataPointGroup list) option" where
  "take_chunk mo inn fl =
     (let st = in_state inn;
          dpgs = st_data_points_buffer st;
          st = st\<lparr>st_data_points_buffer := [], st_buffer_payload_size := 0\<rparr>
      in if dpgs = [] then (inn\<lparr>in_state := st\<rparr>, fl, None)
         else
           let dpg_callback = (if ucfg_send_data_points_callback (in_config inn)
                 then points_for_callback mo dpgs else []);
               sequence_number = st_last_issued_sequence_number st + 1;
               chunk = \<lparr>mup_stream_id_alias = in_stream_id_alias inn,
                 mup_stream_chunk = Some \<lparr>sc_sequence_number = sequence_number,
                   sc_data_point_groups = points_for_message mo (fl_rev_data_id_aliases fl) dpgs\<rparr>,
                 mup_data_ids = [], mup_extension_fields = None\<rparr>;
               additional = sum_list (map (\<lambda>g. length (dpg_data_points g)) dpgs);
               st = st\<lparr>st_last_issued_sequence_number := sequence_number,
                 st_total_data_points := st_total_data_points st + of_nat additional\<rparr>;
               fl = fl\<lparr>fl_data_size := fl_data_size fl +
                 of_nat (sum_list (map (\<lambda>g. payload_size (dpg_data_points g)) dpgs))\<rparr>
           in (inn\<lparr>in_state := st\<rparr>, fl, Some (chunk, dpg_callback)))"

section \<open>Flushing\<close>

record UpstreamState =
  ups_data_id_aliases :: "(u32, DataId) hash_map"
  ups_total_data_points :: u64
  ups_last_issued_sequence_number :: "u32 option"
  ups_data_points_buffer :: "DataPointGroup list"
  ups_buffer_payload_size :: u64

definition upstream_state :: "UpstreamInner \<Rightarrow> UpstreamState" where
  "upstream_state inn =
     (let st = in_state inn; n = st_last_issued_sequence_number st in
      \<lparr>ups_data_id_aliases = st_data_id_aliases st, ups_total_data_points = st_total_data_points st,
       ups_last_issued_sequence_number = (if n = 0 then None else Some n),
       ups_data_points_buffer = st_data_points_buffer st,
       ups_buffer_payload_size = st_buffer_payload_size st\<rparr>)"

text \<open>
  What an upstream does to its environment: the chunks it hands to the wire connection, the
  callbacks it calls, the results it sends to waiting clients, the close request; and, as a
  trace for the properties, the chunk of every \<open>take_chunk\<close>, sent or not.
\<close>

datatype UpOut =
  Issued MsgUpstreamChunk
| SendChunk QoS MsgUpstreamChunk
| DataPointsCallback Uuid UpstreamChunk
| AckCallback Uuid UpstreamChunkResult
| ResumedCallback Uuid UpstreamConfig UpstreamState
| Answer nat "unit res"
| SendClose UpstreamCloseRequest

text \<open>\<open>take_chunk\<close> followed by \<open>add_chunk\<close>, as \<open>flush\<close> and its two variants do.\<close>

definition take_and_store ::
  "MapOrders \<Rightarrow> UpstreamInner \<Rightarrow> UpstreamFlusher \<Rightarrow>
     (UpstreamInner \<times> UpstreamFlusher \<times> MsgUpstreamChunk option \<times> UpOut list) option" where
  "take_and_store mo inn fl =
     (case take_chunk mo inn fl of
        (inn', fl', None) \<Rightarrow> Some (inn', fl', None, [])
      | (inn', fl', Some (chunk, dpg)) \<Rightarrow>
          (case add_chunk (fl_storage fl') chunk dpg of
             None \<Rightarrow> None
           | Some (s, calls) \<Rightarrow>
               Some (inn', fl'\<lparr>fl_storage := s\<rparr>, Some chunk,
                 Issued chunk # map (\<lambda>(u, c). DataPointsCallback u c) calls)))"

text \<open>\<open>flush(Some(wire_conn))\<close>, given what \<open>send_message_with_qos\<close> returns, and \<open>flush(None)\<close>.\<close>

definition flush ::
  "MapOrders \<Rightarrow> unit res option \<Rightarrow> UpstreamInner \<Rightarrow> UpstreamFlusher \<Rightarrow>
     (UpstreamInner \<times> UpstreamFlusher \<times> unit res \<times> UpOut list) option" where
  "flush mo wire inn fl =
     map_option (\<lambda>(inn', fl', chunk, outs).
       (case (chunk, wire) of
          (Some c, Some result) \<Rightarrow>
            (inn', fl', result, outs @ [SendChunk (ucfg_qos (in_config inn)) c])
        | _ \<Rightarrow> (inn', fl', Inr (), outs)))
       (take_and_store mo inn fl)"

definition process_remaining_data_points ::
  "MapOrders \<Rightarrow> UpstreamInner \<Rightarrow> UpstreamFlusher \<Rightarrow> (UpstreamInner \<times> UpstreamFlusher \<times> UpOut list) option" where
  "process_remaining_data_points mo inn fl =
     map_option (\<lambda>(inn', fl', _, outs). (inn', fl', outs)) (take_and_store mo inn fl)"

text \<open>
  The sends of \<open>after_resume\<close> go on until one fails; \<open>results\<close> are what the connection
  returns for them (a missing one counts as success).
\<close>

fun send_all :: "QoS \<Rightarrow> MsgUpstreamChunk list \<Rightarrow> unit res list \<Rightarrow> unit res \<times> UpOut list" where
  "send_all qos [] results = (Inr (), [])"
| "send_all qos (c # cs) results =
     (case results of
        Inl e # _ \<Rightarrow> (Inl e, [SendChunk qos c])
      | _ \<Rightarrow> let (r, outs) = send_all qos cs (tl results) in (r, SendChunk qos c # outs))"

definition after_resume ::
  "MapOrders \<Rightarrow> unit res list \<Rightarrow> UpstreamInner \<Rightarrow> UpstreamFlusher \<Rightarrow>
     (UpstreamInner \<times> UpstreamFlusher \<times> unit res \<times> UpOut list) option" where
  "after_resume mo results inn fl =
     (let calls = (if ucfg_resumed_callback (in_config inn) then 
        [ResumedCallback (in_stream_id inn) (in_config inn) (upstream_state inn)] else [])
      in if ucfg_qos (in_config inn) = Reliable then
           let (r, outs) = send_all Reliable (iter_chunks (fl_storage fl)) results
           in Some (inn, fl, r, calls @ outs)
         else map_option (\<lambda>(inn', fl', _, outs). (inn', fl', Inr (), calls @ outs))
                (take_and_store mo inn fl))"

text \<open>\<open>may_send_err\<close> of \<open>internal.rs\<close>: the waiting client, if any, gets the result.\<close>

definition may_send_err :: "UpstreamInner \<Rightarrow> unit res \<Rightarrow> UpstreamInner \<times> bool \<times> UpOut list" where
  "may_send_err inn result =
     (inn\<lparr>in_tx_result := None\<rparr>, (\<exists>e. result = Inl e),
      case in_tx_result inn of Some tx \<Rightarrow> [Answer tx result] | None \<Rightarrow> [])"

definition close_message :: "UpstreamInner \<Rightarrow> UpstreamInner \<times> UpstreamCloseRequest" where
  "close_message inn =
     (inn\<lparr>in_close_opts := None\<rparr>,
      \<lparr>ucq_request_id = 0, ucq_stream_id = uuid_bytes (in_stream_id inn),
       ucq_total_data_points = st_total_data_points (in_state inn),
       ucq_final_sequence_number = st_last_issued_sequence_number (in_state inn),
       ucq_extension_fields =
         map_option (\<lambda>o'. \<lparr>ucef_close_session = close_session o'\<rparr>) (in_close_opts inn)\<rparr>)"

section \<open>What a chunk holds\<close>

definition buffer_points :: "('k \<Rightarrow> bool) \<Rightarrow> (DataPointGroup \<Rightarrow> 'k) \<Rightarrow> DataPointGroup list \<Rightarrow> DataPoint list" where
  "buffer_points P key dpgs = concat (map dpg_data_points (filter (\<lambda>g. P (key g)) dpgs))"

abbreviation points_of :: "DataId \<Rightarrow> DataPointGroup list \<Rightarrow> DataPoint list" where
  "points_of d \<equiv> buffer_points (\<lambda>d'. d' = d) dpg_data_id"

lemma buffer_points_simps [simp]:
  "buffer_points P key [] = []"
  "buffer_points P key (g # gs) = (if P (key g) then dpg_data_points g else []) @ buffer_points P key gs"
  "buffer_points P key (gs @ gs') = buffer_points P key gs @ buffer_points P key gs'"
  by (simp_all add: buffer_points_def)

lemma collect_groups_snoc:
  "collect_groups key (dpgs @ [g]) = collect_points (collect_groups key dpgs) (key g) (dpg_data_points g)"
  by (simp add: collect_groups_def)

lemma collect_groups_inv: "hm_inv (collect_groups key dpgs)"
proof (induction dpgs rule: rev_induct)
  case (snoc g dpgs)
  then show ?case by (auto simp: collect_groups_snoc collect_points_def split: option.splits)
qed (simp add: collect_groups_def)

lemma collect_groups_lookup:
  "map_of (collect_groups key dpgs) k =
     (if \<exists>g \<in> set dpgs. key g = k then Some (buffer_points (\<lambda>k'. k' = k) key dpgs) else None)"
proof (induction dpgs arbitrary: k rule: rev_induct)
  case (snoc g dpgs)
  have none: "buffer_points (\<lambda>k'. k' = k) key dpgs = []" if "\<forall>g \<in> set dpgs. key g \<noteq> k"
    using that by (simp add: buffer_points_def filter_empty_conv)
  show ?case
    using none by (cases "k = key g")
      (auto simp: collect_groups_snoc collect_points_def snoc split: option.splits)
qed (simp add: collect_groups_def)

text \<open>A hash map iterated in another order is the same map.\<close>

lemma reorder_hm:
  assumes "mset m' = mset m" and "hm_inv m"
  shows "hm_inv m'" and "map_of m' = map_of m"
proof -
  have "mset (map fst m') = mset (map fst m)" using assms(1) by simp
  then show inv: "hm_inv m'" using assms(2) unfolding hm_inv_def by (metis mset_eq_imp_distinct_iff)
  have "map_of m' k = Some v \<longleftrightarrow> map_of m k = Some v" for k v
    using mset_eq_setD [OF assms(1)] hm_lookup_mem [OF inv] hm_lookup_mem [OF assms(2)] by metis
  then show "map_of m' = map_of m" by (metis ext option.exhaust)
qed

lemma hm_filter_key:
  "hm_inv m \<Longrightarrow> concat (map snd (filter (\<lambda>e. fst e = k) m)) =
     (case map_of m k of None \<Rightarrow> [] | Some v \<Rightarrow> v)"
proof (induction m)
  case (Cons e m)
  have "filter (\<lambda>e'. fst e' = fst e) m = []"
    using Cons.prems by (auto simp: filter_empty_conv image_iff)
  with Cons show ?case by (cases e) auto
qed simp

text \<open>How a receiver that knows the aliases reads the groups of a chunk.\<close>

definition resolve_id :: "(u32, DataId) hash_map \<Rightarrow> DataIdOrAlias \<Rightarrow> DataId option" where
  "resolve_id aliases k = (case k of DataIdOrAlias_DataId d \<Rightarrow> Some d | DataIdAlias a \<Rightarrow> map_of aliases a)"

definition group_points :: "(u32, DataId) hash_map \<Rightarrow> DataId \<Rightarrow> MsgDataPointGroup list \<Rightarrow> DataPoint list" where
  "group_points aliases d gs = concat (map mg_data_points
     (filter (\<lambda>g. Option.bind (mg_data_id_or_alias g) (resolve_id aliases) = Some d) gs))"

definition aliases_ok :: "(DataId, u32) hash_map \<Rightarrow> (u32, DataId) hash_map \<Rightarrow> bool" where
  "aliases_ok als aliases \<longleftrightarrow> (\<forall>d a. map_of als d = Some a \<longrightarrow> map_of aliases a = Some d)"

lemma resolve_data_id_or_alias:
  "aliases_ok als aliases \<Longrightarrow> resolve_id aliases (data_id_or_alias als d) = Some d"
  by (auto simp: aliases_ok_def resolve_id_def data_id_or_alias_def split: option.splits)

lemma data_id_or_alias_inj:
  "aliases_ok als aliases \<Longrightarrow> data_id_or_alias als d = data_id_or_alias als d' \<longleftrightarrow> d = d'"
  by (metis resolve_data_id_or_alias option.inject)

lemma hm_from_list_lookup: "map_of (hm_from_list es) k = map_of (rev es) k"
proof -
  have "map_of (foldl (\<lambda>m (k, v). hm_insert k v m) m es) k =
      (case map_of (rev es) k of None \<Rightarrow> map_of m k | Some v \<Rightarrow> Some v)" for m
    by (induction es arbitrary: m) (auto simp: map_add_def split: option.splits)
  then show ?thesis by (simp add: hm_from_list_def split: option.splits)
qed

lemma flusher_new_aliases_ok:
  assumes "hm_inv (st_data_id_aliases (in_state inn))"
  shows "aliases_ok (fl_rev_data_id_aliases (flusher_new inn)) (st_data_id_aliases (in_state inn))"
  unfolding aliases_ok_def flusher_new_def UpstreamFlusher.simps hm_from_list_lookup
  using hm_lookup_mem [OF assms] by (auto dest!: map_of_SomeD)

lemma group_points_message:
  assumes "map_orders_ok mo" and "aliases_ok als aliases"
  shows "group_points aliases d (points_for_message mo als dpgs) = sort_points (points_of d dpgs)"
proof -
  let ?key = "\<lambda>g. data_id_or_alias als (dpg_data_id g)"
  let ?m = "mo_alias mo (collect_groups ?key dpgs)"
  let ?k = "data_id_or_alias als d"
  have "mset ?m = mset (collect_groups ?key dpgs)" using assms(1) by (simp add: map_orders_ok_def)
  note m = reorder_hm [OF this collect_groups_inv]
  have keys: "resolve_id aliases k = Some d \<longleftrightarrow> k = ?k" if "(k, v) \<in> set ?m" for k v
  proof -
    have "map_of (collect_groups ?key dpgs) k = Some v"
      using that hm_lookup_mem [OF m(1)] m(2) by metis
    then obtain g :: DataPointGroup where "k = ?key g"
      by (auto simp: collect_groups_lookup split: if_splits)
    then show ?thesis
      using resolve_data_id_or_alias [OF assms(2)] data_id_or_alias_inj [OF assms(2)] by simp
  qed
  have "group_points aliases d (points_for_message mo als dpgs) =
      concat (map (sort_points \<circ> snd) (filter (\<lambda>e. resolve_id aliases (fst e) = Some d) ?m))"
    by (simp add: group_points_def points_for_message_def filter_map o_def case_prod_beta)
  also have "filter (\<lambda>e. resolve_id aliases (fst e) = Some d) ?m = filter (\<lambda>e. fst e = ?k) ?m"
    using keys by (intro filter_cong) auto
  also have "concat (map (sort_points \<circ> snd) (filter (\<lambda>e. fst e = ?k) ?m)) =
      (case map_of ?m ?k of None \<Rightarrow> [] | Some v \<Rightarrow> sort_points v)"
    using hm_filter_key [of "map (\<lambda>(k, v). (k, sort_points v)) ?m" ?k] m(1)
    by (simp add: hm_inv_def o_def case_prod_beta filter_map map_of_map split: option.splits)
  also have "\<dots> = sort_points (points_of d dpgs)"
  proof (cases "\<exists>g \<in> set dpgs. ?key g = ?k")
    case True
    then show ?thesis
      using data_id_or_alias_inj [OF assms(2)]
      by (simp add: m(2) collect_groups_lookup buffer_points_def)
  next
    case False
    then have "points_of d dpgs = []"
      using data_id_or_alias_inj [OF assms(2)] by (auto simp: buffer_points_def filter_empty_conv)
    with False show ?thesis by (simp add: m(2) collect_groups_lookup sort_points_def)
  qed
  finally show ?thesis .
qed

text \<open>The groups for the callback hold the same points.\<close>

lemma points_of_callback:
  assumes "map_orders_ok mo"
  shows "points_of d (points_for_callback mo dpgs) = sort_points (points_of d dpgs)"
proof -
  let ?m = "mo_data_id mo (collect_groups dpg_data_id dpgs)"
  have "mset ?m = mset (collect_groups dpg_data_id dpgs)" using assms by (simp add: map_orders_ok_def)
  note m = reorder_hm [OF this collect_groups_inv]
  have "points_of d (points_for_callback mo dpgs) =
      concat (map (sort_points \<circ> snd) (filter (\<lambda>e. fst e = d) ?m))"
    by (simp add: buffer_points_def points_for_callback_def filter_map o_def case_prod_beta)
  also have "\<dots> = (case map_of ?m d of None \<Rightarrow> [] | Some v \<Rightarrow> sort_points v)"
    using hm_filter_key [of "map (\<lambda>(k, v). (k, sort_points v)) ?m" d] m(1)
    by (simp add: hm_inv_def o_def case_prod_beta filter_map map_of_map split: option.splits)
  also have "\<dots> = sort_points (points_of d dpgs)"
  proof (cases "\<exists>g \<in> set dpgs. dpg_data_id g = d")
    case False
    then have "points_of d dpgs = []" by (auto simp: buffer_points_def filter_empty_conv)
    with False show ?thesis by (simp add: m(2) collect_groups_lookup sort_points_def)
  qed (simp add: m(2) collect_groups_lookup)
  finally show ?thesis .
qed

lemma distinct_groups:
  assumes "map_orders_ok mo"
  shows "distinct (map mg_data_id_or_alias (points_for_message mo als dpgs))"
proof -
  let ?c = "collect_groups (\<lambda>g. data_id_or_alias als (dpg_data_id g)) dpgs"
  have "mset (mo_alias mo ?c) = mset ?c" using assms by (simp add: map_orders_ok_def)
  from reorder_hm(1) [OF this collect_groups_inv]
  have "distinct (map Some (map fst (mo_alias mo ?c)))"
    unfolding hm_inv_def distinct_map [of Some] by simp
  then show ?thesis by (simp add: points_for_message_def o_def case_prod_beta)
qed

end
