(* ===== verification/Upstream_Loop.thy ===== *)
theory Upstream_Loop
  imports Upstream_Core
begin

text \<open>
  The task of an upstream (\<open>iscp/upstream.rs\<close>): \<open>upstream_loop\<close>, the resume task it spawns
  (\<open>get_conn_and_resume\<close>) and the client operations \<open>write_data_points\<close>, \<open>flush\<close> and
  \<open>close\<close> that run beside it, as a state machine.  An event is a client call, or the arm of a
  \<open>select!\<close> (or the \<open>await\<close>) that completes, with what the awaited operation returned; any
  order of events the source allows is a run.  \<open>up_step\<close> is \<open>None\<close> for an event the current
  phase does not wait for.
\<close>

section \<open>The resume task\<close>

datatype ResumeEvent =
  RequestResume "(u32 \<times> string) res"
| AddUpstream "unit res"
| GetUpdated "unit res"

datatype TaskResult = TaskContinue | TaskFound | TaskGiveUp

text \<open>
  One turn of the loop of \<open>get_conn_and_resume\<close>: with a live connection it requests the resume
  if one is needed and registers the upstream otherwise; without one it waits for a new
  connection.  \<open>tok\<close> is the local \<open>resume_token\<close>; the one bound in the \<open>Ok\<close> arm shadows it.
\<close>

definition resume_turn ::
  "UpstreamInner \<Rightarrow> bool \<Rightarrow> string \<Rightarrow> ResumeEvent \<Rightarrow>
     (UpstreamInner \<times> bool \<times> string \<times> TaskResult \<times> UpstreamResumeRequest list) option" where
  "resume_turn inn need tok ev =
     (case ev of
        RequestResume result \<Rightarrow>
          if \<not> need then None
          else
            let (inn, tok) = (if tok = [] then (inn\<lparr>in_resume_token := []\<rparr>, in_resume_token inn)
                  else (inn, tok));
                request = \<lparr>urq_request_id = 0, urq_stream_id = uuid_bytes (in_stream_id inn),
                  urq_extension_fields = None, urq_resume_token = tok\<rparr>
            in if ucfg_expiry_interval (in_config inn) = 0 then Some (inn, need, tok, TaskGiveUp, [])
               else (case result of
                   Inr (alias, token) \<Rightarrow>
                     Some (inn\<lparr>in_stream_id_alias := alias, in_resume_token := token\<rparr>, False, tok,
                       TaskContinue, [request])
                 | Inl e \<Rightarrow>
                     if error_code e \<noteq> None then Some (inn, need, tok, TaskGiveUp, [request])
                     else if can_retry_resume e then Some (inn, need, tok, TaskContinue, [request])
                     else Some (inn, need, tok, TaskGiveUp, [request]))
      | AddUpstream result \<Rightarrow>
          if need then None
          else Some (inn, need, tok, case result of Inr _ \<Rightarrow> TaskFound | Inl _ \<Rightarrow> TaskContinue, [])
      | GetUpdated result \<Rightarrow>
          (case result of
             Inr _ \<Rightarrow> Some (inn, True, tok, TaskContinue, [])
           | Inl _ \<Rightarrow> Some (inn, need, tok, TaskGiveUp, [])))"

section \<open>The state machine\<close>

datatype UpPhase = Resuming | Resending | Flushing | WaitingAck u32 | Closing | Finished

record Up =
  up_inner :: UpstreamInner
  up_flusher :: UpstreamFlusher
  up_need_resume :: bool
  up_token :: string
  up_phase :: UpPhase

datatype UpEvent =
  Write DataId "DataPoint list"
| Flush nat
| Close nat "UpstreamCloseOptions option"
| Resume ResumeEvent
| ResumeTimeout
| Resent "unit res list"
| Notified "unit res"
| Interval "unit res"
| Cancelled "unit res"
| AckReceived UpstreamChunkAck
| AckClosed
| CloseTimeout
| CloseResponse "unit res"

datatype UpEffect = Out UpOut | Returned "unit res" | SendResume UpstreamResumeRequest

definition up_start :: "UpstreamConfig \<Rightarrow> Uuid \<Rightarrow> UpstreamOpenResponse \<Rightarrow> Up" where
  "up_start config stream_id response =
     (let inn = \<lparr>in_config = config, in_stream_id = stream_id,
        in_stream_id_alias = uor_assigned_stream_id_alias response, in_notify_flush = False,
        in_is_connected = True, in_tx_result = None, in_close_opts = None,
        in_state = state_new (uor_data_id_aliases response),
        in_resume_token = uor_resume_token response, in_cancelled = False\<rparr>
      in \<lparr>up_inner = inn, up_flusher = flusher_new inn, up_need_resume = False, up_token = [],
        up_phase = Resuming\<rparr>)"

text \<open>Leaving \<open>upstream_loop\<close>: the guard cancels the token, the remaining points are taken.\<close>

definition up_finish :: "MapOrders \<Rightarrow> Up \<Rightarrow> (Up \<times> UpOut list) option" where
  "up_finish mo u =
     map_option (\<lambda>(inn, fl, outs). (u\<lparr>up_inner := inn, up_flusher := fl, up_phase := Finished\<rparr>, outs))
       (process_remaining_data_points mo ((up_inner u)\<lparr>in_cancelled := True\<rparr>) (up_flusher u))"

text \<open>Going back to the resume task, with a new local token.\<close>

definition retry_or_finish :: "MapOrders \<Rightarrow> bool \<Rightarrow> Up \<Rightarrow> (Up \<times> UpOut list) option" where
  "retry_or_finish mo need u =
     (let u = u\<lparr>up_inner := (up_inner u)\<lparr>in_is_connected := False\<rparr>\<rparr>
      in if ucfg_expiry_interval (in_config (up_inner u)) = 0 \<or> in_cancelled (up_inner u)
         then up_finish mo u
         else Some (u\<lparr>up_need_resume := need, up_token := [], up_phase := Resuming\<rparr>, []))"

definition send_close :: "Up \<Rightarrow> Up \<times> UpOut list" where
  "send_close u =
     (let (inn, msg) = close_message (up_inner u)
      in (u\<lparr>up_inner := inn, up_phase := Closing\<rparr>, [SendClose msg]))"

definition wait_last_ack :: "u32 \<Rightarrow> Up \<Rightarrow> Up \<times> UpOut list" where
  "wait_last_ack n u =
     (if us_last_received (fl_storage (up_flusher u)) = Some n then send_close u
      else (u\<lparr>up_phase := WaitingAck n\<rparr>, []))"

definition prepend_outs :: "UpOut list \<Rightarrow> (Up \<times> UpOut list) option \<Rightarrow> (Up \<times> UpOut list) option" where
  "prepend_outs outs = map_option (\<lambda>(u, outs'). (u, outs @ outs'))"

text \<open>The tail of one turn of the flush loop.\<close>

definition flush_turn :: "MapOrders \<Rightarrow> bool \<Rightarrow> unit res \<Rightarrow> Up \<Rightarrow> (Up \<times> UpOut list) option" where
  "flush_turn mo close wire u =
     Option.bind (flush mo (Some wire) (up_inner u) (up_flusher u)) (\<lambda>(inn, fl, result, outs).
       let (inn, failed, answers) = may_send_err inn result;
           u = u\<lparr>up_inner := inn, up_flusher := fl\<rparr>;
           last = st_last_issued_sequence_number (in_state inn)
       in prepend_outs (outs @ answers)
         (if failed then retry_or_finish mo True u
          else if close \<or> last = - 1
          then Some (if last > 0 then wait_last_ack last u else send_close u)
          else Some (u, [])))"

text \<open>A flush without a connection, while the resume task runs.\<close>

definition offline_flush :: "MapOrders \<Rightarrow> Up \<Rightarrow> (Up \<times> UpOut list) option" where
  "offline_flush mo u =
     Option.bind (flush mo None (up_inner u) (up_flusher u)) (\<lambda>(inn, fl, result, outs).
       let (inn, failed, answers) = may_send_err inn result;
           u = u\<lparr>up_inner := inn, up_flusher := fl\<rparr>
       in prepend_outs (outs @ answers) (if failed then up_finish mo u else Some (u, [])))"

definition ack_turn :: "UpstreamChunkAck \<Rightarrow> Up \<Rightarrow> Up \<times> UpOut list" where
  "ack_turn ack u =
     (let (s, calls) = storage_process_ack (fl_storage (up_flusher u)) ack
      in (u\<lparr>up_flusher := (up_flusher u)\<lparr>fl_storage := s\<rparr>\<rparr>, map (\<lambda>(i, r). AckCallback i r) calls))"

definition resend_turn :: "MapOrders \<Rightarrow> unit res list \<Rightarrow> Up \<Rightarrow> (Up \<times> UpOut list) option" where
  "resend_turn mo results u =
     Option.bind (after_resume mo results (up_inner u) (up_flusher u)) (\<lambda>(inn, fl, result, outs).
       let u = u\<lparr>up_inner := inn, up_flusher := fl\<rparr>
       in prepend_outs outs
         (case result of
            Inr _ \<Rightarrow> Some (u\<lparr>up_phase := Flushing\<rparr>, [])
          | Inl _ \<Rightarrow> retry_or_finish mo (up_need_resume u) u))"

definition resume_event_turn ::
  "MapOrders \<Rightarrow> ResumeEvent \<Rightarrow> Up \<Rightarrow> (Up \<times> UpEffect list) option" where
  "resume_event_turn mo ev u =
     Option.bind (resume_turn (up_inner u) (up_need_resume u) (up_token u) ev)
       (\<lambda>(inn, need, tok, result, requests).
         let u = u\<lparr>up_inner := inn, up_need_resume := need, up_token := tok\<rparr>
         in map_option (\<lambda>(u, outs). (u, map SendResume requests @ map Out outs))
           (case result of
              TaskContinue \<Rightarrow> Some (u, [])
            | TaskFound \<Rightarrow> Some (u\<lparr>up_inner := (up_inner u)\<lparr>in_is_connected := True\<rparr>, up_phase := Resending\<rparr>, [])
            | TaskGiveUp \<Rightarrow> up_finish mo u))"

text \<open>The client operations.\<close>

definition client_flush :: "nat \<Rightarrow> Up \<Rightarrow> Up \<times> UpEffect list" where
  "client_flush tx u =
     (if in_cancelled (up_inner u) then (u, [Returned (Inl StreamClosed)])
      else (u\<lparr>up_inner := (up_inner u)\<lparr>in_tx_result := Some tx, in_notify_flush := True\<rparr>\<rparr>, []))"

definition client_close :: "nat \<Rightarrow> UpstreamCloseOptions option \<Rightarrow> Up \<Rightarrow> Up \<times> UpEffect list" where
  "client_close tx opts u =
     (let u = u\<lparr>up_inner := (up_inner u)\<lparr>in_close_opts := opts\<rparr>\<rparr>
      in if in_cancelled (up_inner u) then (u, [Returned (Inr ())])
         else (u\<lparr>up_inner := (up_inner u)\<lparr>in_tx_result := Some tx, in_cancelled := True\<rparr>\<rparr>, []))"

definition with_outs :: "(Up \<times> UpOut list) option \<Rightarrow> (Up \<times> UpEffect list) option" where
  "with_outs = map_option (\<lambda>(u, outs). (u, map Out outs))"

definition take_permit :: "Up \<Rightarrow> Up" where
  "take_permit u = u\<lparr>up_inner := (up_inner u)\<lparr>in_notify_flush := False\<rparr>\<rparr>"

definition up_step :: "MapOrders \<Rightarrow> Up \<Rightarrow> UpEvent \<Rightarrow> (Up \<times> UpEffect list) option" where
  "up_step mo u ev =
     (case ev of
        Write d dps \<Rightarrow>
          let (inn, r) = write_data_points (up_inner u) d dps in Some (u\<lparr>up_inner := inn\<rparr>, [Returned r])
      | Flush tx \<Rightarrow> Some (client_flush tx u)
      | Close tx opts \<Rightarrow> Some (client_close tx opts u)
      | Resume e \<Rightarrow> if up_phase u = Resuming then resume_event_turn mo e u else None
      | ResumeTimeout \<Rightarrow> if up_phase u = Resuming then with_outs (up_finish mo u) else None
      | Resent results \<Rightarrow> if up_phase u = Resending then with_outs (resend_turn mo results u) else None
      | Notified wire \<Rightarrow>
          if in_notify_flush (up_inner u) then
            (case up_phase u of
               Resuming \<Rightarrow> with_outs (offline_flush mo (take_permit u))
             | Flushing \<Rightarrow> with_outs (flush_turn mo False wire (take_permit u))
             | _ \<Rightarrow> None)
          else None
      | Interval wire \<Rightarrow>
          if flush_interval (ucfg_flush_policy (in_config (up_inner u))) \<noteq> None then
            (case up_phase u of
               Resuming \<Rightarrow> with_outs (offline_flush mo u)
             | Flushing \<Rightarrow> with_outs (flush_turn mo False wire u)
             | _ \<Rightarrow> None)
          else None
      | Cancelled wire \<Rightarrow>
          if up_phase u = Flushing \<and> in_cancelled (up_inner u)
          then with_outs (flush_turn mo True wire u) else None
      | AckReceived ack \<Rightarrow>
          (case up_phase u of
             Flushing \<Rightarrow> with_outs (Some (ack_turn ack u))
           | WaitingAck n \<Rightarrow>
               let (u, outs) = ack_turn ack u
               in with_outs (prepend_outs outs (Some (wait_last_ack n u)))
           | _ \<Rightarrow> None)
      | AckClosed \<Rightarrow>
          (case up_phase u of
             Flushing \<Rightarrow> with_outs (retry_or_finish mo True u)
           | WaitingAck n \<Rightarrow> with_outs (Some (send_close u))
           | _ \<Rightarrow> None)
      | CloseTimeout \<Rightarrow>
          (case up_phase u of WaitingAck n \<Rightarrow> with_outs (Some (send_close u)) | _ \<Rightarrow> None)
      | CloseResponse r \<Rightarrow>
          if up_phase u = Closing then
            let (inn, _, answers) = may_send_err (up_inner u) r
            in with_outs (prepend_outs answers (up_finish mo (u\<lparr>up_inner := inn\<rparr>)))
          else None)"

text \<open>The runs: any sequence of possible events, with any map iteration orders.\<close>

inductive up_run :: "Up \<Rightarrow> UpEvent list \<Rightarrow> UpEffect list \<Rightarrow> Up \<Rightarrow> bool" for u0 where
  up_run_start: "up_run u0 [] [] u0"
| up_run_step: "up_run u0 evs effs u \<Longrightarrow> map_orders_ok mo \<Longrightarrow> up_step mo u ev = Some (u', effs') \<Longrightarrow>
    up_run u0 (evs @ [ev]) (effs @ effs') u'"

section \<open>The data path as an abstract machine\<close>

text \<open>
  What all of this does to the data: points are written into the buffer, the buffer is turned
  into the next chunk, and acknowledgements take chunks out of the store.  Every event of the
  loop is a few steps of this machine (\<open>up_run_refines\<close>), so what holds along its paths holds
  along the runs of the loop, whatever the connection does.
\<close>

record DataPath =
  da_state :: State
  da_storage :: UpstreamStorage

datatype DataLabel = DWrite DataId "DataPoint list" | DIssue MsgUpstreamChunk | DAck UpstreamChunkAck

inductive data_step :: "(DataId, u32) hash_map \<Rightarrow> DataPath \<Rightarrow> DataLabel list \<Rightarrow> DataPath \<Rightarrow> bool"
  for als where
  data_write: "st = da_state p \<Longrightarrow>
    data_step als p [DWrite d dps] (p\<lparr>da_state := st\<lparr>
      st_data_points_buffer := st_data_points_buffer st @ [\<lparr>dpg_data_id = d, dpg_data_points = dps\<rparr>],
      st_buffer_payload_size := st_buffer_payload_size st + of_nat (payload_size dps)\<rparr>\<rparr>)"
| data_empty: "st = da_state p \<Longrightarrow> st_data_points_buffer st = [] \<Longrightarrow>
    data_step als p [] (p\<lparr>da_state := st\<lparr>st_data_points_buffer := [], st_buffer_payload_size := 0\<rparr>\<rparr>)"
| data_issue: "st = da_state p \<Longrightarrow> gs = st_data_points_buffer st \<Longrightarrow> gs \<noteq> [] \<Longrightarrow> map_orders_ok mo \<Longrightarrow>
    mup_stream_chunk chunk = Some \<lparr>sc_sequence_number = st_last_issued_sequence_number st + 1,
      sc_data_point_groups = points_for_message mo als gs\<rparr> \<Longrightarrow>
    add_chunk (da_storage p) chunk dpgs = Some (sto, calls) \<Longrightarrow>
    data_step als p [DIssue chunk] (p\<lparr>da_state := st\<lparr>
      st_data_points_buffer := [], st_buffer_payload_size := 0,
      st_last_issued_sequence_number := st_last_issued_sequence_number st + 1,
      st_total_data_points := st_total_data_points st +
        of_nat (sum_list (map (\<lambda>g. length (dpg_data_points g)) gs))\<rparr>,
      da_storage := sto\<rparr>)"
| data_ack: "data_step als p [DAck ack]
    (p\<lparr>da_storage := fst (storage_process_ack (da_storage p) ack)\<rparr>)"

inductive data_path :: "(DataId, u32) hash_map \<Rightarrow> DataPath \<Rightarrow> DataLabel list \<Rightarrow> DataPath \<Rightarrow> bool"
  for als p where
  data_path_nil: "data_path als p [] p"
| data_path_snoc: "data_path als p ls p' \<Longrightarrow> data_step als p' ls' p'' \<Longrightarrow> data_path als p (ls @ ls') p''"

lemma data_path_one: "data_step als p ls p' \<Longrightarrow> data_path als p ls p'"
  using data_path_snoc [OF data_path_nil] by simp

lemma data_path_append:
  "data_path als p' ls' p'' \<Longrightarrow> data_path als p ls p' \<Longrightarrow> data_path als p (ls @ ls') p''"
proof (induction rule: data_path.induct)
  case (data_path_snoc ls1 p1 ls2 p2)
  then show ?case using data_path.data_path_snoc [of als p "ls @ ls1" p1 ls2 p2] by simp
qed simp

fun issued_of :: "DataLabel list \<Rightarrow> MsgUpstreamChunk list" where
  "issued_of [] = []"
| "issued_of (DIssue c # ls) = c # issued_of ls"
| "issued_of (_ # ls) = issued_of ls"

fun writes_of :: "DataLabel list \<Rightarrow> (DataId \<times> DataPoint list) list" where
  "writes_of [] = []"
| "writes_of (DWrite d dps # ls) = (d, dps) # writes_of ls"
| "writes_of (_ # ls) = writes_of ls"

fun acks_of :: "DataLabel list \<Rightarrow> UpstreamChunkAck list" where
  "acks_of [] = []"
| "acks_of (DAck a # ls) = a # acks_of ls"
| "acks_of (_ # ls) = acks_of ls"

lemma issued_of_append [simp]: "issued_of (ls @ ls') = issued_of ls @ issued_of ls'"
  by (induction ls rule: issued_of.induct) simp_all

lemma writes_of_append [simp]: "writes_of (ls @ ls') = writes_of ls @ writes_of ls'"
  by (induction ls rule: writes_of.induct) simp_all

lemma acks_of_append [simp]: "acks_of (ls @ ls') = acks_of ls @ acks_of ls'"
  by (induction ls rule: acks_of.induct) simp_all

text \<open>The same projections of a run.\<close>

definition issued_outs :: "UpOut list \<Rightarrow> MsgUpstreamChunk list" where
  "issued_outs outs = concat (map (\<lambda>out. case out of Issued c \<Rightarrow> [c] | _ \<Rightarrow> []) outs)"

definition issued_chunks :: "UpEffect list \<Rightarrow> MsgUpstreamChunk list" where
  "issued_chunks effs = issued_outs (concat (map (\<lambda>eff. case eff of Out out \<Rightarrow> [out] | _ \<Rightarrow> []) effs))"

definition writes :: "UpEvent list \<Rightarrow> (DataId \<times> DataPoint list) list" where
  "writes evs = concat (map (\<lambda>ev. case ev of Write d dps \<Rightarrow> [(d, dps)] | _ \<Rightarrow> []) evs)"

definition acks :: "UpEvent list \<Rightarrow> UpstreamChunkAck list" where
  "acks evs = concat (map (\<lambda>ev. case ev of AckReceived a \<Rightarrow> [a] | _ \<Rightarrow> []) evs)"

lemma issued_outs_simps [simp]:
  "issued_outs [] = []" "issued_outs (Issued c # outs) = c # issued_outs outs"
  "issued_outs (outs @ outs') = issued_outs outs @ issued_outs outs'"
  by (simp_all add: issued_outs_def)

lemma issued_outs_none: "\<forall>out \<in> set outs. \<forall>c. out \<noteq> Issued c \<Longrightarrow> issued_outs outs = []"
  by (induction outs) (auto simp: issued_outs_def split: UpOut.splits)

lemma concat_map_Nil [simp]: "concat (map (\<lambda>x. []) xs) = []"
  by (induction xs) simp_all

lemma issued_chunks_simps [simp]:
  "issued_chunks [] = []" "issued_chunks (map Out outs) = issued_outs outs"
  "issued_chunks (Returned r # effs) = issued_chunks effs"
  "issued_chunks (map SendResume qs) = []"
  "issued_chunks (effs @ effs') = issued_chunks effs @ issued_chunks effs'"
  by (simp_all add: issued_chunks_def o_def)

lemma writes_acks_append [simp]:
  "writes (evs @ evs') = writes evs @ writes evs'" "acks (evs @ evs') = acks evs @ acks evs'"
  by (simp_all add: writes_def acks_def)

text \<open>The abstraction of the loop's state, and what it never changes.\<close>

definition abs_data :: "UpstreamInner \<Rightarrow> UpstreamFlusher \<Rightarrow> DataPath" where
  "abs_data inn fl = \<lparr>da_state = in_state inn, da_storage = fl_storage fl\<rparr>"

definition up_data :: "Up \<Rightarrow> DataPath" where
  "up_data u = abs_data (up_inner u) (up_flusher u)"

definition up_fixed :: "Up \<Rightarrow> (DataId, u32) hash_map \<times> UpstreamConfig \<times> Uuid" where
  "up_fixed u = (fl_rev_data_id_aliases (up_flusher u), in_config (up_inner u), in_stream_id (up_inner u))"

definition simulates :: "Up \<Rightarrow> (Up \<times> UpOut list) option \<Rightarrow> bool" where
  "simulates u r = (case r of None \<Rightarrow> True | Some (u', outs) \<Rightarrow>
     up_fixed u' = up_fixed u \<and>
     (\<exists>ls. data_path (fl_rev_data_id_aliases (up_flusher u)) (up_data u) ls (up_data u') \<and>
        issued_of ls = issued_outs outs \<and> writes_of ls = [] \<and> acks_of ls = []))"

lemma simulates_None [simp]: "simulates u None"
  by (simp add: simulates_def)

lemma simulates_Some:
  "simulates u (Some (u', outs)) \<longleftrightarrow> up_fixed u' = up_fixed u \<and>
     (\<exists>ls. data_path (fl_rev_data_id_aliases (up_flusher u)) (up_data u) ls (up_data u') \<and>
        issued_of ls = issued_outs outs \<and> writes_of ls = [] \<and> acks_of ls = [])"
  by (simp add: simulates_def)

lemma simulates_quiet:
  assumes "up_data u' = up_data u" and "up_fixed u' = up_fixed u" and "issued_outs outs = []"
  shows "simulates u (Some (u', outs))"
  unfolding simulates_Some
proof (intro conjI exI [of _ "[]"])
  show "data_path (fl_rev_data_id_aliases (up_flusher u)) (up_data u) [] (up_data u')"
    unfolding assms(1) by (rule data_path_nil)
qed (simp_all add: assms)

lemma simulates_seq:
  assumes "simulates u (Some (u1, outs))" and "simulates u1 r"
  shows "simulates u (prepend_outs outs r)"
proof (cases r)
  case (Some r')
  obtain u' outs' where r': "r' = (u', outs')" by (cases r')
  let ?als = "fl_rev_data_id_aliases (up_flusher u)"
  have fixed: "up_fixed u1 = up_fixed u" "up_fixed u' = up_fixed u1"
    using assms unfolding Some r' simulates_Some by blast+
  then have als: "fl_rev_data_id_aliases (up_flusher u1) = ?als" by (simp add: up_fixed_def)
  obtain ls where ls: "data_path ?als (up_data u) ls (up_data u1)"
    "issued_of ls = issued_outs outs" "writes_of ls = []" "acks_of ls = []"
    using assms(1) unfolding simulates_Some by blast
  obtain ls' where ls': "data_path ?als (up_data u1) ls' (up_data u')"
    "issued_of ls' = issued_outs outs'" "writes_of ls' = []" "acks_of ls' = []"
    using assms(2) unfolding Some r' simulates_Some als by blast
  from ls ls' fixed show ?thesis
    unfolding Some r' prepend_outs_def option.map prod.case simulates_Some
    by (intro conjI exI [of _ "ls @ ls'"] data_path_append [OF ls'(1) ls(1)]) simp_all
qed (simp add: prepend_outs_def)

text \<open>The quiet parts of a turn may be done before or after.\<close>

lemma simulates_before:
  assumes "up_data u = up_data u0" and "up_fixed u = up_fixed u0" and "simulates u r"
  shows "simulates u0 r"
proof -
  have als: "fl_rev_data_id_aliases (up_flusher u) = fl_rev_data_id_aliases (up_flusher u0)"
    using assms(2) by (simp add: up_fixed_def)
  from assms(3) show ?thesis unfolding simulates_def als assms(1,2) .
qed

lemma take_and_store_data:
  assumes "map_orders_ok mo" and "take_and_store mo inn fl = Some (inn', fl', c, outs)"
  shows "fl_rev_data_id_aliases fl' = fl_rev_data_id_aliases fl"
    and "\<exists>st. inn' = inn\<lparr>in_state := st\<rparr>"
    and "data_step (fl_rev_data_id_aliases fl) (abs_data inn fl)
      (case c of None \<Rightarrow> [] | Some c \<Rightarrow> [DIssue c]) (abs_data inn' fl')"
    and "issued_outs outs = (case c of None \<Rightarrow> [] | Some c \<Rightarrow> [c])"
    and "st_data_points_buffer (in_state inn') = []"
proof -
  let ?st = "in_state inn"
  have calls: "issued_outs (map (\<lambda>(u, c). DataPointsCallback u c) calls) = []" for calls
    by (rule issued_outs_none) auto
  have "(fl_rev_data_id_aliases fl' = fl_rev_data_id_aliases fl \<and> (\<exists>st. inn' = inn\<lparr>in_state := st\<rparr>)) \<and>
     data_step (fl_rev_data_id_aliases fl) (abs_data inn fl)
       (case c of None \<Rightarrow> [] | Some c \<Rightarrow> [DIssue c]) (abs_data inn' fl') \<and>
     issued_outs outs = (case c of None \<Rightarrow> [] | Some c \<Rightarrow> [c]) \<and>
     st_data_points_buffer (in_state inn') = []"
  proof (cases "st_data_points_buffer ?st = []")
    case True
    with assms(2) have "inn' = inn\<lparr>in_state := ?st\<lparr>st_data_points_buffer := [], st_buffer_payload_size := 0\<rparr>\<rparr>"
      "fl' = fl" "c = None" "outs = []"
      by (simp_all add: take_and_store_def take_chunk_def Let_def)
    then show ?thesis
      using data_empty [OF refl, of "abs_data inn fl"] True by (auto simp: abs_data_def)
  next
    case False
    let ?chunk = "\<lparr>mup_stream_id_alias = in_stream_id_alias inn,
      mup_stream_chunk = Some \<lparr>sc_sequence_number = st_last_issued_sequence_number ?st + 1,
        sc_data_point_groups = points_for_message mo (fl_rev_data_id_aliases fl) (st_data_points_buffer ?st)\<rparr>,
      mup_data_ids = [], mup_extension_fields = None\<rparr>"
    obtain dpg sto calls where add: "add_chunk (fl_storage fl) ?chunk dpg = Some (sto, calls)"
      and eqs: "c = Some ?chunk" "outs = Issued ?chunk # map (\<lambda>(u, c). DataPointsCallback u c) calls"
        "fl_storage fl' = sto" "fl_rev_data_id_aliases fl' = fl_rev_data_id_aliases fl"
        "inn' = inn\<lparr>in_state := ?st\<lparr>st_data_points_buffer := [], st_buffer_payload_size := 0,
          st_last_issued_sequence_number := st_last_issued_sequence_number ?st + 1,
          st_total_data_points := st_total_data_points ?st +
            of_nat (sum_list (map (\<lambda>g. length (dpg_data_points g)) (st_data_points_buffer ?st)))\<rparr>\<rparr>"
      using assms(2) False by (auto simp: take_and_store_def take_chunk_def Let_def split: option.splits)
    from False assms(1) add
    have "data_step (fl_rev_data_id_aliases fl) (abs_data inn fl) [DIssue ?chunk] (abs_data inn' fl')"
      using data_issue [where p = "abs_data inn fl" and chunk = ?chunk and dpgs = dpg
          and als = "fl_rev_data_id_aliases fl" and mo = mo and sto = sto and calls = calls, OF refl refl]
      by (simp add: abs_data_def eqs(3,5))
    then show ?thesis using calls by (auto simp: eqs)
  qed
  then show "fl_rev_data_id_aliases fl' = fl_rev_data_id_aliases fl"
    and "\<exists>st. inn' = inn\<lparr>in_state := st\<rparr>"
    and "data_step (fl_rev_data_id_aliases fl) (abs_data inn fl)
      (case c of None \<Rightarrow> [] | Some c \<Rightarrow> [DIssue c]) (abs_data inn' fl')"
    and "issued_outs outs = (case c of None \<Rightarrow> [] | Some c \<Rightarrow> [c])"
    and "st_data_points_buffer (in_state inn') = []"
    by simp_all
qed

lemma simulates_take:
  assumes "map_orders_ok mo" and "take_and_store mo inn fl = Some (inn', fl', c, outs)"
    and "up_data u = abs_data inn fl" and "up_fixed u = (fl_rev_data_id_aliases fl, in_config inn, in_stream_id inn)"
    and "up_inner u' = inn'" and "up_flusher u' = fl'" and "issued_outs outs' = issued_outs outs"
  shows "simulates u (Some (u', outs'))"
proof -
  note facts = take_and_store_data [OF assms(1,2)]
  have "fl_rev_data_id_aliases (up_flusher u) = fl_rev_data_id_aliases fl"
    using assms(4) by (simp add: up_fixed_def)
  then have "data_path (fl_rev_data_id_aliases (up_flusher u)) (up_data u)
      (case c of None \<Rightarrow> [] | Some c \<Rightarrow> [DIssue c]) (up_data u')"
    using data_path_one [OF facts(3)] assms(3) by (simp add: up_data_def [of u'] assms(5,6))
  moreover have "up_fixed u' = up_fixed u"
    using facts(1,2) unfolding assms(4) up_fixed_def [of u'] assms(5,6) by auto
  ultimately show ?thesis
    unfolding simulates_Some
    using facts(4) assms(7) by (cases c) auto
qed

text \<open>The turns of the loop, one by one.\<close>

lemma up_data_upd [simp]:
  "up_data (u\<lparr>up_phase := ph\<rparr>) = up_data u" "up_data (u\<lparr>up_need_resume := b\<rparr>) = up_data u"
  "up_data (u\<lparr>up_token := t\<rparr>) = up_data u"
  "up_data (u\<lparr>up_inner := inn\<rparr>) = abs_data inn (up_flusher u)"
  "up_data (u\<lparr>up_flusher := fl\<rparr>) = abs_data (up_inner u) fl"
  by (simp_all add: up_data_def)

lemma up_fixed_upd [simp]:
  "up_fixed (u\<lparr>up_phase := ph\<rparr>) = up_fixed u" "up_fixed (u\<lparr>up_need_resume := b\<rparr>) = up_fixed u"
  "up_fixed (u\<lparr>up_token := t\<rparr>) = up_fixed u"
  "up_fixed (u\<lparr>up_inner := inn\<rparr>) = (fl_rev_data_id_aliases (up_flusher u), in_config inn, in_stream_id inn)"
  "up_fixed (u\<lparr>up_flusher := fl\<rparr>) =
     (fl_rev_data_id_aliases fl, in_config (up_inner u), in_stream_id (up_inner u))"
  by (simp_all add: up_fixed_def)

lemma abs_data_upd [simp]:
  "abs_data (inn\<lparr>in_stream_id_alias := a\<rparr>) fl = abs_data inn fl"
  "abs_data (inn\<lparr>in_notify_flush := b\<rparr>) fl = abs_data inn fl"
  "abs_data (inn\<lparr>in_is_connected := b\<rparr>) fl = abs_data inn fl"
  "abs_data (inn\<lparr>in_tx_result := t\<rparr>) fl = abs_data inn fl"
  "abs_data (inn\<lparr>in_close_opts := o'\<rparr>) fl = abs_data inn fl"
  "abs_data (inn\<lparr>in_resume_token := r\<rparr>) fl = abs_data inn fl"
  "abs_data (inn\<lparr>in_cancelled := b\<rparr>) fl = abs_data inn fl"
  by (simp_all add: abs_data_def)

lemma abs_data_up [simp]: "abs_data (up_inner u) (up_flusher u) = up_data u"
  and up_fixed_up [simp]:
    "(fl_rev_data_id_aliases (up_flusher u), in_config (up_inner u), in_stream_id (up_inner u)) = up_fixed u"
  by (simp_all add: up_data_def up_fixed_def)

lemma issued_outs_answer [simp]:
  "issued_outs (case t of Some tx \<Rightarrow> [Answer tx r] | None \<Rightarrow> []) = []"
  "issued_outs [SendClose m] = []" "issued_outs [SendChunk q c] = []"
  by (auto simp: issued_outs_def split: option.splits)

lemma simulates_finish: "map_orders_ok mo \<Longrightarrow> simulates u (up_finish mo u)"
  unfolding up_finish_def process_remaining_data_points_def
  by (auto simp: case_prod_beta map_option_case intro!: simulates_take split: option.splits)

lemma simulates_retry: "map_orders_ok mo \<Longrightarrow> simulates u (retry_or_finish mo need u)"
  unfolding retry_or_finish_def Let_def
  by (auto intro!: simulates_quiet simulates_before [OF _ _ simulates_finish])

lemma simulates_send_close: "simulates u (Some (send_close u))"
  by (auto simp: send_close_def close_message_def intro!: simulates_quiet)

lemma simulates_wait: "simulates u (Some (wait_last_ack n u))"
  using simulates_send_close [of u] by (auto simp: wait_last_ack_def intro!: simulates_quiet)

lemma simulates_flush:
  assumes "map_orders_ok mo" and "flush mo wire (up_inner u) (up_flusher u) = Some (inn, fl, result, outs)"
  shows "simulates u (Some (u\<lparr>up_inner := inn, up_flusher := fl\<rparr>, outs))"
proof -
  obtain c outs' where "take_and_store mo (up_inner u) (up_flusher u) = Some (inn, fl, c, outs')"
    and "issued_outs outs = issued_outs outs'"
    using assms(2) that unfolding flush_def
    by (cases "take_and_store mo (up_inner u) (up_flusher u)"; cases wire) (auto split: option.splits)
  from simulates_take [OF assms(1) this(1)] this(2) show ?thesis by simp
qed

lemma prepend_outs_assoc: "prepend_outs (outs @ outs') r = prepend_outs outs (prepend_outs outs' r)"
  by (cases r) (auto simp: prepend_outs_def)

lemma simulates_answer:
  assumes "may_send_err inn result = (inn', failed, answers)" and "up_inner u = inn"
    and "simulates (u\<lparr>up_inner := inn'\<rparr>) r"
  shows "simulates u (prepend_outs answers r)"
proof (rule simulates_seq [OF _ assms(3)])
  show "simulates u (Some (u\<lparr>up_inner := inn'\<rparr>, answers))"
    using assms(1,2) by (intro simulates_quiet) (auto simp: may_send_err_def)
qed

lemma simulates_flush_turn:
  assumes "map_orders_ok mo"
  shows "simulates u (flush_turn mo close wire u)"
proof (cases "flush mo (Some wire) (up_inner u) (up_flusher u)")
  case (Some x)
  obtain inn fl result outs where x: "x = (inn, fl, result, outs)" by (cases x)
  obtain inn' failed answers where m: "may_send_err inn result = (inn', failed, answers)"
    by (cases "may_send_err inn result")
  let ?u = "u\<lparr>up_inner := inn, up_flusher := fl\<rparr>"
  let ?v = "u\<lparr>up_inner := inn', up_flusher := fl\<rparr>"
  have "simulates (?u\<lparr>up_inner := inn'\<rparr>) r" if "simulates ?v r" for r
    by (rule simulates_before [OF _ _ that]) simp_all
  note answer = simulates_answer [OF m _ this]
  have tail: "simulates ?v (if failed then retry_or_finish mo True ?v
      else if close \<or> last = - 1
      then Some (if last > 0 then wait_last_ack last ?v else send_close ?v) else Some (?v, []))" for last
    using simulates_retry [OF assms] simulates_wait simulates_send_close
    by (auto intro: simulates_quiet)
  show ?thesis
    unfolding flush_turn_def Some x bind.simps prod.case m Let_def prepend_outs_assoc
    by (rule simulates_seq [OF simulates_flush [OF assms Some [unfolded x]] answer]) (simp, rule tail)
qed (simp add: flush_turn_def)

lemma simulates_offline_flush:
  assumes "map_orders_ok mo"
  shows "simulates u (offline_flush mo u)"
proof (cases "flush mo None (up_inner u) (up_flusher u)")
  case (Some x)
  obtain inn fl result outs where x: "x = (inn, fl, result, outs)" by (cases x)
  obtain inn' failed answers where m: "may_send_err inn result = (inn', failed, answers)"
    by (cases "may_send_err inn result")
  let ?u = "u\<lparr>up_inner := inn, up_flusher := fl\<rparr>"
  let ?v = "u\<lparr>up_inner := inn', up_flusher := fl\<rparr>"
  have "simulates (?u\<lparr>up_inner := inn'\<rparr>) r" if "simulates ?v r" for r
    by (rule simulates_before [OF _ _ that]) simp_all
  note answer = simulates_answer [OF m _ this]
  have tail: "simulates ?v (if failed then up_finish mo ?v else Some (?v, []))"
    using simulates_finish [OF assms] by (auto intro: simulates_quiet)
  show ?thesis
    unfolding offline_flush_def Some x bind.simps prod.case m Let_def prepend_outs_assoc
    by (rule simulates_seq [OF simulates_flush [OF assms Some [unfolded x]] answer]) (simp, rule tail)
qed (simp add: offline_flush_def)

lemma send_all_issued: "send_all q cs results = (r, outs) \<Longrightarrow> issued_outs outs = []"
proof (induction q cs results arbitrary: r outs rule: send_all.induct)
  case (2 q c cs results)
  then show ?case
    by (auto simp: issued_outs_def split: list.splits sum.splits prod.splits)
qed simp

lemma simulates_resend_turn:
  assumes "map_orders_ok mo"
  shows "simulates u (resend_turn mo results u)"
proof (cases "after_resume mo results (up_inner u) (up_flusher u)")
  case (Some x)
  obtain inn fl result outs where x: "x = (inn, fl, result, outs)" by (cases x)
  let ?u = "u\<lparr>up_inner := inn, up_flusher := fl\<rparr>"
  have "simulates u (Some (?u, outs))"
  proof (cases "ucfg_qos (in_config (up_inner u)) = Reliable")
    case True
    with Some x show ?thesis
      by (auto simp: after_resume_def issued_outs_def dest: send_all_issued
          split: prod.splits intro!: simulates_quiet)
  next
    case False
    with Some x obtain c outs' where "take_and_store mo (up_inner u) (up_flusher u) = Some (inn, fl, c, outs')"
      and "issued_outs outs = issued_outs outs'"
      by (auto simp: after_resume_def issued_outs_def)
    from simulates_take [OF assms this(1)] this(2) show ?thesis by simp
  qed
  moreover have "simulates ?u (case result of
      Inr _ \<Rightarrow> Some (?u\<lparr>up_phase := Flushing\<rparr>, []) | Inl _ \<Rightarrow> retry_or_finish mo (up_need_resume ?u) ?u)"
    using simulates_retry [OF assms] by (auto intro!: simulates_quiet split: sum.splits)
  ultimately show ?thesis
    unfolding resend_turn_def Some x bind.simps prod.case Let_def by (rule simulates_seq)
qed (simp add: resend_turn_def)

text \<open>One event of the loop.\<close>

definition refines_event :: "Up \<Rightarrow> UpEvent \<Rightarrow> (Up \<times> UpEffect list) option \<Rightarrow> bool" where
  "refines_event u ev r = (case r of None \<Rightarrow> True | Some (u', effs) \<Rightarrow>
     up_fixed u' = up_fixed u \<and>
     (\<exists>ls. data_path (fl_rev_data_id_aliases (up_flusher u)) (up_data u) ls (up_data u') \<and>
        issued_of ls = issued_chunks effs \<and> writes_of ls = writes [ev] \<and> acks_of ls = acks [ev]))"

lemma refines_with_outs:
  "simulates u r \<Longrightarrow> writes [ev] = [] \<Longrightarrow> acks [ev] = [] \<Longrightarrow> refines_event u ev (with_outs r)"
  by (auto simp: refines_event_def simulates_def with_outs_def split: option.splits prod.splits)

lemma refines_quiet:
  assumes "up_data u' = up_data u" and "up_fixed u' = up_fixed u" and "issued_chunks effs = []"
    and "writes [ev] = []" and "acks [ev] = []"
  shows "refines_event u ev (Some (u', effs))"
  unfolding refines_event_def option.case prod.case
proof (intro conjI exI [of _ "[]"])
  show "data_path (fl_rev_data_id_aliases (up_flusher u)) (up_data u) [] (up_data u')"
    unfolding assms(1) by (rule data_path_nil)
qed (simp_all add: assms)

lemma refines_None [simp]: "refines_event u ev None"
  by (simp add: refines_event_def)

lemma write_data_points_data:
  assumes "write_data_points (up_inner u) d dps = (inn, r)"
  shows "data_step als (up_data u) [DWrite d dps] (abs_data inn (up_flusher u))"
    and "in_config inn = in_config (up_inner u)" and "in_stream_id inn = in_stream_id (up_inner u)"
  using assms data_write [OF refl, of als "up_data u" d dps]
  by (auto simp: write_data_points_def Let_def up_data_def abs_data_def simp del: abs_data_up
      split: if_splits)

lemma refines_write:
  assumes "write_data_points (up_inner u) d dps = (inn, r)"
  shows "refines_event u (Write d dps) (Some (u\<lparr>up_inner := inn\<rparr>, [Returned r]))"
  unfolding refines_event_def option.case prod.case
proof (intro conjI exI [of _ "[DWrite d dps]"])
  show "data_path (fl_rev_data_id_aliases (up_flusher u)) (up_data u) [DWrite d dps]
      (up_data (u\<lparr>up_inner := inn\<rparr>))"
    unfolding up_data_upd using write_data_points_data(1) [OF assms] by (rule data_path_one)
qed (use write_data_points_data(2,3) [OF assms] in
    \<open>simp_all add: writes_def acks_def\<close>)

lemma ack_turn_data:
  assumes "ack_turn ack u = (u', outs)"
  shows "data_step als (up_data u) [DAck ack] (up_data u')" and "up_fixed u' = up_fixed u"
    and "issued_outs outs = []"
proof -
  obtain s calls where c: "storage_process_ack (fl_storage (up_flusher u)) ack = (s, calls)"
    by (cases "storage_process_ack (fl_storage (up_flusher u)) ack")
  show "data_step als (up_data u) [DAck ack] (up_data u')"
    using assms data_ack [of als "up_data u" ack] by (auto simp: ack_turn_def c up_data_def abs_data_def simp del: abs_data_up)
  show "up_fixed u' = up_fixed u"
    using assms by (auto simp: ack_turn_def c up_fixed_def simp del: up_fixed_up)
  show "issued_outs outs = []"
    using assms by (auto simp: ack_turn_def c intro!: issued_outs_none)
qed

lemma refines_ack:
  assumes "ack_turn ack u = (u1, outs)" and "simulates u1 (Some (u', outs'))"
  shows "refines_event u (AckReceived ack) (Some (u', map Out (outs @ outs')))"
proof -
  note facts = ack_turn_data [OF assms(1)]
  let ?als = "fl_rev_data_id_aliases (up_flusher u)"
  have als: "fl_rev_data_id_aliases (up_flusher u1) = ?als" using facts(2) by (simp add: up_fixed_def del: up_fixed_up)
  obtain ls where ls: "data_path ?als (up_data u1) ls (up_data u')" "up_fixed u' = up_fixed u1"
    "issued_of ls = issued_outs outs'" "writes_of ls = []" "acks_of ls = []"
    using assms(2) unfolding simulates_Some als by blast
  from data_path_append [OF ls(1) data_path_one [OF facts(1)]] ls facts(2,3) show ?thesis
    unfolding refines_event_def option.case prod.case
    by (intro conjI exI [of _ "[DAck ack] @ ls"]) (simp_all add: writes_def acks_def)
qed

lemma resume_turn_quiet:
  assumes "resume_turn inn need tok ev = Some (inn', need', tok', res, qs)"
  shows "abs_data inn' fl = abs_data inn fl" and "in_config inn' = in_config inn"
    and "in_stream_id inn' = in_stream_id inn"
  using assms
  by (auto simp: resume_turn_def Let_def split: ResumeEvent.splits if_splits sum.splits prod.splits)

lemma refines_resume:
  assumes "map_orders_ok mo"
  shows "refines_event u (Resume ev) (resume_event_turn mo ev u)"
proof (cases "resume_turn (up_inner u) (up_need_resume u) (up_token u) ev")
  case (Some x)
  obtain inn need tok res qs where x: "x = (inn, need, tok, res, qs)" by (cases x)
  note quiet = resume_turn_quiet [OF Some [unfolded x]]
  let ?u = "u\<lparr>up_inner := inn, up_need_resume := need, up_token := tok\<rparr>"
  let ?r = "case res of TaskContinue \<Rightarrow> Some (?u, [])
    | TaskFound \<Rightarrow> Some (?u\<lparr>up_inner := (up_inner ?u)\<lparr>in_is_connected := True\<rparr>, up_phase := Resending\<rparr>, [])
    | TaskGiveUp \<Rightarrow> up_finish mo ?u"
  have "simulates ?u ?r"
    using simulates_finish [OF assms, of ?u] by (cases res) (auto intro!: simulates_quiet)
  moreover have "up_data ?u = up_data u" "up_fixed ?u = up_fixed u"
    using quiet(1) [of "up_flusher u"] quiet(2,3) by simp_all
  ultimately have sim: "simulates u ?r" using simulates_before by blast
  have "resume_event_turn mo ev u = map_option (\<lambda>(u, outs). (u, map SendResume qs @ map Out outs)) ?r"
    by (simp add: resume_event_turn_def Some x Let_def)
  moreover have "issued_chunks (map SendResume qs @ map Out outs) = issued_outs outs" for outs by simp
  ultimately show ?thesis
    using sim by (cases ?r) (auto simp: refines_event_def simulates_def writes_def acks_def
      simp del: issued_chunks_simps)
qed (simp add: resume_event_turn_def)

lemma up_step_refines:
  assumes "map_orders_ok mo"
  shows "refines_event u ev (up_step mo u ev)"
proof (cases ev)
  case (Write d dps)
  then show ?thesis
    using refines_write [of u d dps] by (cases "write_data_points (up_inner u) d dps") (simp add: up_step_def)
next
  case (AckReceived ack)
  obtain u1 outs where a: "ack_turn ack u = (u1, outs)" by (cases "ack_turn ack u")
  have "refines_event u ev (Some (u1, map Out outs))"
    using refines_ack [OF a, of u1 "[]"] by (simp add: AckReceived simulates_quiet)
  moreover have "refines_event u ev (with_outs (prepend_outs outs (Some (wait_last_ack n u1))))" for n
    using refines_ack [OF a, of "fst (wait_last_ack n u1)" "snd (wait_last_ack n u1)"] simulates_wait
    by (simp add: AckReceived with_outs_def prepend_outs_def case_prod_beta)
  ultimately show ?thesis
    by (cases "up_phase u") (simp_all add: AckReceived up_step_def a with_outs_def)
next
  case (Resume e)
  then show ?thesis using refines_resume [OF assms] by (simp add: up_step_def)
next
  case (CloseResponse r)
  obtain inn failed answers where m: "may_send_err (up_inner u) r = (inn, failed, answers)"
    by (cases "may_send_err (up_inner u) r")
  have "simulates u (prepend_outs answers (up_finish mo (u\<lparr>up_inner := inn\<rparr>)))"
    by (rule simulates_answer [OF m refl simulates_finish [OF assms]])
  then show ?thesis
    by (auto simp: up_step_def CloseResponse m writes_def acks_def intro: refines_with_outs)
next
  case (Flush tx)
  have "refines_event u ev (Some (client_flush tx u))"
    by (cases "in_cancelled (up_inner u)")
      (auto simp: Flush client_flush_def writes_def acks_def intro!: refines_quiet)
  then show ?thesis by (simp add: up_step_def Flush)
next
  case (Close tx opts)
  have "refines_event u ev (Some (client_close tx opts u))"
    by (cases "in_cancelled (up_inner u)")
      (auto simp: Close client_close_def Let_def writes_def acks_def intro!: refines_quiet)
  then show ?thesis by (simp add: up_step_def Close)
next
  case (Notified wire)
  have "simulates u (offline_flush mo (take_permit u))" "simulates u (flush_turn mo False wire (take_permit u))"
    using simulates_offline_flush [OF assms] simulates_flush_turn [OF assms]
    by (auto intro!: simulates_before [of "take_permit u" u] simp: take_permit_def)
  then show ?thesis
    by (auto simp: up_step_def Notified writes_def acks_def intro!: refines_with_outs split: UpPhase.split)
next
  case (Interval wire)
  show ?thesis
    using simulates_offline_flush [OF assms, of u] simulates_flush_turn [OF assms, of u]
    by (auto simp: up_step_def Interval writes_def acks_def intro!: refines_with_outs split: UpPhase.split)
next
  case ResumeTimeout
  show ?thesis
    using simulates_finish [OF assms, of u]
    by (auto simp: up_step_def ResumeTimeout writes_def acks_def intro!: refines_with_outs)
next
  case (Resent results)
  show ?thesis
    using simulates_resend_turn [OF assms, of u]
    by (auto simp: up_step_def Resent writes_def acks_def intro!: refines_with_outs)
next
  case (Cancelled wire)
  show ?thesis
    using simulates_flush_turn [OF assms, of u]
    by (auto simp: up_step_def Cancelled writes_def acks_def intro!: refines_with_outs)
next
  case AckClosed
  show ?thesis
    using simulates_retry [OF assms, of u] simulates_send_close [of u]
    by (auto simp: up_step_def AckClosed writes_def acks_def intro!: refines_with_outs split: UpPhase.split)
next
  case CloseTimeout
  show ?thesis
    using simulates_send_close [of u]
    by (auto simp: up_step_def CloseTimeout writes_def acks_def intro!: refines_with_outs split: UpPhase.split)
qed

lemma up_run_refines:
  "up_run u0 evs effs u \<Longrightarrow> up_fixed u = up_fixed u0 \<and>
     (\<exists>ls. data_path (fl_rev_data_id_aliases (up_flusher u0)) (up_data u0) ls (up_data u) \<and>
        issued_of ls = issued_chunks effs \<and> writes_of ls = writes evs \<and> acks_of ls = acks evs)"
proof (induction rule: up_run.induct)
  case up_run_start
  show ?case
    by (intro conjI exI [of _ "[]"] data_path_nil) (simp_all add: writes_def acks_def)
next
  case (up_run_step evs effs u mo ev u' effs')
  let ?als = "fl_rev_data_id_aliases (up_flusher u0)"
  have als: "fl_rev_data_id_aliases (up_flusher u) = ?als"
    using up_run_step.IH by (simp add: up_fixed_def del: up_fixed_up)
  obtain ls where ls: "data_path ?als (up_data u0) ls (up_data u)"
    "issued_of ls = issued_chunks effs" "writes_of ls = writes evs" "acks_of ls = acks evs"
    using up_run_step.IH by blast
  from up_step_refines [OF up_run_step.hyps(2), of u ev]
  obtain ls' where ls': "data_path ?als (up_data u) ls' (up_data u')" "up_fixed u' = up_fixed u"
    "issued_of ls' = issued_chunks effs'" "writes_of ls' = writes [ev]" "acks_of ls' = acks [ev]"
    unfolding refines_event_def up_run_step.hyps(3) option.case prod.case als by blast
  show ?case
    using ls ls' up_run_step.IH data_path_append [OF ls'(1) ls(1)]
    by (intro conjI exI [of _ "ls @ ls'"]) simp_all
qed

end
