(* ===== verification/Upstream_Props.thy ===== *)
theory Upstream_Props
  imports Upstream_Loop
begin

text \<open>
  The guarantees of an upstream: numbering, conservation and accounting of the data points,
  the store of unacknowledged chunks and what is resent, and the close handshake.  They are
  proved along the paths of the data machine and carried over to the runs of the loop.
\<close>

section \<open>What the chunks of a run hold\<close>

definition chunk_number :: "MsgUpstreamChunk \<Rightarrow> u32" where
  "chunk_number c = (case mup_stream_chunk c of Some sc \<Rightarrow> sc_sequence_number sc | None \<Rightarrow> 0)"

definition chunk_groups :: "MsgUpstreamChunk \<Rightarrow> MsgDataPointGroup list" where
  "chunk_groups c = (case mup_stream_chunk c of Some sc \<Rightarrow> sc_data_point_groups sc | None \<Rightarrow> [])"

definition group_count :: "MsgDataPointGroup list \<Rightarrow> nat" where
  "group_count gs = sum_list (map (\<lambda>g. length (mg_data_points g)) gs)"

definition points_issued :: "(u32, DataId) hash_map \<Rightarrow> DataId \<Rightarrow> MsgUpstreamChunk list \<Rightarrow> DataPoint list" where
  "points_issued aliases d cs = concat (map (\<lambda>c. group_points aliases d (chunk_groups c)) cs)"

definition points_written :: "DataId \<Rightarrow> (DataId \<times> DataPoint list) list \<Rightarrow> DataPoint list" where
  "points_written d ws = concat (map snd (filter (\<lambda>w. fst w = d) ws))"

definition count_issued :: "MsgUpstreamChunk list \<Rightarrow> nat" where
  "count_issued cs = sum_list (map (\<lambda>c. group_count (chunk_groups c)) cs)"

definition buffered_payload :: "DataPointGroup list \<Rightarrow> nat" where
  "buffered_payload gs = sum_list (map (\<lambda>g. payload_size (dpg_data_points g)) gs)"

text \<open>Collecting the points by key keeps their number.\<close>

definition entry_count :: "('k \<times> DataPoint list) list \<Rightarrow> nat" where
  "entry_count m = sum_list (map (\<lambda>e. length (snd e)) m)"

lemma entry_count_insert:
  "entry_count (hm_insert k v m) + (case map_of m k of Some old \<Rightarrow> length old | None \<Rightarrow> 0) =
     entry_count m + length v"
  by (induction k v m rule: hm_insert.induct) (auto simp: entry_count_def split: option.splits)

lemma entry_count_collect: "entry_count (collect_points m k dps) = entry_count m + length dps"
  using entry_count_insert [of k dps m] entry_count_insert [of k "the (map_of m k) @ dps" m]
  by (auto simp: collect_points_def split: option.splits)

lemma entry_count_collect_groups:
  "entry_count (collect_groups key gs) = sum_list (map (\<lambda>g. length (dpg_data_points g)) gs)"
  by (induction gs rule: rev_induct)
    (simp_all add: collect_groups_snoc entry_count_collect, simp add: collect_groups_def entry_count_def)

lemma entry_count_mset: "mset m' = mset m \<Longrightarrow> entry_count m' = entry_count m"
  unfolding entry_count_def sum_mset_sum_list [symmetric] mset_map by simp

lemma group_count_message:
  assumes "map_orders_ok mo"
  shows "group_count (points_for_message mo als gs) = sum_list (map (\<lambda>g. length (dpg_data_points g)) gs)"
proof -
  let ?c = "collect_groups (\<lambda>g. data_id_or_alias als (dpg_data_id g)) gs"
  have "group_count (points_for_message mo als gs) = entry_count (mo_alias mo ?c)"
    by (simp add: group_count_def points_for_message_def entry_count_def sort_points_def o_def case_prod_beta)
  also have "\<dots> = entry_count ?c"
    using assms by (intro entry_count_mset) (simp add: map_orders_ok_def)
  finally show ?thesis by (simp add: entry_count_collect_groups)
qed

section \<open>Invariants of the data machine\<close>

definition data_start :: "(u32, DataId) hash_map \<Rightarrow> UpstreamStorage \<Rightarrow> DataPath" where
  "data_start aliases sto = \<lparr>da_state = state_new aliases, da_storage = sto\<rparr>"

lemma data_numbers:
  "data_path als (data_start aliases sto) ls p \<Longrightarrow>
     map chunk_number (issued_of ls) = consecutive 1 (length (issued_of ls)) \<and>
     st_last_issued_sequence_number (da_state p) = of_nat (length (issued_of ls)) \<and>
     st_data_id_aliases (da_state p) = aliases"
proof (induction rule: data_path.induct)
  case (data_path_snoc ls p' ls' p'')
  from data_path_snoc.hyps(2) data_path_snoc.IH show ?case
    by cases (auto simp: chunk_number_def consecutive_def add.commute)
qed (simp add: data_start_def state_new_def)

lemma data_counts:
  "data_path als (data_start aliases sto) ls p \<Longrightarrow>
     st_total_data_points (da_state p) = of_nat (count_issued (issued_of ls)) \<and>
     st_buffer_payload_size (da_state p) = of_nat (buffered_payload (st_data_points_buffer (da_state p)))"
proof (induction rule: data_path.induct)
  case (data_path_snoc ls p' ls' p'')
  from data_path_snoc.hyps(2) data_path_snoc.IH show ?case
    by cases (auto simp: count_issued_def chunk_groups_def group_count_message buffered_payload_def)
qed (simp add: data_start_def state_new_def count_issued_def buffered_payload_def)

lemma data_conserves:
  "data_path als (data_start aliases sto) ls p \<Longrightarrow> aliases_ok als aliases \<Longrightarrow>
     mset (points_written d (writes_of ls)) =
     mset (points_issued aliases d (issued_of ls)) + mset (points_of d (st_data_points_buffer (da_state p)))"
proof (induction rule: data_path.induct)
  case (data_path_snoc ls p' ls' p'')
  from data_path_snoc.hyps(2) show ?case
  proof cases
    case (data_write st d' dps)
    with data_path_snoc.IH data_path_snoc.prems show ?thesis
      by (auto simp: points_written_def)
  next
    case (data_issue st gs mo chunk dpgs sto calls)
    have "group_points aliases d (chunk_groups chunk) = sort_points (points_of d gs)"
      using group_points_message [OF data_issue(6) data_path_snoc.prems] data_issue(7)
      by (simp add: chunk_groups_def)
    with data_path_snoc.IH data_path_snoc.prems data_issue show ?thesis
      by (simp add: points_issued_def sort_points_def)
  qed (use data_path_snoc.IH data_path_snoc.prems in simp_all)
qed (simp add: data_start_def state_new_def points_written_def points_issued_def)

definition acked_of :: "UpstreamChunkAck list \<Rightarrow> u32 list" where
  "acked_of as = concat (map acked_numbers as)"

lemma max_received_append: "max_received m (ns @ ns') = max_received (max_received m ns) ns'"
  by (simp add: max_received_def)

definition pending_ok :: "UpstreamStorage \<Rightarrow> DataLabel list \<Rightarrow> DataPath \<Rightarrow> bool" where
  "pending_ok sto ls p \<longleftrightarrow> storage_inv (da_storage p) \<and> storage_conf (da_storage p) = storage_conf sto \<and>
     us_last_received (da_storage p) = max_received None (acked_of (acks_of ls)) \<and>
     (\<forall>n c. map_of (us_chunks (da_storage p)) n = Some c \<longrightarrow>
        c \<in> set (issued_of ls) \<and> chunk_number c = n) \<and>
     (us_is_reliable sto \<longrightarrow> length (issued_of ls) < 2 ^ 32 \<longrightarrow>
        (\<forall>c \<in> set (issued_of ls). chunk_number c \<notin> set (acked_of (acks_of ls)) \<longrightarrow>
           map_of (us_chunks (da_storage p)) (chunk_number c) = Some c))"

lemma pending_issue:
  assumes "pending_ok sto ls p" and "add_chunk (da_storage p) chunk dpgs = Some (sto', calls)"
    and "map chunk_number (issued_of ls) = consecutive 1 (length (issued_of ls))"
    and "chunk_number chunk = 1 + of_nat (length (issued_of ls))"
  shows "pending_ok sto (ls @ [DIssue chunk]) (p\<lparr>da_state := st, da_storage := sto'\<rparr>)"
proof -
  have inv: "storage_inv (da_storage p)" using assms(1) by (simp add: pending_ok_def)
  note facts = add_chunk_facts [OF assms(2) inv]
  have rel: "us_is_reliable (da_storage p) = us_is_reliable sto"
    using assms(1) by (simp add: pending_ok_def storage_conf_def)
  have map: "map_of (us_chunks sto') = (if us_is_reliable sto
      then (map_of (us_chunks (da_storage p)))(chunk_number chunk \<mapsto> chunk)
      else map_of (us_chunks (da_storage p)))"
    using facts(4) rel by (auto simp: chunk_number_def)
  have new: "chunk_number c \<noteq> chunk_number chunk"
    if "c \<in> set (issued_of ls)" "length (issued_of ls) < 2 ^ 32" for c
  proof -
    have "chunk_number c \<in> set (consecutive 1 (length (issued_of ls)))"
      using that(1) assms(3) by (metis image_eqI set_map)
    with consecutive_not_mem [OF that(2), of 1] assms(4) show ?thesis by metis
  qed
  from assms(1) facts(1-3) map new show ?thesis
    by (auto simp: pending_ok_def storage_conf_def split: if_splits)
qed

lemma pending_ack:
  assumes "pending_ok sto ls p"
  shows "pending_ok sto (ls @ [DAck ack])
    (p\<lparr>da_storage := fst (storage_process_ack (da_storage p) ack)\<rparr>)"
proof -
  have inv: "storage_inv (da_storage p)" using assms by (simp add: pending_ok_def)
  from storage_process_ack_facts [OF inv, of ack] assms show ?thesis
    by (auto simp: pending_ok_def acked_of_def max_received_append restrict_map_def)
qed

lemma data_pending:
  "data_path als (data_start aliases sto) ls p \<Longrightarrow> storage_inv sto \<Longrightarrow> us_chunks sto = [] \<Longrightarrow>
     us_last_received sto = None \<Longrightarrow> pending_ok sto ls p"
proof (induction rule: data_path.induct)
  case data_path_nil
  then show ?case by (simp add: data_start_def pending_ok_def acked_of_def max_received_def)
next
  case (data_path_snoc ls p' ls' p'')
  then have IH: "pending_ok sto ls p'" by simp
  note nums = data_numbers [OF data_path_snoc.hyps(1)]
  from data_path_snoc.hyps(2) show ?case
  proof cases
    case (data_issue st gs mo chunk dpgs sto' calls)
    then show ?thesis
      using pending_issue [OF IH data_issue(8)] nums by (simp add: chunk_number_def add.commute)
  next
    case (data_ack ack)
    then show ?thesis using pending_ack [OF IH] by simp
  qed (use IH in \<open>simp_all add: pending_ok_def\<close>)
qed

section \<open>The runs of an upstream\<close>

lemma up_start_sel [simp]:
  "up_data (up_start config sid resp) = data_start (uor_data_id_aliases resp)
     (storage_new sid (ucfg_qos config) (ucfg_send_data_points_callback config) (ucfg_receive_ack_callback config))"
  "up_fixed (up_start config sid resp) =
     (hm_from_list (map (\<lambda>(k, v). (v, k)) (uor_data_id_aliases resp)), config, sid)"
  "up_phase (up_start config sid resp) = Resuming"
  by (simp_all add: up_start_def up_data_def abs_data_def data_start_def flusher_new_def up_fixed_def
      Let_def state_new_def del: abs_data_up up_fixed_up)

text \<open>The facts a run gives, in one place.\<close>

lemma run_facts:
  assumes "up_run (up_start config sid resp) evs effs u"
  obtains ls als where "up_fixed u = (als, config, sid)"
    "data_path als (data_start (uor_data_id_aliases resp)
       (storage_new sid (ucfg_qos config) (ucfg_send_data_points_callback config)
          (ucfg_receive_ack_callback config))) ls (up_data u)"
    "issued_of ls = issued_chunks effs" "writes_of ls = writes evs" "acks_of ls = acks evs"
    "hm_inv (uor_data_id_aliases resp) \<Longrightarrow> aliases_ok als (uor_data_id_aliases resp)"
proof -
  let ?als = "hm_from_list (map (\<lambda>(k, v). (v, k)) (uor_data_id_aliases resp))"
  have als: "fl_rev_data_id_aliases (up_flusher (up_start config sid resp)) = ?als"
    by (simp add: up_start_def flusher_new_def Let_def state_new_def)
  have ok: "aliases_ok ?als (uor_data_id_aliases resp)" if "hm_inv (uor_data_id_aliases resp)"
    using flusher_new_aliases_ok [of "up_inner (up_start config sid resp)"] that
    by (simp add: up_start_def flusher_new_def Let_def state_new_def)
  from up_run_refines [OF assms, unfolded als] that [of ?als, OF _ _ _ _ _ ok] show ?thesis
    by auto
qed

lemma run_conserves:
  assumes "hm_inv (uor_data_id_aliases resp)"
    and "up_run (up_start config sid resp) evs effs u"
  shows "mset (points_written d (writes evs)) =
    mset (points_issued (uor_data_id_aliases resp) d (issued_chunks effs)) +
    mset (points_of d (st_data_points_buffer (in_state (up_inner u))))"
proof -
  from run_facts [OF assms(2)] assms(1) obtain ls als where
    path: "data_path als (data_start (uor_data_id_aliases resp) (storage_new sid (ucfg_qos config)
       (ucfg_send_data_points_callback config) (ucfg_receive_ack_callback config))) ls (up_data u)"
    and eqs: "issued_of ls = issued_chunks effs" "writes_of ls = writes evs"
    and ok: "aliases_ok als (uor_data_id_aliases resp)" by metis
  from data_conserves [OF path ok, of d] show ?thesis
    unfolding eqs by (simp add: up_data_def abs_data_def del: abs_data_up)
qed

lemma run_numbers:
  assumes "up_run (up_start config sid resp) evs effs u"
  shows "map chunk_number (issued_chunks effs) = consecutive 1 (length (issued_chunks effs)) \<and>
    st_last_issued_sequence_number (in_state (up_inner u)) = of_nat (length (issued_chunks effs))"
proof -
  from run_facts [OF assms] obtain ls als where
    path: "data_path als (data_start (uor_data_id_aliases resp) (storage_new sid (ucfg_qos config)
       (ucfg_send_data_points_callback config) (ucfg_receive_ack_callback config))) ls (up_data u)"
    and eqs: "issued_of ls = issued_chunks effs" by metis
  from data_numbers [OF path] show ?thesis
    unfolding eqs by (simp add: up_data_def abs_data_def del: abs_data_up)
qed

section \<open>The close handshake\<close>

definition no_close :: "UpOut list \<Rightarrow> bool" where
  "no_close outs \<longleftrightarrow> (\<forall>m. SendClose m \<notin> set outs)"

definition no_send :: "UpOut list \<Rightarrow> bool" where
  "no_send outs \<longleftrightarrow> no_close outs \<and> (\<forall>q c. SendChunk q c \<notin> set outs)"

text \<open>A turn sends the close request last, with the counters of the state it leaves.\<close>

definition close_ok :: "(Up \<times> UpOut list) option \<Rightarrow> bool" where
  "close_ok r = (case r of None \<Rightarrow> True | Some (u', outs) \<Rightarrow>
     (\<forall>a m b. outs = a @ SendClose m # b \<longrightarrow> b = [] \<and> up_phase u' = Closing \<and>
        ucq_stream_id m = uuid_bytes (in_stream_id (up_inner u')) \<and>
        ucq_total_data_points m = st_total_data_points (in_state (up_inner u')) \<and>
        ucq_final_sequence_number m = st_last_issued_sequence_number (in_state (up_inner u'))))"

lemma close_ok_no_close [simp]: "no_close outs \<Longrightarrow> close_ok (Some (u, outs))"
  by (auto simp: close_ok_def no_close_def)

lemma close_ok_None [simp]: "close_ok None"
  by (simp add: close_ok_def)

lemma no_close_simps [simp]:
  "no_close []" "no_close (outs @ outs') \<longleftrightarrow> no_close outs \<and> no_close outs'"
  "no_close (out # outs) \<longleftrightarrow> (\<forall>m. out \<noteq> SendClose m) \<and> no_close outs"
  by (auto simp: no_close_def)

lemma no_send_simps [simp]:
  "no_send []" "no_send (outs @ outs') \<longleftrightarrow> no_send outs \<and> no_send outs'"
  by (auto simp: no_send_def)

lemma singleton_eq_append: "[x] = a @ y # b \<longleftrightarrow> a = [] \<and> y = x \<and> b = []"
  by (cases a) auto

lemma close_ok_prepend:
  assumes "no_close outs" and "close_ok r"
  shows "close_ok (prepend_outs outs r)"
proof (cases r)
  case (Some x)
  obtain u' outs' where x: "x = (u', outs')" by (cases x)
  have "\<exists>a'. a = outs @ a' \<and> outs' = a' @ SendClose m # b" if "outs @ outs' = a @ SendClose m # b" for a m b
    using that assms(1) by (auto simp: append_eq_append_conv2 append_eq_Cons_conv no_close_def)
  with assms(2) show ?thesis
    unfolding Some x close_ok_def prepend_outs_def option.map option.case prod.case by blast
qed (simp add: prepend_outs_def)

lemma take_and_store_no_send: "take_and_store mo inn fl = Some (inn', fl', c, outs) \<Longrightarrow> no_send outs"
  by (auto simp: take_and_store_def no_send_def no_close_def split: prod.splits option.splits)

lemma finish_no_send:
  assumes "up_finish mo u = Some (u', outs)"
  shows "no_send outs" and "up_phase u' = Finished" and "in_cancelled (up_inner u')"
proof -
  obtain inn fl c where t: "take_and_store mo ((up_inner u)\<lparr>in_cancelled := True\<rparr>) (up_flusher u) = Some (inn, fl, c, outs)"
    and u': "u' = u\<lparr>up_inner := inn, up_flusher := fl, up_phase := Finished\<rparr>"
    using assms unfolding up_finish_def process_remaining_data_points_def by (auto simp: map_option_case split: option.splits)
  have "\<exists>st. inn = (up_inner u)\<lparr>in_cancelled := True\<rparr>\<lparr>in_state := st\<rparr>"
    using t by (auto simp: take_and_store_def take_chunk_def Let_def split: if_splits option.splits)
  with take_and_store_no_send [OF t] show "no_send outs" "up_phase u' = Finished" "in_cancelled (up_inner u')"
    by (auto simp: u')
qed

lemma no_send_no_close: "no_send outs \<Longrightarrow> no_close outs"
  by (simp add: no_send_def)

lemma close_ok_finish [simp]: "close_ok (up_finish mo u)"
  using finish_no_send(1) [of mo u] by (cases "up_finish mo u") (auto simp: no_send_no_close)

lemma close_ok_retry [simp]: "close_ok (retry_or_finish mo need u)"
  by (simp add: retry_or_finish_def Let_def)

lemma close_ok_send_close [simp]: "close_ok (Some (send_close u))"
  by (auto simp: send_close_def close_message_def close_ok_def singleton_eq_append)

lemma close_ok_wait [simp]: "close_ok (Some (wait_last_ack n u))"
  by (simp add: wait_last_ack_def)

lemma flush_no_close: "flush mo wire inn fl = Some (inn', fl', r, outs) \<Longrightarrow> no_close outs"
proof -
  assume f: "flush mo wire inn fl = Some (inn', fl', r, outs)"
  then obtain i f' c outs' where t: "take_and_store mo inn fl = Some (i, f', c, outs')"
    by (auto simp: flush_def)
  with f take_and_store_no_send [OF t] show ?thesis
    by (cases c; cases wire) (auto simp: flush_def no_send_def no_close_def)
qed

lemma may_send_err_no_send: "may_send_err inn r = (inn', failed, answers) \<Longrightarrow> no_send answers"
  by (auto simp: may_send_err_def no_send_def no_close_def split: option.splits)

lemma close_ok_flush_turn: "close_ok (flush_turn mo close wire u)"
proof (cases "flush mo (Some wire) (up_inner u) (up_flusher u)")
  case (Some x)
  obtain inn fl result outs where x: "x = (inn, fl, result, outs)" by (cases x)
  obtain inn' failed answers where m: "may_send_err inn result = (inn', failed, answers)"
    by (cases "may_send_err inn result")
  show ?thesis
    unfolding flush_turn_def Some x bind.simps prod.case m Let_def
    by (rule close_ok_prepend)
      (use flush_no_close [OF Some [unfolded x]] may_send_err_no_send [OF m] in
        \<open>auto intro: no_send_no_close\<close>)
qed (simp add: flush_turn_def)

lemma close_ok_offline_flush: "close_ok (offline_flush mo u)"
proof (cases "flush mo None (up_inner u) (up_flusher u)")
  case (Some x)
  obtain inn fl result outs where x: "x = (inn, fl, result, outs)" by (cases x)
  obtain inn' failed answers where m: "may_send_err inn result = (inn', failed, answers)"
    by (cases "may_send_err inn result")
  show ?thesis
    unfolding offline_flush_def Some x bind.simps prod.case m Let_def
    by (rule close_ok_prepend)
      (use flush_no_close [OF Some [unfolded x]] may_send_err_no_send [OF m] in
        \<open>auto intro: no_send_no_close\<close>)
qed (simp add: offline_flush_def)

lemma send_all_no_close: "send_all q cs results = (r, outs) \<Longrightarrow> no_close outs"
  by (induction q cs results arbitrary: r outs rule: send_all.induct)
    (auto simp: no_close_def split: list.splits sum.splits prod.splits)

lemma close_ok_resend_turn: "close_ok (resend_turn mo results u)"
proof (cases "after_resume mo results (up_inner u) (up_flusher u)")
  case (Some x)
  obtain inn fl result outs where x: "x = (inn, fl, result, outs)" by (cases x)
  have "no_close outs"
    using Some x
    by (auto simp: after_resume_def Let_def split: if_splits prod.splits
        dest!: send_all_no_close take_and_store_no_send no_send_no_close)
  then show ?thesis
    unfolding resend_turn_def Some x bind.simps prod.case Let_def
    by (rule close_ok_prepend) (simp split: sum.splits)
qed (simp add: resend_turn_def)

lemma ack_turn_no_send: "ack_turn ack u = (u', outs) \<Longrightarrow> no_send outs"
  by (auto simp: ack_turn_def no_send_def no_close_def Let_def split: prod.splits)

definition close_event_ok :: "(Up \<times> UpEffect list) option \<Rightarrow> bool" where
  "close_event_ok r = (case r of None \<Rightarrow> True | Some (u', effs) \<Rightarrow>
     (\<forall>a m b. effs = a @ Out (SendClose m) # b \<longrightarrow> b = [] \<and> up_phase u' = Closing \<and>
        ucq_stream_id m = uuid_bytes (in_stream_id (up_inner u')) \<and>
        ucq_total_data_points m = st_total_data_points (in_state (up_inner u')) \<and>
        ucq_final_sequence_number m = st_last_issued_sequence_number (in_state (up_inner u'))))"

lemma close_event_no_close: "\<forall>m. Out (SendClose m) \<notin> set effs \<Longrightarrow> close_event_ok (Some (u, effs))"
  by (auto simp: close_event_ok_def)

lemma close_event_None [simp]: "close_event_ok None"
  by (simp add: close_event_ok_def)

lemma close_event_outs:
  assumes "close_ok r"
  shows "close_event_ok (with_outs r)"
proof (cases r)
  case (Some x)
  obtain u' outs where x: "x = (u', outs)" by (cases x)
  have "\<exists>a' b'. outs = a' @ SendClose m # b' \<and> b = map Out b'"
    if "map Out outs = a @ Out (SendClose m) # b" for a m b
    using that by (auto simp: map_eq_append_conv)
  with assms show ?thesis
    unfolding Some x close_ok_def close_event_ok_def with_outs_def option.map option.case prod.case
    by (metis list.simps(8))
qed (simp add: with_outs_def)

lemma close_event_resume: "close_event_ok (resume_event_turn mo ev u)"
proof -
  have "no_close outs" if "up_finish mo v = Some (v', outs)" for v v' outs
    using finish_no_send(1) [OF that] by (rule no_send_no_close)
  then show ?thesis
    unfolding resume_event_turn_def Let_def
    by (cases "resume_turn (up_inner u) (up_need_resume u) (up_token u) ev")
      (auto simp: no_close_def split: prod.splits TaskResult.splits
        intro!: close_event_no_close [THEN back_subst [of close_event_ok]] simp: map_option_case
        split: option.splits)
qed

lemma up_step_close: "close_event_ok (up_step mo u ev)"
proof (cases ev)
  case (AckReceived ack)
  obtain u1 outs where a: "ack_turn ack u = (u1, outs)" by (cases "ack_turn ack u")
  note quiet = no_send_no_close [OF ack_turn_no_send [OF a]]
  then show ?thesis
    by (auto simp: AckReceived up_step_def a split: UpPhase.split intro!: close_event_outs close_ok_prepend)
next
  case (CloseResponse r)
  obtain inn failed answers where m: "may_send_err (up_inner u) r = (inn, failed, answers)"
    by (cases "may_send_err (up_inner u) r")
  note quiet = no_send_no_close [OF may_send_err_no_send [OF m]]
  then show ?thesis
    by (auto simp: CloseResponse up_step_def m intro!: close_event_outs close_ok_prepend)
qed (auto simp: up_step_def client_flush_def client_close_def Let_def close_event_resume
      close_ok_flush_turn close_ok_offline_flush close_ok_resend_turn split: UpPhase.split prod.split
      intro!: close_event_outs close_event_no_close)

definition is_send :: "UpEffect \<Rightarrow> bool" where
  "is_send eff \<longleftrightarrow> (\<exists>q c. eff = Out (SendChunk q c)) \<or> (\<exists>m. eff = Out (SendClose m))"

lemma closed_quiet:
  assumes "up_step mo u ev = Some (u', effs)" and "up_phase u = Closing \<or> up_phase u = Finished"
  shows "up_phase u' = Closing \<or> up_phase u' = Finished" and "\<forall>eff \<in> set effs. \<not> is_send eff"
proof -
  have "(up_phase u' = Closing \<or> up_phase u' = Finished) \<and> (\<forall>eff \<in> set effs. \<not> is_send eff)"
  proof (cases "\<exists>r. ev = CloseResponse r")
    case True
    then obtain r inn failed answers outs where ev: "ev = CloseResponse r"
      and m: "may_send_err (up_inner u) r = (inn, failed, answers)"
      and f: "up_finish mo (u\<lparr>up_inner := inn\<rparr>) = Some (u', outs)" "effs = map Out (answers @ outs)"
      using assms(1)
      by (cases "may_send_err (up_inner u) (case ev of CloseResponse r \<Rightarrow> r)")
        (auto simp: up_step_def with_outs_def prepend_outs_def map_option_case Let_def
          split: if_splits option.splits)
    from finish_no_send [OF f(1)] may_send_err_no_send [OF m] f(2) show ?thesis
      by (auto simp: is_send_def no_send_def no_close_def)
  next
    case False
    with assms show ?thesis
      by (cases ev) (auto simp: up_step_def client_flush_def client_close_def Let_def is_send_def
          split: if_splits prod.splits)
  qed
  then show "up_phase u' = Closing \<or> up_phase u' = Finished" and "\<forall>eff \<in> set effs. \<not> is_send eff"
    by blast+
qed

section \<open>A concrete run\<close>

text \<open>Running a list of events, for the examples.\<close>

fun up_exec :: "MapOrders \<Rightarrow> Up \<Rightarrow> UpEvent list \<Rightarrow> (Up \<times> UpEffect list) option" where
  "up_exec mo u [] = Some (u, [])"
| "up_exec mo u (ev # evs) =
     (case up_step mo u ev of
        None \<Rightarrow> None
      | Some (u', effs) \<Rightarrow> map_option (\<lambda>(u'', effs'). (u'', effs @ effs')) (up_exec mo u' evs))"

lemma up_run_trans:
  "up_run u1 evs' effs' u2 \<Longrightarrow> up_run u0 evs effs u1 \<Longrightarrow> up_run u0 (evs @ evs') (effs @ effs') u2"
proof (induction rule: up_run.induct)
  case (up_run_step evs1 effs1 u mo ev u' effs2)
  then show ?case using up_run.up_run_step [of u0 "evs @ evs1" "effs @ effs1" u mo ev u' effs2] by simp
qed simp

lemma up_exec_run:
  "map_orders_ok mo \<Longrightarrow> up_exec mo u evs = Some (u', effs) \<Longrightarrow> up_run u evs effs u'"
proof (induction evs arbitrary: u effs)
  case (Cons ev evs)
  then obtain u1 effs1 effs2 where "up_step mo u ev = Some (u1, effs1)"
    and "up_exec mo u1 evs = Some (u', effs2)" and "effs = effs1 @ effs2"
    by (auto split: option.splits)
  with Cons up_run_trans [OF Cons.IH [of u1 effs2] up_run_step [OF up_run_start Cons.prems(1), of u ev u1 effs1]]
  show ?case by simp
qed (simp add: up_run_start)

definition a_orders :: MapOrders where
  "a_orders = \<lparr>mo_data_id = (\<lambda>m. m), mo_alias = (\<lambda>m. m)\<rparr>"

definition a_response :: UpstreamOpenResponse where
  "a_response = \<lparr>uor_request_id = 2, uor_assigned_stream_id = [], uor_assigned_stream_id_alias = 5,
     uor_data_id_aliases = [(1, \<lparr>did_name = ''n'', did_type = ''t''\<rparr>)], uor_server_time = 0,
     uor_result_code = 1, uor_result_string = ''OK'', uor_extension_fields = None,
     uor_resume_token = ''t0''\<rparr>"

definition an_upstream :: Up where
  "an_upstream = up_start (upstream_config_default\<lparr>ucfg_qos := Reliable, ucfg_flush_policy := Immediately\<rparr>)
     (Uuid []) a_response"

definition a_point :: "nat \<Rightarrow> DataPoint" where
  "a_point n = \<lparr>dp_elapsed_time = of_nat n, dp_payload = [1, 2]\<rparr>"

text \<open>Connect, write, flush, lose the connection, resume with another alias.\<close>

definition a_day :: "UpEvent list" where
  "a_day = [Resume (AddUpstream (Inr ())), Resent [],
     Write \<lparr>did_name = ''n'', did_type = ''t''\<rparr> [a_point 7, a_point 3], Notified (Inr ()),
     AckClosed, Resume (GetUpdated (Inr ())), Resume (RequestResume (Inr (9, ''t1''))),
     Resume (AddUpstream (Inr ()))]"

definition a_night :: "Up \<times> UpEffect list" where
  "a_night = the (up_exec a_orders an_upstream a_day)"

lemma a_orders_ok [simp]: "map_orders_ok a_orders"
  by (simp add: a_orders_def map_orders_ok_def)

lemmas up_eval = up_step_def write_data_points_def need_flush_def resume_event_turn_def resume_turn_def
  resend_turn_def after_resume_def iter_chunks_def flush_turn_def flush_def take_and_store_def
  take_chunk_def add_chunk_def may_send_err_def prepend_outs_def with_outs_def take_permit_def
  retry_or_finish_def points_for_message_def points_for_callback_def collect_groups_def
  collect_points_def data_id_or_alias_def sort_points_def payload_size_def Let_def

lemmas a_day_eval = a_day_def an_upstream_def up_start_def a_response_def upstream_config_default_def
  state_new_def flusher_new_def storage_new_def a_orders_def a_point_def up_eval
  hm_from_list_def flush_policy_default_def secs_def millis_def

lemma a_day_runs: "up_exec a_orders an_upstream a_day \<noteq> None"
  by (simp add: a_day_eval)

lemma a_run: "up_run an_upstream a_day (snd a_night) (fst a_night)"
proof -
  obtain u effs where "up_exec a_orders an_upstream a_day = Some (u, effs)"
    using a_day_runs by auto
  then show ?thesis by (auto simp: a_night_def intro: up_exec_run [OF a_orders_ok])
qed

lemma a_night_facts:
  "up_phase (fst a_night) = Resending" "in_stream_id_alias (up_inner (fst a_night)) = 9"
  "map mup_stream_id_alias (issued_chunks (snd a_night)) = [5]"
  "map chunk_number (issued_chunks (snd a_night)) = [1]"
  "map mup_stream_id_alias (iter_chunks (fl_storage (up_flusher (fst a_night)))) = [5]"
  by (simp_all add: a_night_def a_day_eval issued_chunks_def issued_outs_def chunk_number_def)

text \<open>A chunk taken from a buffer with two points.\<close>

definition a_full_buffer :: UpstreamInner where
  "a_full_buffer = fst (write_data_points (up_inner an_upstream)
     \<lparr>did_name = ''n'', did_type = ''t''\<rparr> [a_point 7, a_point 3])"

definition a_taken :: "MsgUpstreamChunk \<times> DataPointGroup list" where
  "a_taken = the (snd (snd (take_chunk a_orders a_full_buffer (up_flusher an_upstream))))"

lemma a_taken_eq:
  "take_chunk a_orders a_full_buffer (up_flusher an_upstream) =
     (fst (take_chunk a_orders a_full_buffer (up_flusher an_upstream)),
      fst (snd (take_chunk a_orders a_full_buffer (up_flusher an_upstream))),
      Some (fst a_taken, snd a_taken))"
proof -
  have "snd (snd (take_chunk a_orders a_full_buffer (up_flusher an_upstream))) \<noteq> None"
    by (simp add: a_full_buffer_def a_day_eval)
  then show ?thesis by (auto simp: a_taken_def prod_eq_iff)
qed

text \<open>Connect, write, close: the run up to the wait for the last acknowledgement.\<close>

definition an_evening :: "UpEvent list" where
  "an_evening = [Resume (AddUpstream (Inr ())), Resent [],
     Write \<lparr>did_name = ''n'', did_type = ''t''\<rparr> [a_point 7, a_point 3],
     Close 1 (Some \<lparr>close_session = True\<rparr>), Cancelled (Inr ())]"

definition a_goodbye :: "Up \<times> UpEffect list" where
  "a_goodbye = the (up_exec a_orders an_upstream an_evening)"

definition a_close_request :: UpstreamCloseRequest where
  "a_close_request = \<lparr>ucq_request_id = 0, ucq_stream_id = [], ucq_total_data_points = 2,
     ucq_final_sequence_number = 1, ucq_extension_fields = Some \<lparr>ucef_close_session = True\<rparr>\<rparr>"

lemmas an_evening_eval = a_goodbye_def an_evening_def a_day_eval client_close_def wait_last_ack_def
  send_close_def close_message_def a_close_request_def

lemma an_evening_run: "up_run an_upstream an_evening (snd a_goodbye) (fst a_goodbye)"
proof -
  have "up_exec a_orders an_upstream an_evening \<noteq> None" by (simp add: an_evening_eval)
  then obtain u effs where "up_exec a_orders an_upstream an_evening = Some (u, effs)" by auto
  then show ?thesis by (auto simp: a_goodbye_def intro: up_exec_run [OF a_orders_ok])
qed

lemma a_goodbye_step:
  "up_step a_orders (fst a_goodbye) CloseTimeout =
     Some ((fst a_goodbye)\<lparr>up_inner := (up_inner (fst a_goodbye))\<lparr>in_close_opts := None\<rparr>, up_phase := Closing\<rparr>,
       [Out (SendClose a_close_request)])"
  by (simp add: an_evening_eval)

text \<open>A write after the close request.\<close>

definition a_farewell :: "UpEffect list" where
  "a_farewell = [Returned (Inl StreamClosed)]"

definition a_late_end :: "Up \<times> UpEffect list" where
  "a_late_end = the (up_step a_orders
     ((fst a_goodbye)\<lparr>up_inner := (up_inner (fst a_goodbye))\<lparr>in_close_opts := None\<rparr>, up_phase := Closing\<rparr>)
     (Write \<lparr>did_name = ''n'', did_type = ''t''\<rparr> [a_point 9]))"

lemma a_late_write:
  "up_step a_orders
     ((fst a_goodbye)\<lparr>up_inner := (up_inner (fst a_goodbye))\<lparr>in_close_opts := None\<rparr>, up_phase := Closing\<rparr>)
     (Write \<lparr>did_name = ''n'', did_type = ''t''\<rparr> [a_point 9]) = Some (fst a_late_end, a_farewell)"
  by (simp add: a_late_end_def an_evening_eval a_farewell_def write_data_points_def)

lemma a_farewell_run:
  "up_run an_upstream ((an_evening @ [CloseTimeout]) @ [Write \<lparr>did_name = ''n'', did_type = ''t''\<rparr> [a_point 9]])
     (snd a_goodbye @ Out (SendClose a_close_request) # a_farewell) (fst a_late_end)"
  using up_run_step [OF up_run_step [OF an_evening_run a_orders_ok a_goodbye_step] a_orders_ok a_late_write]
  by simp

section \<open>Properties\<close>

text \<open>
  C2: no data point is lost, duplicated or moved to another data id by the buffering: along
  every run of the upstream (writes, flushes, acknowledgements, lost connections, resumes,
  close, in any order), the points written for a data id are, as a multiset, those in the
  chunks issued so far, read with the assigned data id aliases, and those still buffered.
\<close>

theorem upstream_conserves_points:
  assumes "hm_inv (uor_data_id_aliases resp)"
    and "up_run (up_start config sid resp) evs effs u"
  shows "mset (points_written d (writes evs)) =
    mset (points_issued (uor_data_id_aliases resp) d (issued_chunks effs)) +
    mset (points_of d (st_data_points_buffer (in_state (up_inner u))))"
  using assms by (rule run_conserves)

theorem upstream_conserves_points_witness:
  "mset (points_written \<lparr>did_name = ''n'', did_type = ''t''\<rparr> (writes a_day)) =
    mset (points_issued (uor_data_id_aliases a_response) \<lparr>did_name = ''n'', did_type = ''t''\<rparr>
      (issued_chunks (snd a_night))) +
    mset (points_of \<lparr>did_name = ''n'', did_type = ''t''\<rparr>
      (st_data_points_buffer (in_state (up_inner (fst a_night)))))"
  by (rule upstream_conserves_points [OF _ a_run [unfolded an_upstream_def]]) (simp add: a_response_def)

text \<open>
  C3: the chunks of an upstream are numbered 1, 2, 3, ... (modulo \<open>2 ^ 32\<close>) without gaps or
  repetitions, across resumes and failures, and the last issued sequence number is their
  number.
\<close>

theorem upstream_sequence_numbers:
  assumes "up_run (up_start config sid resp) evs effs u"
  shows "map chunk_number (issued_chunks effs) = consecutive 1 (length (issued_chunks effs)) \<and>
    st_last_issued_sequence_number (in_state (up_inner u)) = of_nat (length (issued_chunks effs))"
  using assms by (rule run_numbers)

theorem upstream_sequence_numbers_witness:
  "map chunk_number (issued_chunks (snd a_night)) = consecutive 1 (length (issued_chunks (snd a_night))) \<and>
    st_last_issued_sequence_number (in_state (up_inner (fst a_night))) =
      of_nat (length (issued_chunks (snd a_night)))"
  by (rule upstream_sequence_numbers [OF a_run [unfolded an_upstream_def]])

text \<open>
  The counters an upstream reports are exact modulo their width: the total of data points
  is the number of points in the issued chunks, the buffer payload size is the payload of the
  buffered points.
\<close>

theorem upstream_counters:
  assumes "up_run (up_start config sid resp) evs effs u"
  shows "st_total_data_points (in_state (up_inner u)) = of_nat (count_issued (issued_chunks effs)) \<and>
    st_buffer_payload_size (in_state (up_inner u)) =
      of_nat (buffered_payload (st_data_points_buffer (in_state (up_inner u))))"
proof -
  from run_facts [OF assms] obtain ls als where
    path: "data_path als (data_start (uor_data_id_aliases resp) (storage_new sid (ucfg_qos config)
       (ucfg_send_data_points_callback config) (ucfg_receive_ack_callback config))) ls (up_data u)"
    and eqs: "issued_of ls = issued_chunks effs" by metis
  from data_counts [OF path] show ?thesis
    unfolding eqs by (simp add: up_data_def abs_data_def del: abs_data_up)
qed

theorem upstream_counters_witness:
  "st_total_data_points (in_state (up_inner (fst a_night))) =
      of_nat (count_issued (issued_chunks (snd a_night))) \<and>
    st_buffer_payload_size (in_state (up_inner (fst a_night))) =
      of_nat (buffered_payload (st_data_points_buffer (in_state (up_inner (fst a_night)))))"
  by (rule upstream_counters [OF a_run [unfolded an_upstream_def]])

lemma run_config:
  assumes "up_run (up_start config sid resp) evs effs u"
  shows "in_config (up_inner u) = config" and "in_stream_id (up_inner u) = sid"
proof -
  have "up_fixed u = (hm_from_list (map (\<lambda>(k, v). (v, k)) (uor_data_id_aliases resp)), config, sid)"
    using conjunct1 [OF up_run_refines [OF assms]] by simp
  then show "in_config (up_inner u) = config" and "in_stream_id (up_inner u) = sid"
    by (simp_all add: up_fixed_def del: up_fixed_up)
qed

lemma run_pending:
  assumes "up_run (up_start config sid resp) evs effs u"
  obtains ls where "pending_ok (storage_new sid (ucfg_qos config)
      (ucfg_send_data_points_callback config) (ucfg_receive_ack_callback config)) ls (up_data u)"
    and "issued_of ls = issued_chunks effs" and "acks_of ls = acks evs"
proof -
  from run_facts [OF assms] obtain ls als where
    path: "data_path als (data_start (uor_data_id_aliases resp) (storage_new sid (ucfg_qos config)
       (ucfg_send_data_points_callback config) (ucfg_receive_ack_callback config))) ls (up_data u)"
    and eqs: "issued_of ls = issued_chunks effs" "acks_of ls = acks evs" by metis
  from data_pending [OF path] that [OF _ eqs] show ?thesis by simp
qed

lemma storage_new_reliable: "us_is_reliable (storage_new sid q a b) \<longleftrightarrow> q = Reliable"
  by (simp add: storage_new_def)

lemma stored_unacked:
  assumes "up_run (up_start config sid resp) evs effs u"
  shows "(ucfg_qos config = Reliable \<longrightarrow> length (issued_chunks effs) < 2 ^ 32 \<longrightarrow>
      (\<forall>c \<in> set (issued_chunks effs). chunk_number c \<notin> set (acked_of (acks evs)) \<longrightarrow>
        c \<in> set (iter_chunks (fl_storage (up_flusher u))))) \<and>
    set (iter_chunks (fl_storage (up_flusher u))) \<subseteq> set (issued_chunks effs) \<and>
    sorted_wrt (<) (map chunk_number (iter_chunks (fl_storage (up_flusher u)))) \<and>
    us_last_received (fl_storage (up_flusher u)) =
      (if acked_of (acks evs) = [] then None else Some (Max (set (acked_of (acks evs)))))"
proof -
  let ?sto = "fl_storage (up_flusher u)"
  from run_pending [OF assms] obtain ls where
    ok: "pending_ok (storage_new sid (ucfg_qos config)
      (ucfg_send_data_points_callback config) (ucfg_receive_ack_callback config)) ls (up_data u)"
    and eqs: "issued_of ls = issued_chunks effs" "acks_of ls = acks evs" by metis
  have sto: "da_storage (up_data u) = ?sto" by (simp add: up_data_def abs_data_def del: abs_data_up)
  have inv: "bt_inv (us_chunks ?sto)" using ok by (simp add: pending_ok_def storage_inv_def sto)
  have mem: "(n, c) \<in> set (us_chunks ?sto) \<Longrightarrow> c \<in> set (issued_chunks effs) \<and> chunk_number c = n" for n c
    using ok eqs by (simp add: pending_ok_def sto bt_inv_distinct [OF inv])
  have numbers: "map chunk_number (iter_chunks ?sto) = map fst (us_chunks ?sto)"
    using mem by (auto simp: iter_chunks_def)
  have stored: "c \<in> set (iter_chunks ?sto)" if "map_of (us_chunks ?sto) n = Some c" for n c
    using map_of_SomeD [OF that] by (force simp: iter_chunks_def)
  have pend: "\<forall>c \<in> set (issued_chunks effs). chunk_number c \<notin> set (acked_of (acks evs)) \<longrightarrow>
        map_of (us_chunks ?sto) (chunk_number c) = Some c"
    if "ucfg_qos config = Reliable" "length (issued_chunks effs) < 2 ^ 32"
    using ok that unfolding pending_ok_def sto eqs storage_new_reliable by blast
  have "us_last_received ?sto = max_received None (acked_of (acks evs))"
    using ok unfolding pending_ok_def sto eqs by blast
  moreover have "set (iter_chunks ?sto) \<subseteq> set (issued_chunks effs)"
    using mem by (auto simp: iter_chunks_def)
  moreover have "sorted_wrt (<) (map chunk_number (iter_chunks ?sto))"
    using inv by (simp add: numbers bt_inv_def)
  ultimately show ?thesis
    using pend stored by (simp add: max_received_None) blast
qed

text \<open>
  C8: the store of a reliable upstream holds what may have to be resent: every issued chunk
  whose number no acknowledgement has named (while fewer than \<open>2 ^ 32\<close> chunks were issued), and
  only issued chunks, in ascending order; the last received number is the highest acknowledged.
\<close>

theorem upstream_store_pending:
  assumes "up_run (up_start config sid resp) evs effs u"
  shows "(ucfg_qos config = Reliable \<longrightarrow> length (issued_chunks effs) < 2 ^ 32 \<longrightarrow>
      (\<forall>c \<in> set (issued_chunks effs). chunk_number c \<notin> set (acked_of (acks evs)) \<longrightarrow>
        c \<in> set (iter_chunks (fl_storage (up_flusher u))))) \<and>
    set (iter_chunks (fl_storage (up_flusher u))) \<subseteq> set (issued_chunks effs) \<and>
    sorted_wrt (<) (map chunk_number (iter_chunks (fl_storage (up_flusher u)))) \<and>
    us_last_received (fl_storage (up_flusher u)) =
      (if acked_of (acks evs) = [] then None else Some (Max (set (acked_of (acks evs)))))"
  by (rule stored_unacked [OF assms])

theorem upstream_store_pending_witness:
  "ucfg_qos (in_config (up_inner an_upstream)) = Reliable \<and> length (issued_chunks (snd a_night)) < 2 ^ 32 \<and>
    set (issued_chunks (snd a_night)) \<subseteq> set (iter_chunks (fl_storage (up_flusher (fst a_night))))"
proof -
  have "acked_of (acks a_day) = []" by (simp add: acks_def a_day_def acked_of_def)
  moreover have "length (issued_chunks (snd a_night)) < 2 ^ 32"
    using arg_cong [OF a_night_facts(4), of length] by simp
  moreover have "ucfg_qos (in_config (up_inner an_upstream)) = Reliable"
    by (simp add: an_upstream_def up_start_def Let_def)
  ultimately show ?thesis
    using upstream_store_pending [OF a_run [unfolded an_upstream_def]] by auto
qed

lemma send_all_success:
  "\<forall>r \<in> set results. r = Inr () \<Longrightarrow> send_all q cs results = (Inr (), map (SendChunk q) cs)"
proof (induction q cs results rule: send_all.induct)
  case (2 q c cs results)
  have "\<forall>r \<in> set (tl results). r = Inr ()" using 2(3) by (cases results) auto
  with 2(1,2) 2(3) show ?case by (cases results) (auto split: sum.splits)
qed simp

text \<open>
  C9: after a resume a reliable upstream resends, in order, every issued chunk that was not
  acknowledged, when the connection takes them all.
\<close>

theorem upstream_resends_pending:
  assumes "up_run (up_start config sid resp) evs effs u" and "ucfg_qos config = Reliable"
    and "up_phase u = Resending" and "\<forall>r \<in> set results. r = Inr ()"
    and "length (issued_chunks effs) < 2 ^ 32"
  shows "\<exists>u' effs'. up_step mo u (Resent results) = Some (u', effs') \<and> up_phase u' = Flushing \<and>
    (\<forall>c \<in> set (issued_chunks effs). chunk_number c \<notin> set (acked_of (acks evs)) \<longrightarrow>
      Out (SendChunk Reliable c) \<in> set effs')"
proof -
  have "in_config (up_inner u) = config" by (rule run_config [OF assms(1)])
  moreover have "\<forall>c \<in> set (issued_chunks effs). chunk_number c \<notin> set (acked_of (acks evs)) \<longrightarrow>
      c \<in> set (iter_chunks (fl_storage (up_flusher u)))"
    using conjunct1 [OF stored_unacked [OF assms(1)]] assms(2,5) by blast
  ultimately show ?thesis
    using assms(2,3) send_all_success [OF assms(4)]
    by (auto simp: up_step_def resend_turn_def after_resume_def Let_def with_outs_def prepend_outs_def)
qed

theorem upstream_resends_pending_witness:
  "\<exists>u' effs'. up_step a_orders (fst a_night) (Resent [Inr ()]) = Some (u', effs') \<and>
    up_phase u' = Flushing \<and>
    (\<forall>c \<in> set (issued_chunks (snd a_night)). chunk_number c \<notin> set (acked_of (acks a_day)) \<longrightarrow>
      Out (SendChunk Reliable c) \<in> set effs')"
proof (rule upstream_resends_pending [OF a_run [unfolded an_upstream_def]])
  show "length (issued_chunks (snd a_night)) < 2 ^ 32"
    using arg_cong [OF a_night_facts(4), of length] by simp
qed (simp_all add: a_night_facts)

text \<open>
  C31: what one chunk holds: for every data id the buffered points of that id in stable order of
  elapsed time, in a single group, whatever the iteration order of the hash maps; the groups
  given to the callback hold the same points under their data ids.
\<close>

theorem take_chunk_content:
  assumes "map_orders_ok mo" and "aliases_ok (fl_rev_data_id_aliases fl) aliases"
    and "take_chunk mo inn fl = (inn', fl', Some (chunk, callback))"
  shows "distinct (map mg_data_id_or_alias (chunk_groups chunk)) \<and>
    group_points aliases d (chunk_groups chunk) =
      sort_points (points_of d (st_data_points_buffer (in_state inn))) \<and>
    (ucfg_send_data_points_callback (in_config inn) \<longrightarrow>
      points_of d callback = sort_points (points_of d (st_data_points_buffer (in_state inn)))) \<and>
    st_data_points_buffer (in_state inn') = []"
proof -
  have "chunk_groups chunk =
      points_for_message mo (fl_rev_data_id_aliases fl) (st_data_points_buffer (in_state inn))"
    and "callback = (if ucfg_send_data_points_callback (in_config inn)
      then points_for_callback mo (st_data_points_buffer (in_state inn)) else [])"
    and "st_data_points_buffer (in_state inn') = []"
    using assms(3) by (auto simp: take_chunk_def Let_def chunk_groups_def split: if_splits)
  then show ?thesis
    using group_points_message [OF assms(1,2)] points_of_callback [OF assms(1)]
      distinct_groups [OF assms(1)] by simp
qed

text \<open>
  The close request an upstream sends reports what it issued: its stream id, the number of
  chunks as the final sequence number and the number of points in them (modulo their width).
\<close>

theorem close_request_reports:
  assumes "up_run (up_start config sid resp) evs effs u" and "map_orders_ok mo"
    and "up_step mo u ev = Some (u', effs')" and "Out (SendClose m) \<in> set effs'"
  shows "ucq_stream_id m = uuid_bytes sid \<and>
    ucq_final_sequence_number m = of_nat (length (issued_chunks (effs @ effs'))) \<and>
    ucq_total_data_points m = of_nat (count_issued (issued_chunks (effs @ effs')))"
proof -
  note run = up_run_step [OF assms(1-3)]
  obtain a b where "effs' = a @ Out (SendClose m) # b" using assms(4) by (auto dest: split_list)
  with up_step_close [of mo u ev] have m: "ucq_stream_id m = uuid_bytes (in_stream_id (up_inner u'))"
      "ucq_total_data_points m = st_total_data_points (in_state (up_inner u'))"
      "ucq_final_sequence_number m = st_last_issued_sequence_number (in_state (up_inner u'))"
    unfolding close_event_ok_def assms(3) option.case prod.case by blast+
  from run_facts [OF run] obtain ls als where
    path: "data_path als (data_start (uor_data_id_aliases resp) (storage_new sid (ucfg_qos config)
       (ucfg_send_data_points_callback config) (ucfg_receive_ack_callback config))) ls (up_data u')"
    and eqs: "issued_of ls = issued_chunks (effs @ effs')" by metis
  from data_counts [OF path] data_numbers [OF path] run_config(2) [OF run] m show ?thesis
    unfolding eqs by (simp add: up_data_def abs_data_def del: abs_data_up)
qed

lemma closed_phase:
  "up_run u0 evs effs u \<Longrightarrow> Out (SendClose m) \<in> set effs \<Longrightarrow> up_phase u = Closing \<or> up_phase u = Finished"
proof (induction rule: up_run.induct)
  case (up_run_step evs effs u mo ev u' effs')
  show ?case
  proof (cases "Out (SendClose m) \<in> set effs")
    case True
    with up_run_step.IH closed_quiet(1) [OF up_run_step.hyps(3)] show ?thesis by blast
  next
    case False
    then have "Out (SendClose m) \<in> set effs'" using up_run_step.prems by simp
    then obtain a b where "effs' = a @ Out (SendClose m) # b" by (auto dest: split_list)
    with up_step_close [of mo u ev] show ?thesis
      unfolding close_event_ok_def up_run_step.hyps(3) option.case prod.case by blast
  qed
qed simp

lemma sends_before_close:
  "up_run u0 evs effs u \<Longrightarrow> effs = before @ Out (SendClose m) # after \<Longrightarrow> \<forall>eff \<in> set after. \<not> is_send eff"
proof (induction arbitrary: after rule: up_run.induct)
  case (up_run_step evs effs u mo ev u' effs')
  from up_run_step.prems consider
      (old) after' where "effs = before @ Out (SendClose m) # after'" "after = after' @ effs'"
    | (new) before' where "effs' = before' @ Out (SendClose m) # after"
    by (auto simp: append_eq_append_conv2 append_eq_Cons_conv Cons_eq_append_conv)
  then show ?case
  proof cases
    case old
    have "up_phase u = Closing \<or> up_phase u = Finished"
      by (rule closed_phase [OF up_run_step.hyps(1), of m]) (simp add: old)
    with old up_run_step.IH [OF old(1)] closed_quiet(2) [OF up_run_step.hyps(3)] show ?thesis
      by auto
  next
    case new
    with up_step_close [of mo u ev] have "after = []"
      unfolding close_event_ok_def up_run_step.hyps(3) option.case prod.case by blast
    then show ?thesis by simp
  qed
qed simp

text \<open>
  C30: an upstream sends at most one close request, and no chunk after it.
\<close>

theorem nothing_sent_after_close:
  assumes "up_run u0 evs (before @ Out (SendClose m) # after) u"
  shows "list_all (\<lambda>eff. \<not> is_send eff) after"
  using sends_before_close [OF assms refl] by (simp add: list_all_iff)

theorem nothing_sent_after_close_witness:
  "list_all (\<lambda>eff. \<not> is_send eff) a_farewell"
  by (rule nothing_sent_after_close [OF a_farewell_run])

theorem close_request_reports_witness:
  "ucq_stream_id a_close_request = uuid_bytes (Uuid []) \<and>
    ucq_final_sequence_number a_close_request =
      of_nat (length (issued_chunks (snd a_goodbye @ [Out (SendClose a_close_request)]))) \<and>
    ucq_total_data_points a_close_request =
      of_nat (count_issued (issued_chunks (snd a_goodbye @ [Out (SendClose a_close_request)])))"
  by (rule close_request_reports [OF an_evening_run [unfolded an_upstream_def] a_orders_ok a_goodbye_step])
    simp

theorem take_chunk_content_witness:
  "distinct (map mg_data_id_or_alias (chunk_groups (fst a_taken))) \<and>
    group_points [(1, \<lparr>did_name = ''n'', did_type = ''t''\<rparr>)] \<lparr>did_name = ''n'', did_type = ''t''\<rparr>
      (chunk_groups (fst a_taken)) =
      sort_points (points_of \<lparr>did_name = ''n'', did_type = ''t''\<rparr>
        (st_data_points_buffer (in_state a_full_buffer)))"
proof -
  have "aliases_ok (fl_rev_data_id_aliases (up_flusher an_upstream)) [(1, \<lparr>did_name = ''n'', did_type = ''t''\<rparr>)]"
    by (simp add: aliases_ok_def a_day_eval)
  from take_chunk_content [OF a_orders_ok this a_taken_eq] show ?thesis by blast
qed

text \<open>
  What a write does: the points are buffered and the payload size grows in every case; after
  the upstream was cancelled the client still gets \<open>StreamClosed\<close>, otherwise a flush is asked
  for exactly when the policy wants one at the new size.
\<close>

theorem write_data_points_effect:
  "\<exists>inn' r. write_data_points inn d dps = (inn', r) \<and>
    st_data_points_buffer (in_state inn') =
      st_data_points_buffer (in_state inn) @ [\<lparr>dpg_data_id = d, dpg_data_points = dps\<rparr>] \<and>
    (r = Inl StreamClosed \<longleftrightarrow> in_cancelled inn) \<and> (r = Inr () \<longleftrightarrow> \<not> in_cancelled inn) \<and>
    (in_notify_flush inn' \<longleftrightarrow> in_notify_flush inn \<or> \<not> in_cancelled inn \<and>
       (ucfg_flush_policy (in_config inn) = Immediately \<or>
        (\<exists>b. flush_buffer_size (ucfg_flush_policy (in_config inn)) = Some b \<and>
           b \<le> st_buffer_payload_size (in_state inn'))))"
  by (auto simp: write_data_points_def Let_def need_flush_iff)

text \<open>
  A chunk that is resent after a resume keeps the stream id alias of its first sending: in
  this run the upstream has been given alias 9, and the connection gets the chunk with alias 5.
\<close>

theorem resend_keeps_old_alias:
  "\<exists>u effs u' effs' c. up_run an_upstream a_day effs u \<and> in_stream_id_alias (up_inner u) = 9 \<and>
    up_step a_orders u (Resent []) = Some (u', effs') \<and>
    Out (SendChunk Reliable c) \<in> set effs' \<and> mup_stream_id_alias c = 5"
proof -
  let ?u = "fst a_night"
  obtain c where c: "iter_chunks (fl_storage (up_flusher ?u)) = [c]" "mup_stream_id_alias c = 5"
    using a_night_facts(5) by (auto simp: map_eq_Cons_conv)
  have "ucfg_qos (in_config (up_inner ?u)) = Reliable"
    by (simp add: run_config(1) [OF a_run [unfolded an_upstream_def]])
  then obtain u' effs' where "up_step a_orders ?u (Resent []) = Some (u', effs')"
    "Out (SendChunk Reliable c) \<in> set effs'"
    using c(1) a_night_facts(1)
    by (auto simp: up_step_def resend_turn_def after_resume_def Let_def with_outs_def prepend_outs_def)
  with a_run a_night_facts(2) c(2) show ?thesis by blast
qed

text \<open>
  The resume token stored by a successful resume is not the one the same task sends next:
  when the connection is lost again before the upstream is registered, the request repeats the
  token that was already used.
\<close>

theorem resume_repeats_old_token:
  assumes "ucfg_expiry_interval (in_config inn) \<noteq> 0" and "in_resume_token inn = t0" and "t0 \<noteq> []"
  shows "\<exists>inn1 req req'.
    resume_turn inn True [] (RequestResume (Inr (a, t1))) = Some (inn1, False, t0, TaskContinue, [req]) \<and>
    in_resume_token inn1 = t1 \<and>
    resume_turn inn1 False t0 (GetUpdated (Inr ())) = Some (inn1, True, t0, TaskContinue, []) \<and>
    (\<forall>r. \<exists>inn2 need res. resume_turn inn1 True t0 (RequestResume r) = Some (inn2, need, t0, res, [req'])) \<and>
    urq_resume_token req' = t0"
proof (rule exI, rule exI, rule exI, intro conjI allI)
  let ?req = "\<lparr>urq_request_id = 0, urq_stream_id = uuid_bytes (in_stream_id inn),
    urq_extension_fields = None, urq_resume_token = t0\<rparr>"
  let ?inn1 = "inn\<lparr>in_stream_id_alias := a, in_resume_token := t1\<rparr>"
  show "resume_turn inn True [] (RequestResume (Inr (a, t1))) = Some (?inn1, False, t0, TaskContinue, [?req])"
    using assms by (simp add: resume_turn_def Let_def)
  show "in_resume_token ?inn1 = t1" and "urq_resume_token ?req = t0" by simp_all
  show "resume_turn ?inn1 False t0 (GetUpdated (Inr ())) = Some (?inn1, True, t0, TaskContinue, [])"
    by (simp add: resume_turn_def)
  show "\<exists>inn2 need res. resume_turn ?inn1 True t0 (RequestResume r) = Some (inn2, need, t0, res, [?req])" for r
    using assms by (cases r) (auto simp: resume_turn_def Let_def)
qed

theorem resume_repeats_old_token_witness:
  "\<exists>inn1 req req'.
    resume_turn (up_inner an_upstream) True [] (RequestResume (Inr (9, ''t1''))) =
      Some (inn1, False, ''t0'', TaskContinue, [req]) \<and>
    in_resume_token inn1 = ''t1'' \<and>
    resume_turn inn1 False ''t0'' (GetUpdated (Inr ())) = Some (inn1, True, ''t0'', TaskContinue, []) \<and>
    (\<forall>r. \<exists>inn2 need res.
       resume_turn inn1 True ''t0'' (RequestResume r) = Some (inn2, need, ''t0'', res, [req'])) \<and>
    urq_resume_token req' = ''t0''"
  by (rule resume_repeats_old_token)
    (simp_all add: an_upstream_def up_start_def a_response_def upstream_config_default_def secs_def Let_def)

end
