(* ===== verification/Down_State.thy ===== *)
theory Down_State
  imports Types
begin

text \<open>
  The state of a downstream (\<open>iscp/down_state.rs\<close>): the data id aliases it opened with, the
  aliases it gives to the upstreams it hears of, and what the next acknowledgement will report.
  \<open>add_upstream_info\<close> is \<open>None\<close> where the source panics (all \<open>2 ^ 32\<close> aliases issued).
\<close>

record DownState =
  ds_data_id_aliases :: "(u32, DataId) hash_map"
  ds_infos :: "(u32, UpstreamInfo) hash_map"
  ds_for_ack :: "(u32, MsgUpstreamInfo) hash_map"
  ds_last_issued_upstream_info_alias :: "u32 option"
  ds_last_issued_chunk_ack_id :: "u32 option"
  ds_results :: "DownstreamChunkResult list"

record DownstreamState =
  dst_data_id_aliases :: "(u32, DataId) hash_map"
  dst_last_issued_data_id_alias :: "u32 option"
  dst_upstream_infos :: "(u32, UpstreamInfo) hash_map"
  dst_last_issued_upstream_info_alias :: "u32 option"
  dst_last_issued_chunk_ack_id :: "u32 option"

definition down_state_new :: "(u32, DataId) hash_map \<Rightarrow> DownState" where
  "down_state_new data_id_aliases =
     \<lparr>ds_data_id_aliases = data_id_aliases, ds_infos = [], ds_for_ack = [],
      ds_last_issued_upstream_info_alias = None, ds_last_issued_chunk_ack_id = None, ds_results = []\<rparr>"

definition success_result :: "Uuid \<Rightarrow> u32 \<Rightarrow> DownstreamChunkResult" where
  "success_result stream_id sequence_number =
     \<lparr>dcrs_stream_id_of_upstream = uuid_bytes stream_id,
      dcrs_sequence_number_in_upstream = sequence_number,
      dcrs_result_code = result_code_i32 Succeeded, dcrs_result_string = ''OK'',
      dcrs_extension_fields = None\<rparr>"

definition add_sequence_number :: "DownState \<Rightarrow> Uuid \<Rightarrow> u32 \<Rightarrow> DownState" where
  "add_sequence_number s stream_id sequence_number =
     s\<lparr>ds_results := ds_results s @ [success_result stream_id sequence_number]\<rparr>"

definition next_info_alias :: "DownState \<Rightarrow> u32 option" where
  "next_info_alias s =
     (case ds_last_issued_upstream_info_alias s of
        None \<Rightarrow> Some 0
      | Some alias \<Rightarrow> if alias = - 1 then None else Some (alias + 1))"

definition info_message :: "UpstreamInfo \<Rightarrow> MsgUpstreamInfo" where
  "info_message i = \<lparr>mui_session_id = ui_session_id i, mui_stream_id = uuid_bytes (ui_stream_id i),
     mui_source_node_id = ui_source_node_id i\<rparr>"

definition add_upstream_info ::
  "DownState \<Rightarrow> MsgUpstreamInfo \<Rightarrow> (DownState \<times> UpstreamInfo res) option" where
  "add_upstream_info s m =
     (case parse_stream_id (mui_stream_id m) of
        Inl e \<Rightarrow> Some (s, Inl e)
      | Inr stream_id \<Rightarrow>
          let info = \<lparr>ui_session_id = mui_session_id m, ui_stream_id = stream_id,
                ui_source_node_id = mui_source_node_id m\<rparr>
          in (case List.find (\<lambda>(_, v). v = info) (ds_infos s) of
                Some (_, v) \<Rightarrow> Some (s, Inr v)
              | None \<Rightarrow>
                  (case next_info_alias s of
                     None \<Rightarrow> None
                   | Some alias \<Rightarrow>
                       Some (s\<lparr>ds_last_issued_upstream_info_alias := Some alias,
                           ds_infos := hm_insert alias info (ds_infos s),
                           ds_for_ack := hm_insert alias (info_message info) (ds_for_ack s)\<rparr>,
                         Inr info))))"

definition get_upstream_info :: "DownState \<Rightarrow> u32 \<Rightarrow> UpstreamInfo res" where
  "get_upstream_info s alias =
     (case map_of (ds_infos s) alias of
        Some i \<Rightarrow> Inr i
      | None \<Rightarrow> Inl (InvalidValue
          (''unknown upstream info alias ('' @ show_nat (unat alias) @ '')'')))"

definition take_ack :: "DownState \<Rightarrow> u32 \<Rightarrow> DownState \<times> DownstreamChunkAck option" where
  "take_ack s stream_id_alias =
     (let results = ds_results s; upstream_aliases = ds_for_ack s;
          s = s\<lparr>ds_results := [], ds_for_ack := []\<rparr>
      in if results = [] \<and> upstream_aliases = [] then (s, None)
         else
           let ack_id = (case ds_last_issued_chunk_ack_id s of Some n \<Rightarrow> n + 1 | None \<Rightarrow> 0)
           in (s\<lparr>ds_last_issued_chunk_ack_id := Some ack_id\<rparr>,
               Some \<lparr>dca_stream_id_alias = stream_id_alias, dca_ack_id = ack_id,
                 dca_results = results, dca_upstream_aliases = upstream_aliases,
                 dca_data_id_aliases = [], dca_extension_fields = None\<rparr>))"

definition get_data_id :: "DownState \<Rightarrow> u32 \<Rightarrow> DataId option" where
  "get_data_id s alias = map_of (ds_data_id_aliases s) alias"

definition max_key :: "('k::linorder \<times> 'v) list \<Rightarrow> 'k option" where
  "max_key m = (case map fst m of [] \<Rightarrow> None | k # ks \<Rightarrow> Some (fold max ks k))"

definition down_state :: "DownState \<Rightarrow> DownstreamState" where
  "down_state s =
     \<lparr>dst_data_id_aliases = ds_data_id_aliases s,
      dst_last_issued_data_id_alias = max_key (ds_data_id_aliases s),
      dst_upstream_infos = ds_infos s,
      dst_last_issued_upstream_info_alias = ds_last_issued_upstream_info_alias s,
      dst_last_issued_chunk_ack_id = ds_last_issued_chunk_ack_id s\<rparr>"

section \<open>Runs of the operations\<close>

text \<open>The operations the downstream loop performs on the state, and what they hand out.\<close>

datatype DownOp = AddInfo MsgUpstreamInfo | AddNumber Uuid u32 | TakeAck u32

fun down_op :: "DownState \<Rightarrow> DownOp \<Rightarrow> (DownState \<times> DownstreamChunkAck list) option" where
  "down_op s (AddInfo m) = map_option (\<lambda>(s', _). (s', [])) (add_upstream_info s m)"
| "down_op s (AddNumber u n) = Some (add_sequence_number s u n, [])"
| "down_op s (TakeAck a) = (case take_ack s a of (s', ack) \<Rightarrow>
     Some (s', case ack of None \<Rightarrow> [] | Some k \<Rightarrow> [k]))"

inductive down_run :: "DownState \<Rightarrow> DownOp list \<Rightarrow> DownstreamChunkAck list \<Rightarrow> DownState \<Rightarrow> bool"
  for s0 where
  down_run_nil: "down_run s0 [] [] s0"
| down_run_snoc: "down_run s0 ops acks s \<Longrightarrow> down_op s op = Some (s', acks') \<Longrightarrow>
    down_run s0 (ops @ [op]) (acks @ acks') s'"

inductive_cases down_run_snocE: "down_run s0 (ops @ [op]) acks s"

section \<open>Invariant\<close>

text \<open>
  The aliases issued are \<open>0, 1, ..., n - 1\<close> for the \<open>n\<close> distinct upstreams known, and what is
  waiting to be acknowledged is part of them.
\<close>

definition next_nat :: "u32 option \<Rightarrow> nat" where
  "next_nat l = (case l of None \<Rightarrow> 0 | Some a \<Rightarrow> Suc (unat a))"

definition down_inv :: "DownState \<Rightarrow> bool" where
  "down_inv s \<longleftrightarrow> hm_inv (ds_infos s) \<and> hm_inv (ds_for_ack s) \<and> distinct (map snd (ds_infos s)) \<and>
     (\<forall>a. map_of (ds_infos s) a \<noteq> None \<longleftrightarrow> unat a < next_nat (ds_last_issued_upstream_info_alias s)) \<and>
     (\<forall>a m. map_of (ds_for_ack s) a = Some m \<longrightarrow>
        (\<exists>i. map_of (ds_infos s) a = Some i \<and> m = info_message i)) \<and>
     (\<forall>i \<in> set (map snd (ds_infos s)). uuid_valid (ui_stream_id i))"

lemma down_state_new_inv [simp]: "down_inv (down_state_new aliases)"
  by (simp add: down_state_new_def down_inv_def next_nat_def)

lemma next_info_alias_Some:
  "next_info_alias s = Some a \<Longrightarrow> unat a = next_nat (ds_last_issued_upstream_info_alias s)"
  by (auto simp: next_info_alias_def next_nat_def unat_plus_one split: option.splits if_splits)

lemma add_sequence_number_inv [simp]: "down_inv (add_sequence_number s u n) \<longleftrightarrow> down_inv s"
  by (simp add: add_sequence_number_def down_inv_def)

lemma take_ack_inv: "down_inv s \<Longrightarrow> down_inv (fst (take_ack s a))"
  by (auto simp: take_ack_def Let_def down_inv_def)

text \<open>What \<open>add_upstream_info\<close> does, in three cases.\<close>

lemma add_upstream_info_cases:
  assumes "add_upstream_info s m = Some (s', r)"
  obtains (bad) e where "parse_stream_id (mui_stream_id m) = Inl e" "s' = s" "r = Inl e"
  | (known) i a where "(a, i) \<in> set (ds_infos s)" "s' = s" "r = Inr i" "info_message i = m"
      "uuid_valid (ui_stream_id i)"
  | (fresh) i a where "i \<notin> set (map snd (ds_infos s))" "next_info_alias s = Some a"
      "s' = s\<lparr>ds_last_issued_upstream_info_alias := Some a, ds_infos := hm_insert a i (ds_infos s),
         ds_for_ack := hm_insert a m (ds_for_ack s)\<rparr>"
      "r = Inr i" "info_message i = m" "uuid_valid (ui_stream_id i)"
proof (cases "parse_stream_id (mui_stream_id m)")
  case (Inl e)
  with assms bad show ?thesis by (simp add: add_upstream_info_def)
next
  case (Inr u)
  let ?i = "\<lparr>ui_session_id = mui_session_id m, ui_stream_id = u, ui_source_node_id = mui_source_node_id m\<rparr>"
  have u: "u = Uuid (mui_stream_id m)" "uuid_valid u"
    using Inr by (simp_all add: parse_stream_id_Inr uuid_valid_def)
  then have msg: "info_message ?i = m" by (simp add: info_message_def)
  show ?thesis
  proof (cases "List.find (\<lambda>(_, v). v = ?i) (ds_infos s)")
    case (Some e)
    then have "(fst e, ?i) \<in> set (ds_infos s)" "snd e = ?i" by (auto simp: find_Some_iff in_set_conv_nth)
    with assms Inr Some known [of "fst e" ?i] msg u show ?thesis
      by (auto simp: add_upstream_info_def Let_def split: prod.splits)
  next
    case None
    then have "?i \<notin> set (map snd (ds_infos s))" by (auto simp: find_None_iff)
    with assms Inr None fresh [of ?i] msg u show ?thesis
      by (auto simp: add_upstream_info_def Let_def split: option.splits)
  qed
qed

lemma add_upstream_info_inv:
  assumes "down_inv s" and "add_upstream_info s m = Some (s', r)"
  shows "down_inv s'"
  using assms(2)
proof (cases rule: add_upstream_info_cases)
  case (fresh i a)
  have a: "unat a = next_nat (ds_last_issued_upstream_info_alias s)" by (rule next_info_alias_Some [OF fresh(2)])
  have none: "map_of (ds_infos s) a = None"
    using assms(1) a unfolding down_inv_def by (metis less_irrefl)
  have keys: "hm_inv (ds_infos s @ [(a, i)])"
    using hm_insert_inv [of "ds_infos s" a i] none assms(1) by (simp add: hm_insert_fresh down_inv_def)
  have dom: "map_of (ds_infos s') b \<noteq> None \<longleftrightarrow> unat b < Suc (unat a)" for b
    using assms(1) a word_unat_eq_iff [of b a] by (auto simp: fresh down_inv_def less_Suc_eq)
  have "map_of (ds_for_ack s') b = Some m' \<Longrightarrow> \<exists>j. map_of (ds_infos s') b = Some j \<and> m' = info_message j" for b m'
    using assms(1) fresh(5) none by (auto simp: fresh(3) down_inv_def split: if_splits)
  moreover have "next_nat (ds_last_issued_upstream_info_alias s') = Suc (unat a)"
    by (simp add: fresh next_nat_def)
  ultimately show ?thesis
    using assms(1) fresh(1,6) none dom keys by (auto simp: fresh(3) down_inv_def hm_insert_fresh)
qed (use assms(1) in simp_all)

lemma down_op_inv: "down_inv s \<Longrightarrow> down_op s op = Some (s', acks) \<Longrightarrow> down_inv s'"
  by (cases op) (auto dest: add_upstream_info_inv simp: take_ack_inv split: prod.splits
      dest!: arg_cong [of _ _ fst])

lemma down_run_inv: "down_run s0 ops acks s \<Longrightarrow> down_inv s0 \<Longrightarrow> down_inv s"
  by (induction rule: down_run.induct) (auto dest: down_op_inv)

section \<open>What the acknowledgements report\<close>

fun numbers_of :: "DownOp list \<Rightarrow> DownstreamChunkResult list" where
  "numbers_of [] = []"
| "numbers_of (AddNumber u n # ops) = success_result u n # numbers_of ops"
| "numbers_of (_ # ops) = numbers_of ops"

lemma numbers_of_append [simp]: "numbers_of (ops @ ops') = numbers_of ops @ numbers_of ops'"
  by (induction ops rule: numbers_of.induct) simp_all

definition announced :: "(u32, UpstreamInfo) hash_map \<Rightarrow> (u32 \<times> MsgUpstreamInfo) multiset" where
  "announced infos = mset (map (\<lambda>(a, i). (a, info_message i)) infos)"

definition ack_state_ok :: "DownOp list \<Rightarrow> DownstreamChunkAck list \<Rightarrow> DownState \<Rightarrow> bool" where
  "ack_state_ok ops acks s \<longleftrightarrow>
     concat (map dca_results acks) @ ds_results s = numbers_of ops \<and>
     mset (concat (map dca_upstream_aliases acks)) + mset (ds_for_ack s) = announced (ds_infos s) \<and>
     map dca_ack_id acks = consecutive 0 (length acks) \<and>
     ds_last_issued_chunk_ack_id s = (if acks = [] then None else Some (of_nat (length acks - 1)))"

lemma add_upstream_info_ack_state:
  assumes "ack_state_ok ops acks s" and "down_inv s" and "add_upstream_info s m = Some (s', r)"
  shows "ack_state_ok (ops @ [AddInfo m]) acks s'"
  using assms(3)
proof (cases rule: add_upstream_info_cases)
  case (fresh i a)
  have none: "map_of (ds_infos s) a = None" "map_of (ds_for_ack s) a = None"
    using assms(2) next_info_alias_Some [OF fresh(2)] unfolding down_inv_def
    by (metis less_irrefl, metis less_irrefl not_None_eq)
  with assms(1) fresh(3,5) show ?thesis
    by (simp add: ack_state_ok_def hm_insert_fresh announced_def)
qed (use assms(1) in \<open>simp_all add: ack_state_ok_def\<close>)

lemma take_ack_state:
  assumes "ack_state_ok ops acks s" and "take_ack s a = (s', ack)"
  shows "ack_state_ok (ops @ [TakeAck a]) (acks @ (case ack of None \<Rightarrow> [] | Some k \<Rightarrow> [k])) s'"
proof (cases ack)
  case None
  with assms show ?thesis by (auto simp: take_ack_def Let_def ack_state_ok_def split: if_splits)
next
  case (Some k)
  then have k: "dca_results k = ds_results s" "dca_upstream_aliases k = ds_for_ack s"
    "dca_ack_id k = (case ds_last_issued_chunk_ack_id s of Some n \<Rightarrow> n + 1 | None \<Rightarrow> 0)"
    "s' = s\<lparr>ds_results := [], ds_for_ack := [], ds_last_issued_chunk_ack_id := Some (dca_ack_id k)\<rparr>"
    using assms(2) by (auto simp: take_ack_def Let_def split: if_splits)
  have id: "dca_ack_id k = of_nat (length acks)"
    using assms(1) by (cases acks rule: rev_cases) (auto simp: k(3) ack_state_ok_def)
  have "consecutive 0 (Suc (length acks)) = consecutive 0 (length acks) @ [of_nat (length acks)]"
    by (simp add: consecutive_def)
  with assms(1) show ?thesis
    by (simp add: Some k(1,2,4) ack_state_ok_def id)
qed

lemma down_run_ack_state:
  "down_run s0 ops acks s \<Longrightarrow> s0 = down_state_new aliases \<Longrightarrow> ack_state_ok ops acks s"
proof (induction rule: down_run.induct)
  case down_run_nil
  then show ?case by (simp add: ack_state_ok_def announced_def down_state_new_def)
next
  case (down_run_snoc ops acks s op s' acks')
  have inv: "down_inv s" by (rule down_run_inv [OF down_run_snoc.hyps(1)]) (simp add: down_run_snoc.prems)
  have IH: "ack_state_ok ops acks s" by (rule down_run_snoc.IH [OF down_run_snoc.prems])
  show ?case
  proof (cases op)
    case (AddInfo m)
    with down_run_snoc.hyps(2) add_upstream_info_ack_state [OF IH inv] show ?thesis by auto
  next
    case (AddNumber u n)
    with down_run_snoc.hyps(2) IH show ?thesis
      by (auto simp: ack_state_ok_def add_sequence_number_def)
  next
    case (TakeAck a)
    with down_run_snoc.hyps(2) take_ack_state [OF IH, of a] show ?thesis
      by (cases "take_ack s a") auto
  qed
qed

section \<open>A concrete run\<close>

definition an_info :: MsgUpstreamInfo where
  "an_info = \<lparr>mui_session_id = ''s'', mui_stream_id = replicate 16 7, mui_source_node_id = ''n''\<rparr>"

definition some_ops :: "DownOp list" where
  "some_ops = [AddInfo an_info, AddNumber (Uuid (replicate 16 7)) 3, TakeAck 9, AddInfo an_info]"

fun down_exec :: "DownState \<Rightarrow> DownOp list \<Rightarrow> (DownState \<times> DownstreamChunkAck list) option" where
  "down_exec s [] = Some (s, [])"
| "down_exec s (op # ops) =
     (case down_op s op of
        None \<Rightarrow> None
      | Some (s', acks) \<Rightarrow> map_option (\<lambda>(s'', acks'). (s'', acks @ acks')) (down_exec s' ops))"

lemma down_run_cons:
  "down_run s1 ops acks s2 \<Longrightarrow> down_op s0 op = Some (s1, acks0) \<Longrightarrow> down_run s0 (op # ops) (acks0 @ acks) s2"
proof (induction rule: down_run.induct)
  case down_run_nil
  from down_run_snoc [OF down_run.down_run_nil down_run_nil] show ?case by simp
next
  case (down_run_snoc ops acks s op' s' acks')
  from down_run.down_run_snoc [OF down_run_snoc.IH [OF down_run_snoc.prems] down_run_snoc.hyps(2)]
  show ?case by simp
qed

lemma down_exec_run: "down_exec s ops = Some (s', acks) \<Longrightarrow> down_run s ops acks s'"
  by (induction ops arbitrary: s acks)
    (auto intro: down_run_nil down_run_cons split: option.splits)

definition some_end :: "DownState \<times> DownstreamChunkAck list" where
  "some_end = the (down_exec (down_state_new []) some_ops)"

lemma some_run: "down_run (down_state_new []) some_ops (snd some_end) (fst some_end)"
proof -
  have "down_exec (down_state_new []) some_ops \<noteq> None"
    by (simp add: some_ops_def an_info_def down_state_new_def add_upstream_info_def parse_stream_id_def
        uuid_from_slice_def next_info_alias_def add_sequence_number_def take_ack_def Let_def)
  then obtain s acks where "down_exec (down_state_new []) some_ops = Some (s, acks)" by auto
  then show ?thesis by (simp add: some_end_def down_exec_run)
qed

section \<open>Properties\<close>

text \<open>
  C34: every upstream the downstream hears of gets one alias, and every alias is announced
  exactly once: the aliases known are the numbers below a bound, no two of them stand for equal
  upstreams, and the announcements in acknowledgements, with those waiting for the next one,
  are one per alias.
\<close>

theorem upstream_aliases_announced_once:
  assumes "down_run (down_state_new aliases) ops acks s"
  shows "mset (concat (map dca_upstream_aliases acks)) + mset (ds_for_ack s) = announced (ds_infos s) \<and>
    distinct (map fst (ds_infos s)) \<and> distinct (map snd (ds_infos s)) \<and>
    (\<forall>a. map_of (ds_infos s) a \<noteq> None \<longleftrightarrow> unat a < length (ds_infos s))"
proof -
  have inv: "down_inv s" by (rule down_run_inv [OF assms]) simp
  let ?n = "next_nat (ds_last_issued_upstream_info_alias s)"
  have n: "?n \<le> 2 ^ 32"
    using unat_u32_less by (auto simp: next_nat_def Suc_le_eq split: option.splits)
  have "dom (map_of (ds_infos s)) = of_nat ` {..<?n}"
  proof
    show "dom (map_of (ds_infos s)) \<subseteq> of_nat ` {..<?n}"
      using inv unfolding down_inv_def by (auto intro!: image_eqI [of _ _ "unat x" for x])
    show "of_nat ` {..<?n} \<subseteq> dom (map_of (ds_infos s))"
      using inv n unfolding down_inv_def by (auto simp: unat_of_nat take_bit_nat_eq_self)
  qed
  moreover have "inj_on (of_nat :: nat \<Rightarrow> u32) {..<?n}"
    using n by (auto intro!: inj_onI dest: of_nat_u32_inj)
  ultimately have len: "length (ds_infos s) = ?n"
    using inv by (simp add: hm.len_of_card down_inv_def card_image)
  have "map_of (ds_infos s) a \<noteq> None \<longleftrightarrow> unat a < length (ds_infos s)" for a
    using inv unfolding down_inv_def len by blast
  moreover have "distinct (map fst (ds_infos s))" "distinct (map snd (ds_infos s))"
    using inv by (simp_all add: down_inv_def hm_inv_def)
  ultimately show ?thesis
    using down_run_ack_state [OF assms refl] unfolding ack_state_ok_def by blast
qed

theorem upstream_aliases_announced_once_witness:
  "mset (concat (map dca_upstream_aliases (snd some_end))) + mset (ds_for_ack (fst some_end)) =
      announced (ds_infos (fst some_end)) \<and>
    distinct (map fst (ds_infos (fst some_end))) \<and> distinct (map snd (ds_infos (fst some_end))) \<and>
    (\<forall>a. map_of (ds_infos (fst some_end)) a \<noteq> None \<longleftrightarrow> unat a < length (ds_infos (fst some_end)))"
  by (rule upstream_aliases_announced_once [OF some_run])

end
