(* ===== verification/Metadata.thy ===== *)
theory Metadata
  imports Types
begin

text \<open>
  Metadata (\<open>iscp/metadata.rs\<close>): the client's metadata types, their conversion from the
  received message and the conversion of a base time to the message sent.  A \<open>SystemTime\<close> is
  the number of nanoseconds since the Unix epoch, negative before it.
\<close>

record BaseTime =
  bt_session_id :: string
  bt_name :: string
  bt_priority :: u32
  bt_elapsed_time :: duration
  bt_base_time :: int

record UpstreamOpen =
  uo_stream_id :: Uuid
  uo_session_id :: string
  uo_qos :: QoS

record UpstreamAbnormalClose =
  uac_stream_id :: Uuid
  uac_session_id :: string

record UpstreamResume =
  ur_stream_id :: Uuid
  ur_session_id :: string
  ur_qos :: QoS

record UpstreamNormalClose =
  unc_stream_id :: Uuid
  unc_session_id :: string
  unc_total_data_points :: u64
  unc_final_sequence_number :: u32

record DownstreamOpen =
  do_stream_id :: Uuid
  do_downstream_filters :: "DownstreamFilter list"
  do_qos :: QoS

record DownstreamAbnormalClose =
  dac_stream_id :: Uuid

record DownstreamResume =
  dr_stream_id :: Uuid
  dr_downstream_filters :: "DownstreamFilter list"
  dr_qos :: QoS

record DownstreamNormalClose =
  dnc_stream_id :: Uuid

datatype SendableMetadata = SM_BaseTime BaseTime

datatype ReceivableMetadata =
  RM_BaseTime BaseTime
| RM_UpstreamOpen UpstreamOpen
| RM_UpstreamAbnormalClose UpstreamAbnormalClose
| RM_UpstreamResume UpstreamResume
| RM_UpstreamNormalClose UpstreamNormalClose
| RM_DownstreamOpen DownstreamOpen
| RM_DownstreamAbnormalClose DownstreamAbnormalClose
| RM_DownstreamResume DownstreamResume
| RM_DownstreamNormalClose DownstreamNormalClose

record DownstreamMetadata =
  dmd_source_node_id :: string
  dmd_metadata :: ReceivableMetadata

definition from_prost :: "DownMetadata \<Rightarrow> ReceivableMetadata res" where
  "from_prost md =
     (case md of
        DM_BaseTime m \<Rightarrow>
          res_bind (unix_epoch_to_system_time (mbt_base_time m)) (\<lambda>base_time.
            Inr (RM_BaseTime \<lparr>bt_session_id = mbt_session_id m, bt_name = mbt_name m,
              bt_priority = mbt_priority m, bt_elapsed_time = unat (mbt_elapsed_time m),
              bt_base_time = base_time\<rparr>))
      | DM_UpstreamOpen m \<Rightarrow>
          res_bind (parse_stream_id (muo_stream_id m)) (\<lambda>i.
          res_bind (from_qos_i32 (muo_qos m)) (\<lambda>q.
            Inr (RM_UpstreamOpen \<lparr>uo_stream_id = i, uo_session_id = muo_session_id m, uo_qos = q\<rparr>)))
      | DM_UpstreamAbnormalClose m \<Rightarrow>
          res_bind (parse_stream_id (muac_stream_id m)) (\<lambda>i.
            Inr (RM_UpstreamAbnormalClose \<lparr>uac_stream_id = i, uac_session_id = muac_session_id m\<rparr>))
      | DM_UpstreamResume m \<Rightarrow>
          res_bind (parse_stream_id (mur_stream_id m)) (\<lambda>i.
          res_bind (from_qos_i32 (mur_qos m)) (\<lambda>q.
            Inr (RM_UpstreamResume \<lparr>ur_stream_id = i, ur_session_id = mur_session_id m, ur_qos = q\<rparr>)))
      | DM_UpstreamNormalClose m \<Rightarrow>
          res_bind (parse_stream_id (munc_stream_id m)) (\<lambda>i.
            Inr (RM_UpstreamNormalClose \<lparr>unc_stream_id = i, unc_session_id = munc_session_id m,
              unc_total_data_points = munc_total_data_points m,
              unc_final_sequence_number = munc_final_sequence_number m\<rparr>))
      | DM_DownstreamOpen m \<Rightarrow>
          res_bind (parse_stream_id (mdo_stream_id m)) (\<lambda>i.
          res_bind (from_qos_i32 (mdo_qos m)) (\<lambda>q.
            Inr (RM_DownstreamOpen \<lparr>do_stream_id = i,
              do_downstream_filters = mdo_downstream_filters m, do_qos = q\<rparr>)))
      | DM_DownstreamAbnormalClose m \<Rightarrow>
          res_bind (parse_stream_id (mdac_stream_id m)) (\<lambda>i.
            Inr (RM_DownstreamAbnormalClose \<lparr>dac_stream_id = i\<rparr>))
      | DM_DownstreamResume m \<Rightarrow>
          res_bind (parse_stream_id (mdr_stream_id m)) (\<lambda>i.
          res_bind (from_qos_i32 (mdr_qos m)) (\<lambda>q.
            Inr (RM_DownstreamResume \<lparr>dr_stream_id = i,
              dr_downstream_filters = mdr_downstream_filters m, dr_qos = q\<rparr>)))
      | DM_DownstreamNormalClose m \<Rightarrow>
          res_bind (parse_stream_id (mdnc_stream_id m)) (\<lambda>i.
            Inr (RM_DownstreamNormalClose \<lparr>dnc_stream_id = i\<rparr>)))"

definition base_time_message :: "BaseTime \<Rightarrow> MsgBaseTime" where
  "base_time_message b =
     \<lparr>mbt_session_id = bt_session_id b, mbt_name = bt_name b, mbt_priority = bt_priority b,
      mbt_elapsed_time = of_nat (bt_elapsed_time b), mbt_base_time = of_int (bt_base_time b)\<rparr>"

definition convert_to_upstream_metadata :: "SendableMetadata \<Rightarrow> UpstreamMetadata res" where
  "convert_to_upstream_metadata md =
     (case md of SM_BaseTime b \<Rightarrow>
        if 2 ^ 64 \<le> bt_elapsed_time b then Inl (InvalidValue ''elapsed_time overflow'')
        else if bt_base_time b < 0
        then Inl (InvalidValue ''second time provided was later than self'')
        else if 2 ^ 63 \<le> bt_base_time b then Inl (InvalidValue ''elapsed_time overflow'')
        else Inr \<lparr>mum_request_id = 0, mum_extension_fields = None,
          mum_metadata = Some (UM_BaseTime (base_time_message b))\<rparr>)"

text \<open>The request that \<open>MetadataSender::send\<close> makes of it.\<close>

definition metadata_request :: "SendableMetadata \<Rightarrow> bool option \<Rightarrow> UpstreamMetadata res" where
  "metadata_request md persist =
     res_bind (convert_to_upstream_metadata md) (\<lambda>request.
       Inr (case persist of
              None \<Rightarrow> request
            | Some p \<Rightarrow> request\<lparr>mum_extension_fields := Some \<lparr>umef_persist = p\<rparr>\<rparr>))"

section \<open>Properties\<close>

lemma sint_of_int_i64: "- (2 ^ 63) \<le> i \<Longrightarrow> i < 2 ^ 63 \<Longrightarrow> sint (of_int i :: i64) = i"
  by (simp add: signed_of_int signed_take_bit_int_eq_self)

lemma unat_of_nat_u64: "n < 2 ^ 64 \<Longrightarrow> unat (of_nat n :: u64) = n"
  by (simp add: unat_of_nat take_bit_nat_eq_self)

lemma from_prost_base_time:
  "bt_elapsed_time b < 2 ^ 64 \<Longrightarrow> 0 \<le> bt_base_time b \<Longrightarrow> bt_base_time b < 2 ^ 63 \<Longrightarrow>
     from_prost (DM_BaseTime (base_time_message b)) = Inr (RM_BaseTime b)"
  by (simp add: from_prost_def base_time_message_def unix_epoch_to_system_time_eq sint_of_int_i64
      unat_of_nat_u64)

text \<open>
  A base time that can be sent is received as it was: the message made of it converts back
  to the same base time.  It can be sent exactly when its elapsed time fits 64 bits and its base
  time is not before the epoch and fits a signed 64-bit number of nanoseconds.
\<close>

theorem base_time_round_trip:
  "(case metadata_request (SM_BaseTime b) persist of
      Inl e \<Rightarrow> 2 ^ 64 \<le> bt_elapsed_time b \<or> bt_base_time b < 0 \<or> 2 ^ 63 \<le> bt_base_time b
    | Inr um \<Rightarrow> bt_elapsed_time b < 2 ^ 64 \<and> 0 \<le> bt_base_time b \<and> bt_base_time b < 2 ^ 63 \<and>
        mum_extension_fields um = map_option (\<lambda>p. \<lparr>umef_persist = p\<rparr>) persist \<and>
        (\<exists>m. mum_metadata um = Some (UM_BaseTime m) \<and>
           from_prost (DM_BaseTime m) = Inr (RM_BaseTime b)))"
  using from_prost_base_time [of b]
  by (auto simp: metadata_request_def convert_to_upstream_metadata_def not_le split: option.split)

text \<open>The fields of a received metadata message that the conversion checks.\<close>

definition metadata_ids :: "DownMetadata \<Rightarrow> bytes list \<times> i32 list \<times> i64 list" where
  "metadata_ids md =
     (case md of
        DM_BaseTime m \<Rightarrow> ([], [], [mbt_base_time m])
      | DM_UpstreamOpen m \<Rightarrow> ([muo_stream_id m], [muo_qos m], [])
      | DM_UpstreamAbnormalClose m \<Rightarrow> ([muac_stream_id m], [], [])
      | DM_UpstreamResume m \<Rightarrow> ([mur_stream_id m], [mur_qos m], [])
      | DM_UpstreamNormalClose m \<Rightarrow> ([munc_stream_id m], [], [])
      | DM_DownstreamOpen m \<Rightarrow> ([mdo_stream_id m], [mdo_qos m], [])
      | DM_DownstreamAbnormalClose m \<Rightarrow> ([mdac_stream_id m], [], [])
      | DM_DownstreamResume m \<Rightarrow> ([mdr_stream_id m], [mdr_qos m], [])
      | DM_DownstreamNormalClose m \<Rightarrow> ([mdnc_stream_id m], [], []))"

text \<open>
  A received metadata message is rejected exactly when its stream id is not 16 bytes long,
  its QoS is not a defined one, or its base time is negative; the error is then always
  \<open>InvalidValue\<close>, so that the downstream skips the message and goes on.
\<close>

theorem metadata_rejected_iff:
  "case from_prost md of
     Inl e \<Rightarrow> (\<exists>s. e = InvalidValue s) \<and>
       ((\<exists>bs \<in> set (fst (metadata_ids md)). length bs \<noteq> 16) \<or>
        (\<exists>q \<in> set (fst (snd (metadata_ids md))). qos_try_from q = None) \<or>
        (\<exists>t \<in> set (snd (snd (metadata_ids md))). sint t < 0))
   | Inr _ \<Rightarrow> list_all (\<lambda>bs. length bs = 16) (fst (metadata_ids md)) \<and>
       list_all (\<lambda>q. qos_try_from q \<noteq> None) (fst (snd (metadata_ids md))) \<and>
       list_all (\<lambda>t. 0 \<le> sint t) (snd (snd (metadata_ids md)))"
  by (cases md) (auto simp: from_prost_def metadata_ids_def res_bind_def parse_stream_id_def
      uuid_from_slice_def from_qos_i32_def unix_epoch_to_system_time_eq split: option.split)

end
