(* ===== verification/Downstream.thy ===== *)
theory Downstream
  imports Down_State Down_Order Metadata
begin

text \<open>
  The downstream (\<open>iscp/downstream.rs\<close>): opening, the conversion of received chunks and
  metadata, and \<open>downstream_loop\<close> as a state machine.  An event is an arm of a \<open>select!\<close> or an
  \<open>await\<close> that completes, with what the awaited operation returned; \<open>down_step\<close> is \<open>None\<close> for
  an event the current phase does not wait for, and where the source would panic.
\<close>

section \<open>Opening and resuming\<close>

definition data_id_alias_table :: "DataId list \<Rightarrow> (u32, DataId) hash_map" where
  "data_id_alias_table data_ids =
     hm_from_list (map (\<lambda>(i, d). (of_nat i + 1, d)) (enumerate 0 data_ids))"

definition downstream_open_request ::
  "DownstreamConfig \<Rightarrow> u32 res \<Rightarrow> (DownstreamOpenRequest \<times> u32 \<times> (u32, DataId) hash_map) res" where
  "downstream_open_request config alias_result =
     (let expiry_interval = dcfg_expiry_interval config div 1000000000
      in if 2 ^ 32 \<le> expiry_interval then Inl (InvalidValue ''expiry_interval overflow'')
         else res_bind alias_result (\<lambda>alias.
           let aliases = data_id_alias_table (dcfg_data_ids config)
           in Inr (\<lparr>doq_request_id = 0, doq_desired_stream_id_alias = alias,
             doq_downstream_filters = dcfg_filters config,
             doq_expiry_interval = of_nat expiry_interval, doq_data_id_aliases = aliases,
             doq_qos = qos_i32 (dcfg_qos config), doq_extension_fields = None,
             doq_omit_empty_chunk = dcfg_omit_empty_chunk config\<rparr>, alias, aliases)))"

section \<open>Conversions\<close>

fun convert_groups :: "DownState \<Rightarrow> MsgDataPointGroup list \<Rightarrow> DataPointGroup list res" where
  "convert_groups s [] = Inr []"
| "convert_groups s (g # gs) =
     (case (case mg_data_id_or_alias g of
              Some (DataIdOrAlias_DataId d) \<Rightarrow> Inr d
            | Some (DataIdAlias a) \<Rightarrow>
                (case get_data_id s a of
                   Some d \<Rightarrow> Inr d
                 | None \<Rightarrow> Inl (InvalidValue (''unknown data id '' @ show_nat (unat a))))
            | None \<Rightarrow> Inl (InvalidValue ''invalid data_id_or_alias'')) of
        Inl e \<Rightarrow> Inl e
      | Inr d \<Rightarrow>
          res_bind (convert_groups s gs) (\<lambda>rest.
            Inr (\<lparr>dpg_data_id = d, dpg_data_points = mg_data_points g\<rparr> # rest)))"

definition resolve_upstream ::
  "DownState \<Rightarrow> UpstreamOrAlias option \<Rightarrow> (DownState \<times> UpstreamInfo res) option" where
  "resolve_upstream s ua =
     (case ua of
        Some (UOA_UpstreamInfo info) \<Rightarrow> add_upstream_info s info
      | Some (UOA_UpstreamAlias alias) \<Rightarrow> Some (s, get_upstream_info s alias)
      | None \<Rightarrow> Some (s, Inl (InvalidValue ''invalid upstream_or_alias'')))"

definition convert_downstream_chunk ::
  "MsgDownstreamChunk \<Rightarrow> DownState \<Rightarrow> bool \<Rightarrow> (DownState \<times> DownstreamChunk option res) option" where
  "convert_downstream_chunk chunk s omit_empty_chunk =
     (case mdc_stream_chunk chunk of
        None \<Rightarrow> Some (s, Inr None)
      | Some sc \<Rightarrow>
          if omit_empty_chunk \<and> sc_data_point_groups sc = [] then Some (s, Inr None)
          else
            (case convert_groups s (sc_data_point_groups sc) of
               Inl e \<Rightarrow> Some (s, Inl e)
             | Inr gs \<Rightarrow>
                 (case resolve_upstream s (mdc_upstream_or_alias chunk) of
                    None \<Rightarrow> None
                  | Some (s', Inl e) \<Rightarrow> Some (s', Inl e)
                  | Some (s', Inr upstream) \<Rightarrow>
                      Some (add_sequence_number s' (ui_stream_id upstream) (sc_sequence_number sc),
                        Inr (Some \<lparr>dc_sequence_number = sc_sequence_number sc,
                          dc_data_point_groups = gs, dc_upstream = upstream\<rparr>)))))"

definition convert_downstream_metadata ::
  "MsgDownstreamMetadata \<Rightarrow> (DownstreamMetadata \<times> DownstreamMetadataAck) res" where
  "convert_downstream_metadata md =
     (case mdm_metadata md of
        None \<Rightarrow> Inl (InvalidValue ''invalid metadata'')
      | Some m \<Rightarrow>
          res_bind (from_prost m) (\<lambda>m.
            Inr (\<lparr>dmd_source_node_id = mdm_source_node_id md, dmd_metadata = m\<rparr>,
              \<lparr>dma_request_id = mdm_request_id md, dma_result_code = result_code_i32 Succeeded,
               dma_result_string = ''OK'', dma_extension_fields = None\<rparr>)))"

definition check_chunk_ack_complete :: "DownstreamChunkAckComplete \<Rightarrow> u32 \<Rightarrow> u32" where
  "check_chunk_ack_complete complete ack_id_complete =
     (if ack_id_complete < dcc_ack_id complete then dcc_ack_id complete else ack_id_complete)"

section \<open>The loop: state, events, effects\<close>

datatype ReceivableDownstreamMsg =
  Chunk MsgDownstreamChunk
| Metadata MsgDownstreamMetadata
| ChunkAckComplete DownstreamChunkAckComplete

datatype DownPhase = DResuming | DReading | DDraining | DWaiting | DClosing | DFinished

record Down =
  dw_config :: DownstreamConfig
  dw_stream_id :: Uuid
  dw_stream_id_alias :: u32
  dw_state :: DownState
  dw_resume_token :: string
  dw_tx_result :: "nat option"
  dw_close_cause :: "Error option"
  dw_cancelled :: bool
  dw_need_resume :: bool
  dw_token :: string
  dw_ack_id_complete :: u32
  dw_reorderer :: DownReorderer
  dw_phase :: DownPhase

definition omit_empty :: "Down \<Rightarrow> bool" where
  "omit_empty d \<longleftrightarrow> dcfg_omit_empty_chunk (dw_config d) \<and> \<not> ro_enabled (dw_reorderer d)"

text \<open>
  \<open>Received msg k ok ack\<close>: a message in the read loop; the client's chunk channel takes \<open>k\<close>
  chunks before it is found closed, the metadata channel takes the metadata if \<open>ok\<close>, and
  \<open>ack\<close> is the result of sending its acknowledgement.  \<open>Drained msg oks live ack\<close>: a message
  left in the channel; \<open>oks\<close> tells which of the chunks \<open>try_send\<close> accepts (a missing entry is
  accepted), \<open>live\<close> whether the connection lives.
\<close>

datatype DownEvent =
  DClose nat
| DRequestResume "u32 res" "string res"
| DAddDownstream "unit res"
| DGetUpdated "unit res"
| DResumeTimeout
| DCancelled
| Received ReceivableDownstreamMsg nat bool "unit res"
| MsgClosed
| AckTick "unit res"
| Drained ReceivableDownstreamMsg "bool list" bool "unit res"
| DrainEnd bool "unit res" bool
| WaitMsg ReceivableDownstreamMsg
| WaitClosed
| DCloseTimeout
| DCloseResponse "unit res"

text \<open>\<open>ChunkOut c ok\<close>: the reorderer hands out \<open>c\<close>; the client's channel takes it if \<open>ok\<close>.\<close>

datatype DownOut =
  Converted DownstreamChunk
| ChunkOut DownstreamChunk bool
| MetadataOut DownstreamMetadata bool
| SendAck DownstreamChunkAck
| SendMetadataAck DownstreamMetadataAck
| SendDownResume DownstreamResumeRequest
| SendDownClose DownstreamCloseRequest
| DAnswer nat "unit res"

definition down_start ::
  "DownstreamConfig \<Rightarrow> Uuid \<Rightarrow> u32 \<Rightarrow> (u32, DataId) hash_map \<Rightarrow> string \<Rightarrow> Down" where
  "down_start config stream_id alias aliases token =
     \<lparr>dw_config = config, dw_stream_id = stream_id, dw_stream_id_alias = alias,
      dw_state = down_state_new aliases, dw_resume_token = token, dw_tx_result = None,
      dw_close_cause = None, dw_cancelled = False, dw_need_resume = False, dw_token = [],
      dw_ack_id_complete = 0, dw_reorderer = reorderer_new config, dw_phase = DResuming\<rparr>"

definition down_finish :: "Error option \<Rightarrow> Down \<Rightarrow> Down" where
  "down_finish cause d =
     d\<lparr>dw_cancelled := True, dw_phase := DFinished,
       dw_close_cause := (case cause of Some e \<Rightarrow> Some e | None \<Rightarrow> dw_close_cause d)\<rparr>"

section \<open>The turns of the loop\<close>

text \<open>Sending what the iterator yields, until the channel is found closed after \<open>k\<close> chunks.\<close>

fun send_chunks ::
  "nat \<Rightarrow> DownReorderer \<Rightarrow> DownReordererIter \<Rightarrow> (DownReorderer \<times> DownOut list \<times> bool) option" where
  "send_chunks 0 r it =
     (case reorder_iter_next r it of
        None \<Rightarrow> None
      | Some (r', _, None) \<Rightarrow> Some (r', [], False)
      | Some (r', _, Some c) \<Rightarrow> Some (r', [ChunkOut c False], True))"
| "send_chunks (Suc k) r it =
     (case reorder_iter_next r it of
        None \<Rightarrow> None
      | Some (r', _, None) \<Rightarrow> Some (r', [], False)
      | Some (r', it', Some c) \<Rightarrow>
          map_option (\<lambda>(r'', outs, closed). (r'', ChunkOut c True # outs, closed)) (send_chunks k r' it'))"

definition try_send_chunks ::
  "bool list \<Rightarrow> DownReorderer \<Rightarrow> DownReordererIter \<Rightarrow> (DownReorderer \<times> DownOut list \<times> bool) option" where
  "try_send_chunks oks r it =
     map_option (\<lambda>(r', cs). (r', map2 ChunkOut cs (oks @ replicate (length cs) True), False))
       (reorder_drain r it)"

text \<open>
  A chunk: convert it, enter it into the reorderer, send what that hands out; in the read loop
  \<open>send\<close> waits for room in the client's channel, for one left in the channel it does not.
\<close>

definition enter_chunk ::
  "MsgDownstreamChunk \<Rightarrow> (DownReorderer \<Rightarrow> DownReordererIter \<Rightarrow> (DownReorderer \<times> DownOut list \<times> bool) option) \<Rightarrow>
     Down \<Rightarrow> (Down \<times> DownOut list) option" where
  "enter_chunk chunk send d =
     (case convert_downstream_chunk chunk (dw_state d) (omit_empty d) of
        None \<Rightarrow> None
      | Some (s, Inr (Some c)) \<Rightarrow>
          (case reorder_iter (dw_reorderer d) c of
             None \<Rightarrow> None
           | Some (r, Inl e) \<Rightarrow>
               Some (down_finish (Some e) (d\<lparr>dw_state := s, dw_reorderer := r\<rparr>), [Converted c])
           | Some (r, Inr it) \<Rightarrow>
               map_option (\<lambda>(r', outs, closed).
                 (d\<lparr>dw_state := s, dw_reorderer := r', dw_cancelled := dw_cancelled d \<or> closed\<rparr>,
                  Converted c # outs))
                 (send r it))
      | Some (s, _) \<Rightarrow> Some (d\<lparr>dw_state := s\<rparr>, []))"

definition chunk_turn :: "MsgDownstreamChunk \<Rightarrow> nat \<Rightarrow> Down \<Rightarrow> (Down \<times> DownOut list) option" where
  "chunk_turn chunk k d = enter_chunk chunk (send_chunks k) d"

definition drain_chunk_turn ::
  "MsgDownstreamChunk \<Rightarrow> bool list \<Rightarrow> Down \<Rightarrow> (Down \<times> DownOut list) option" where
  "drain_chunk_turn chunk oks d = enter_chunk chunk (try_send_chunks oks) d"

definition metadata_turn ::
  "MsgDownstreamMetadata \<Rightarrow> bool \<Rightarrow> unit res \<Rightarrow> Down \<Rightarrow> Down \<times> DownOut list" where
  "metadata_turn md ok ack_result d =
     (case convert_downstream_metadata md of
        Inl _ \<Rightarrow> (d, [])
      | Inr (m, ack) \<Rightarrow>
          if \<not> ok then (d\<lparr>dw_cancelled := True, dw_phase := DDraining\<rparr>, [MetadataOut m False])
          else (case ack_result of
              Inr _ \<Rightarrow> (d, [MetadataOut m True, SendMetadataAck ack])
            | Inl _ \<Rightarrow> (d\<lparr>dw_phase := DDraining\<rparr>, [MetadataOut m True, SendMetadataAck ack])))"

definition drain_metadata_turn ::
  "MsgDownstreamMetadata \<Rightarrow> bool \<Rightarrow> bool \<Rightarrow> Down \<Rightarrow> Down \<times> DownOut list" where
  "drain_metadata_turn md ok live d =
     (case convert_downstream_metadata md of
        Inl _ \<Rightarrow> (d, [])
      | Inr (m, ack) \<Rightarrow> (d, MetadataOut m ok # (if live then [SendMetadataAck ack] else [])))"

definition complete_turn :: "DownstreamChunkAckComplete \<Rightarrow> Down \<Rightarrow> Down" where
  "complete_turn c d = d\<lparr>dw_ack_id_complete := check_chunk_ack_complete c (dw_ack_id_complete d)\<rparr>"

definition ack_turn_down :: "Down \<Rightarrow> Down \<times> DownOut list" where
  "ack_turn_down d =
     (case take_ack (dw_state d) (dw_stream_id_alias d) of
        (s, None) \<Rightarrow> (d\<lparr>dw_state := s\<rparr>, [])
      | (s, Some ack) \<Rightarrow> (d\<lparr>dw_state := s\<rparr>, [SendAck ack]))"

text \<open>The wait for the last acknowledgement to be completed, and the close request after it.\<close>

definition ack_pending :: "Down \<Rightarrow> bool" where
  "ack_pending d \<longleftrightarrow>
     (case ds_last_issued_chunk_ack_id (dw_state d) of
        None \<Rightarrow> False
      | Some last_issued \<Rightarrow> \<not> last_issued \<le> dw_ack_id_complete d)"

definition down_send_close :: "Down \<Rightarrow> Down \<times> DownOut list" where
  "down_send_close d =
     (d\<lparr>dw_phase := DClosing\<rparr>,
      [SendDownClose \<lparr>dcq_request_id = 0, dcq_stream_id = uuid_bytes (dw_stream_id d),
         dcq_extension_fields = None\<rparr>])"

definition wait_complete :: "Down \<Rightarrow> Down \<times> DownOut list" where
  "wait_complete d = (if ack_pending d then (d\<lparr>dw_phase := DWaiting\<rparr>, []) else down_send_close d)"

text \<open>The end of one connection: the last acknowledgement, then close or resume.\<close>

definition drain_end_turn :: "bool \<Rightarrow> bool \<Rightarrow> Down \<Rightarrow> Down \<times> DownOut list" where
  "drain_end_turn live live' d =
     (let (d, outs) = (if live then ack_turn_down d else (d, []))
      in if dcfg_expiry_interval (dw_config d) = 0 \<or> dw_cancelled d
         then (if live' then let (d, outs') = wait_complete d in (d, outs @ outs')
               else (down_finish None d, outs))
         else (d\<lparr>dw_token := [], dw_phase := DResuming\<rparr>, outs))"

definition down_resume_request :: "u32 \<Rightarrow> Uuid \<Rightarrow> string \<Rightarrow> DownstreamResumeRequest" where
  "down_resume_request alias stream_id token =
     \<lparr>drq_request_id = 0, drq_stream_id = uuid_bytes stream_id, drq_desired_stream_id_alias = alias,
      drq_extension_fields = None, drq_resume_token = token\<rparr>"

text \<open>One turn of the resume loop that requests a resume.\<close>

definition down_resume_turn :: "u32 res \<Rightarrow> string res \<Rightarrow> Down \<Rightarrow> Down \<times> DownOut list" where
  "down_resume_turn alias_result result d =
     (if dcfg_expiry_interval (dw_config d) = 0 then (down_finish None d, [])
      else
        let d = (if dw_token d = [] then d\<lparr>dw_token := dw_resume_token d, dw_resume_token := []\<rparr> else d);
            requests = (case alias_result of
                Inl _ \<Rightarrow> []
              | Inr a \<Rightarrow> [SendDownResume (down_resume_request a (dw_stream_id d) (dw_token d))])
        in (case res_bind alias_result (\<lambda>a. res_bind result (\<lambda>t. Inr (a, t))) of
              Inr (a, t) \<Rightarrow>
                (d\<lparr>dw_stream_id_alias := a, dw_resume_token := t, dw_need_resume := False\<rparr>, requests)
            | Inl e \<Rightarrow>
                if error_code e \<noteq> None then (down_finish None d, requests)
                else if can_retry_resume e then (d, requests)
                else (down_finish None d, requests)))"

definition down_step :: "Down \<Rightarrow> DownEvent \<Rightarrow> (Down \<times> DownOut list) option" where
  "down_step d ev =
     (case ev of
        DClose tx \<Rightarrow> Some (d\<lparr>dw_tx_result := Some tx, dw_cancelled := True\<rparr>, [])
      | DRequestResume alias_result result \<Rightarrow>
          if dw_phase d = DResuming \<and> dw_need_resume d
          then Some (down_resume_turn alias_result result d) else None
      | DAddDownstream result \<Rightarrow>
          if dw_phase d = DResuming \<and> \<not> dw_need_resume d
          then Some (case result of Inr _ \<Rightarrow> d\<lparr>dw_phase := DReading\<rparr> | Inl _ \<Rightarrow> d, []) else None
      | DGetUpdated result \<Rightarrow>
          if dw_phase d = DResuming
          then Some (case result of Inr _ \<Rightarrow> d\<lparr>dw_need_resume := True\<rparr> | Inl _ \<Rightarrow> down_finish None d, [])
          else None
      | DResumeTimeout \<Rightarrow> if dw_phase d = DResuming then Some (down_finish None d, []) else None
      | DCancelled \<Rightarrow>
          if dw_phase d = DReading \<and> dw_cancelled d then Some (d\<lparr>dw_phase := DDraining\<rparr>, []) else None
      | Received msg k ok ack_result \<Rightarrow>
          if dw_phase d = DReading then
            (case msg of
               Chunk chunk \<Rightarrow> chunk_turn chunk k d
             | Metadata md \<Rightarrow> Some (metadata_turn md ok ack_result d)
             | ChunkAckComplete c \<Rightarrow> Some (complete_turn c d, []))
          else None
      | MsgClosed \<Rightarrow> if dw_phase d = DReading then Some (d\<lparr>dw_phase := DDraining\<rparr>, []) else None
      | AckTick result \<Rightarrow>
          if dw_phase d = DReading then
            Some (case ack_turn_down d of
                (d, outs) \<Rightarrow> (if outs \<noteq> [] \<and> (\<exists>e. result = Inl e) then d\<lparr>dw_phase := DDraining\<rparr> else d, outs))
          else None
      | Drained msg oks live ack_result \<Rightarrow>
          if dw_phase d = DDraining then
            (case msg of
               Chunk chunk \<Rightarrow> drain_chunk_turn chunk oks d
             | Metadata md \<Rightarrow> Some (drain_metadata_turn md (hd (oks @ [True])) live d)
             | ChunkAckComplete c \<Rightarrow> Some (complete_turn c d, []))
          else None
      | DrainEnd live ack_result live' \<Rightarrow>
          if dw_phase d = DDraining then Some (drain_end_turn live live' d) else None
      | WaitMsg msg \<Rightarrow>
          if dw_phase d = DWaiting then
            Some (wait_complete (case msg of ChunkAckComplete c \<Rightarrow> complete_turn c d | _ \<Rightarrow> d))
          else None
      | WaitClosed \<Rightarrow> if dw_phase d = DWaiting then Some (down_send_close d) else None
      | DCloseTimeout \<Rightarrow> if dw_phase d = DWaiting then Some (down_send_close d) else None
      | DCloseResponse result \<Rightarrow>
          if dw_phase d = DClosing then
            Some (down_finish None (d\<lparr>dw_tx_result := None\<rparr>),
              case dw_tx_result d of
                None \<Rightarrow> []
              | Some tx \<Rightarrow> [DAnswer tx (case result of Inr _ \<Rightarrow> Inr () | Inl _ \<Rightarrow> Inl ConnectionClosed)])
          else None)"

inductive down_loop :: "Down \<Rightarrow> DownEvent list \<Rightarrow> DownOut list \<Rightarrow> Down \<Rightarrow> bool" for d0 where
  down_loop_start: "down_loop d0 [] [] d0"
| down_loop_step: "down_loop d0 evs outs d \<Longrightarrow> down_step d ev = Some (d', outs') \<Longrightarrow>
    down_loop d0 (evs @ [ev]) (outs @ outs') d'"

end
