(* ===== verification/Downstream_Props.thy ===== *)
theory Downstream_Props
  imports Downstream
begin

text \<open>
  Properties of the downstream loop of \<open>Downstream\<close>: what it acknowledges, what it hands to the
  client and in which order, what it sends when it closes.
\<close>

section \<open>What a run emits\<close>

fun converted :: "DownOut list \<Rightarrow> DownstreamChunk list" where
  "converted [] = []"
| "converted (Converted c # outs) = c # converted outs"
| "converted (_ # outs) = converted outs"

fun handed_out :: "DownOut list \<Rightarrow> DownstreamChunk list" where
  "handed_out [] = []"
| "handed_out (ChunkOut c _ # outs) = c # handed_out outs"
| "handed_out (_ # outs) = handed_out outs"

fun sent_acks :: "DownOut list \<Rightarrow> DownstreamChunkAck list" where
  "sent_acks [] = []"
| "sent_acks (SendAck a # outs) = a # sent_acks outs"
| "sent_acks (_ # outs) = sent_acks outs"

fun sent_closes :: "DownOut list \<Rightarrow> DownstreamCloseRequest list" where
  "sent_closes [] = []"
| "sent_closes (SendDownClose m # outs) = m # sent_closes outs"
| "sent_closes (_ # outs) = sent_closes outs"

lemma converted_append [simp]: "converted (xs @ ys) = converted xs @ converted ys"
  by (induction xs rule: converted.induct) simp_all

lemma handed_out_append [simp]: "handed_out (xs @ ys) = handed_out xs @ handed_out ys"
  by (induction xs rule: handed_out.induct) simp_all

lemma sent_acks_append [simp]: "sent_acks (xs @ ys) = sent_acks xs @ sent_acks ys"
  by (induction xs rule: sent_acks.induct) simp_all

lemma sent_closes_append [simp]: "sent_closes (xs @ ys) = sent_closes xs @ sent_closes ys"
  by (induction xs rule: sent_closes.induct) simp_all

definition chunk_result :: "DownstreamChunk \<Rightarrow> DownstreamChunkResult" where
  "chunk_result c = success_result (chunk_stream c) (dc_sequence_number c)"

section \<open>The loop runs the state's operations\<close>

definition performs :: "DownState \<Rightarrow> DownState \<Rightarrow> DownOut list \<Rightarrow> bool" where
  "performs s s' outs \<longleftrightarrow>
     (\<exists>ops. down_exec s ops = Some (s', sent_acks outs) \<and>
        numbers_of ops = map chunk_result (converted outs))"

lemma down_exec_append:
  "down_exec s ops = Some (s', acks) \<Longrightarrow> down_exec s' ops' = Some (s'', acks') \<Longrightarrow>
     down_exec s (ops @ ops') = Some (s'', acks @ acks')"
  by (induction ops arbitrary: s acks) (auto split: option.splits)

lemma performs_trans:
  assumes "performs s s' outs" and "performs s' s'' outs'"
  shows "performs s s'' (outs @ outs')"
proof -
  obtain ops where "down_exec s ops = Some (s', sent_acks outs)"
    and "numbers_of ops = map chunk_result (converted outs)"
    using assms(1) by (auto simp: performs_def)
  moreover obtain ops' where "down_exec s' ops' = Some (s'', sent_acks outs')"
    and "numbers_of ops' = map chunk_result (converted outs')"
    using assms(2) by (auto simp: performs_def)
  ultimately show ?thesis
    unfolding performs_def by (intro exI [of _ "ops @ ops'"]) (simp add: down_exec_append)
qed

lemma performs_nothing: "sent_acks outs = [] \<Longrightarrow> converted outs = [] \<Longrightarrow> performs s s outs"
  unfolding performs_def by (rule exI [of _ "[]"]) simp

lemma performs_cong:
  "performs s s' outs \<Longrightarrow> sent_acks outs' = sent_acks outs \<Longrightarrow> converted outs' = converted outs \<Longrightarrow>
     performs s s' outs'"
  by (simp add: performs_def)

definition converted_result :: "DownstreamChunk option res \<Rightarrow> DownOut list" where
  "converted_result r = (case r of Inr (Some c) \<Rightarrow> [Converted c] | _ \<Rightarrow> [])"

lemma resolve_upstream_ops:
  assumes "resolve_upstream s ua = Some (s', r)"
  shows "\<exists>ops. down_exec s ops = Some (s', []) \<and> numbers_of ops = []"
proof (cases "s' = s")
  case True
  then show ?thesis by (intro exI [of _ "[]"]) simp
next
  case False
  then obtain m where "add_upstream_info s m = Some (s', r)"
    using assms by (auto simp: resolve_upstream_def split: option.splits UpstreamOrAlias.splits)
  then show ?thesis by (intro exI [of _ "[AddInfo m]"]) simp
qed

lemma convert_chunk_cases:
  assumes "convert_downstream_chunk chunk s om = Some (s', r)"
  obtains (none) "r = Inr None" "s' = s"
  | (bad_groups) e where "r = Inl e" "s' = s"
  | (bad_upstream) e where "r = Inl e" "resolve_upstream s (mdc_upstream_or_alias chunk) = Some (s', Inl e)"
  | (ok) sc gs s1 i where "mdc_stream_chunk chunk = Some sc"
      "convert_groups s (sc_data_point_groups sc) = Inr gs"
      "resolve_upstream s (mdc_upstream_or_alias chunk) = Some (s1, Inr i)"
      "s' = add_sequence_number s1 (ui_stream_id i) (sc_sequence_number sc)"
      "r = Inr (Some \<lparr>dc_sequence_number = sc_sequence_number sc, dc_data_point_groups = gs, dc_upstream = i\<rparr>)"
  using assms unfolding convert_downstream_chunk_def
  by (auto split: option.splits if_splits sum.splits prod.splits)

lemma convert_chunk_performs:
  assumes "convert_downstream_chunk chunk s om = Some (s', r)"
  shows "performs s s' (converted_result r)"
  using assms
proof (cases rule: convert_chunk_cases)
  case none
  then show ?thesis by (simp add: converted_result_def performs_nothing)
next
  case (bad_groups e)
  then show ?thesis by (simp add: converted_result_def performs_nothing)
next
  case (bad_upstream e)
  then show ?thesis
    using resolve_upstream_ops by (fastforce simp: converted_result_def performs_def)
next
  case (ok sc gs s1 i)
  obtain ops where "down_exec s ops = Some (s1, [])" "numbers_of ops = []"
    using resolve_upstream_ops [OF ok(3)] by blast
  with ok(4,5) show ?thesis
    unfolding performs_def
    by (intro exI [of _ "ops @ [AddNumber (ui_stream_id i) (sc_sequence_number sc)]"])
      (simp add: converted_result_def down_exec_append chunk_result_def chunk_stream_def)
qed

lemma ack_turn_performs:
  assumes "ack_turn_down d = (d', outs)"
  shows "performs (dw_state d) (dw_state d') outs"
proof -
  obtain s ack where "take_ack (dw_state d) (dw_stream_id_alias d) = (s, ack)" by fastforce
  with assms show ?thesis
    unfolding performs_def
    by (intro exI [of _ "[TakeAck (dw_stream_id_alias d)]"]) (auto simp: ack_turn_down_def split: option.splits)
qed

lemma send_chunks_quiet:
  "send_chunks k r it = Some (r', outs, closed) \<Longrightarrow>
     converted outs = [] \<and> sent_acks outs = [] \<and> sent_closes outs = []"
  by (induction k arbitrary: r it outs) (auto split: option.splits)

lemma map2_ChunkOut:
  "converted (map2 ChunkOut cs oks) = []" "sent_acks (map2 ChunkOut cs oks) = []"
  "sent_closes (map2 ChunkOut cs oks) = []" "handed_out (map2 ChunkOut cs oks) = map fst (zip cs oks)"
  by (induction cs oks rule: list_induct2') simp_all

lemma try_send_chunks_drain:
  assumes "try_send_chunks oks r it = Some (r', outs, closed)"
  shows "reorder_drain r it = Some (r', handed_out outs)"
    and "converted outs = [] \<and> sent_acks outs = [] \<and> sent_closes outs = []"
  using assms by (auto simp: try_send_chunks_def map2_ChunkOut map_fst_zip_take)

definition quiet_send ::
  "(DownReorderer \<Rightarrow> DownReordererIter \<Rightarrow> (DownReorderer \<times> DownOut list \<times> bool) option) \<Rightarrow> bool" where
  "quiet_send send \<longleftrightarrow> (\<forall>r it r' outs closed. send r it = Some (r', outs, closed) \<longrightarrow>
     converted outs = [] \<and> sent_acks outs = [] \<and> sent_closes outs = [])"

lemma quiet_send [simp]: "quiet_send (send_chunks k)" "quiet_send (try_send_chunks oks)"
  unfolding quiet_send_def using send_chunks_quiet try_send_chunks_drain(2) by blast+

lemma enter_chunk_cases:
  assumes "enter_chunk chunk send d = Some (d', outs)"
  obtains (skip) s r where "convert_downstream_chunk chunk (dw_state d) (omit_empty d) = Some (s, r)"
      "converted_result r = []" "d' = d\<lparr>dw_state := s\<rparr>" "outs = []"
  | (fail) s c ro e where "convert_downstream_chunk chunk (dw_state d) (omit_empty d) = Some (s, Inr (Some c))"
      "reorder_iter (dw_reorderer d) c = Some (ro, Inl e)"
      "d' = down_finish (Some e) (d\<lparr>dw_state := s, dw_reorderer := ro\<rparr>)" "outs = [Converted c]"
  | (send) s c ro it ro' outs' closed where
      "convert_downstream_chunk chunk (dw_state d) (omit_empty d) = Some (s, Inr (Some c))"
      "reorder_iter (dw_reorderer d) c = Some (ro, Inr it)"
      "send ro it = Some (ro', outs', closed)"
      "d' = d\<lparr>dw_state := s, dw_reorderer := ro', dw_cancelled := dw_cancelled d \<or> closed\<rparr>"
      "outs = Converted c # outs'"
proof -
  obtain s r where conv: "convert_downstream_chunk chunk (dw_state d) (omit_empty d) = Some (s, r)"
    using assms by (cases "convert_downstream_chunk chunk (dw_state d) (omit_empty d)")
      (simp add: enter_chunk_def, fastforce)
  show ?thesis
  proof (cases "\<exists>c. r = Inr (Some c)")
    case False
    then have "converted_result r = []" "d' = d\<lparr>dw_state := s\<rparr>" "outs = []"
      using assms by (auto simp: enter_chunk_def conv converted_result_def split: sum.splits option.splits)
    with conv show ?thesis by (rule skip)
  next
    case True
    then obtain c where r: "r = Inr (Some c)" by blast
    show ?thesis
    proof (cases "reorder_iter (dw_reorderer d) c")
      case None
      with assms show ?thesis by (simp add: enter_chunk_def conv r)
    next
      case (Some p)
      obtain ro q where p: "p = (ro, q)" by fastforce
      show ?thesis
      proof (cases q)
        case (Inl e)
        with assms show ?thesis
          by (intro fail [OF conv [unfolded r] Some [unfolded p Inl]]) (simp_all add: enter_chunk_def conv r Some p)
      next
        case (Inr it)
        with assms obtain ro' outs' closed where out: "send ro it = Some (ro', outs', closed)"
          by (auto simp: enter_chunk_def conv r Some p)
        with assms show ?thesis
          by (intro send [OF conv [unfolded r] Some [unfolded p Inr] out])
            (simp_all add: enter_chunk_def conv r Some p Inr)
      qed
    qed
  qed
qed

lemma down_finish_sel [simp]:
  "dw_state (down_finish c d) = dw_state d" "dw_reorderer (down_finish c d) = dw_reorderer d"
  "dw_phase (down_finish c d) = DFinished" "dw_config (down_finish c d) = dw_config d"
  "dw_stream_id (down_finish c d) = dw_stream_id d"
  by (simp_all add: down_finish_def)

lemma enter_chunk_performs:
  assumes "enter_chunk chunk send d = Some (d', outs)" and "quiet_send send"
  shows "performs (dw_state d) (dw_state d') outs"
  using assms(1)
proof (cases rule: enter_chunk_cases)
  case (skip s r)
  from convert_chunk_performs [OF skip(1)] show ?thesis by (simp add: skip(2,3,4))
next
  case (fail s c ro e)
  from convert_chunk_performs [OF fail(1)] show ?thesis by (simp add: fail(3,4) converted_result_def)
next
  case (send s c ro it ro' outs' closed)
  have "converted outs' = [] \<and> sent_acks outs' = []"
    using assms(2) send(3) unfolding quiet_send_def by blast
  with convert_chunk_performs [OF send(1)] show ?thesis
    by (auto simp: send(4,5) converted_result_def elim: performs_cong)
qed

lemma metadata_turn_quiet:
  assumes "metadata_turn md ok r d = (d', outs)"
  shows "dw_state d' = dw_state d \<and> dw_reorderer d' = dw_reorderer d \<and> converted outs = [] \<and>
    handed_out outs = [] \<and> sent_acks outs = [] \<and> sent_closes outs = [] \<and>
    (dw_phase d' = dw_phase d \<or> dw_phase d' = DDraining) \<and> dw_stream_id d' = dw_stream_id d"
  using assms by (auto simp: metadata_turn_def split: sum.splits prod.splits if_splits)

lemma drain_metadata_turn_quiet:
  assumes "drain_metadata_turn md ok live d = (d', outs)"
  shows "d' = d \<and> converted outs = [] \<and> handed_out outs = [] \<and> sent_acks outs = [] \<and> sent_closes outs = []"
  using assms by (auto simp: drain_metadata_turn_def split: sum.splits prod.splits if_splits)

lemma ack_turn_quiet:
  assumes "ack_turn_down d = (d', outs)"
  shows "dw_reorderer d' = dw_reorderer d \<and> dw_phase d' = dw_phase d \<and> dw_config d' = dw_config d \<and>
    dw_stream_id d' = dw_stream_id d \<and> dw_cancelled d' = dw_cancelled d \<and>
    dw_ack_id_complete d' = dw_ack_id_complete d \<and>
    converted outs = [] \<and> handed_out outs = [] \<and> sent_closes outs = []"
  using assms by (auto simp: ack_turn_down_def split: prod.splits option.splits)

lemma wait_complete_quiet:
  assumes "wait_complete d = (d', outs)"
  shows "dw_state d' = dw_state d \<and> dw_reorderer d' = dw_reorderer d \<and> dw_stream_id d' = dw_stream_id d \<and>
    converted outs = [] \<and> handed_out outs = [] \<and> sent_acks outs = []"
  using assms by (auto simp: wait_complete_def down_send_close_def split: if_splits)

lemma drain_end_turn_split:
  assumes "drain_end_turn live live' d = (d', outs)"
  obtains d1 outs1 outs2 where "(if live then ack_turn_down d else (d, [])) = (d1, outs1)"
    and "outs = outs1 @ outs2" and "dw_state d' = dw_state d1" and "dw_reorderer d' = dw_reorderer d1"
    and "converted outs2 = []" and "handed_out outs2 = []" and "sent_acks outs2 = []"
    and "dw_stream_id d' = dw_stream_id d1"
    and "wait_complete d1 = (d', outs2) \<or> outs2 = [] \<and> dw_phase d' \<in> {DFinished, DResuming}"
proof -
  obtain d1 outs1 where first: "(if live then ack_turn_down d else (d, [])) = (d1, outs1)" by fastforce
  show ?thesis
  proof (cases "(dcfg_expiry_interval (dw_config d1) = 0 \<or> dw_cancelled d1) \<and> live'")
    case True
    obtain d2 outs2 where "wait_complete d1 = (d2, outs2)" by fastforce
    with True first assms wait_complete_quiet [OF this] that [OF first, of outs2] show ?thesis
      unfolding drain_end_turn_def Let_def by (simp only: split if_True prod.case) auto
  next
    case False
    with first assms that [OF first, of "[]"] show ?thesis
      unfolding drain_end_turn_def Let_def by (auto split: if_splits)
  qed
qed

lemma drain_end_turn_performs:
  assumes "drain_end_turn live live' d = (d', outs)"
  shows "performs (dw_state d) (dw_state d') outs"
  using assms
proof (cases rule: drain_end_turn_split)
  case (1 d1 outs1 outs2)
  have "performs (dw_state d) (dw_state d1) outs1"
    using 1(1) ack_turn_performs by (auto simp: performs_nothing split: if_splits)
  then have "performs (dw_state d) (dw_state d1) (outs1 @ outs2)"
    by (rule performs_cong) (simp_all add: 1)
  then show ?thesis by (simp add: 1(2,3))
qed

lemma down_resume_turn_quiet:
  assumes "down_resume_turn ar r d = (d', outs)"
  shows "dw_state d' = dw_state d \<and> dw_reorderer d' = dw_reorderer d \<and> dw_stream_id d' = dw_stream_id d \<and>
    (dw_phase d' = dw_phase d \<or> dw_phase d' = DFinished) \<and> converted outs = [] \<and> handed_out outs = [] \<and>
    sent_acks outs = [] \<and> sent_closes outs = []"
  using assms unfolding down_resume_turn_def Let_def
  by (auto simp: down_finish_sel split: sum.splits prod.splits if_splits)

lemma down_step_performs:
  assumes "down_step d ev = Some (d', outs)"
  shows "performs (dw_state d) (dw_state d') outs"
proof (cases ev)
  case (DRequestResume ar r)
  with assms down_resume_turn_quiet [of ar r d d' outs] show ?thesis
    by (simp add: down_step_def performs_nothing split: if_splits)
next
  case (Received msg k ok r)
  then show ?thesis
  proof (cases msg)
    case (Chunk chunk)
    with assms Received show ?thesis
      by (auto simp: down_step_def chunk_turn_def enter_chunk_performs split: if_splits)
  next
    case (Metadata md)
    with assms Received metadata_turn_quiet [of md ok r d d' outs] show ?thesis
      by (simp add: down_step_def performs_nothing split: if_splits)
  next
    case (ChunkAckComplete c)
    with assms Received show ?thesis
      by (auto simp: down_step_def complete_turn_def performs_nothing split: if_splits)
  qed
next
  case (Drained msg oks live r)
  then show ?thesis
  proof (cases msg)
    case (Chunk chunk)
    with assms Drained show ?thesis
      by (auto simp: down_step_def drain_chunk_turn_def enter_chunk_performs split: if_splits)
  next
    case (Metadata md)
    with assms Drained drain_metadata_turn_quiet [of md "hd (oks @ [True])" live d d' outs] show ?thesis
      by (simp add: down_step_def performs_nothing split: if_splits)
  next
    case (ChunkAckComplete c)
    with assms Drained show ?thesis
      by (auto simp: down_step_def complete_turn_def performs_nothing split: if_splits)
  qed
next
  case (AckTick r)
  obtain d1 outs1 where "ack_turn_down d = (d1, outs1)" by fastforce
  with assms AckTick ack_turn_performs [OF this] show ?thesis
    by (auto simp: down_step_def split: if_splits)
next
  case (DrainEnd live r live')
  with assms show ?thesis by (simp add: down_step_def drain_end_turn_performs split: if_splits)
next
  case (WaitMsg msg)
  with assms wait_complete_quiet [of _ d' outs] show ?thesis
    by (auto simp: down_step_def complete_turn_def performs_nothing split: if_splits ReceivableDownstreamMsg.splits)
qed (use assms in \<open>auto simp: down_step_def performs_nothing down_send_close_def
  split: if_splits sum.splits option.splits\<close>)

lemma down_exec_down_run:
  assumes "down_run s0 ops acks s"
  shows "down_exec s ops' = Some (s', acks') \<Longrightarrow> down_run s0 (ops @ ops') (acks @ acks') s'"
  using assms
proof (induction ops' arbitrary: ops acks s acks')
  case (Cons op ops')
  then obtain s1 a1 a2 where "down_op s op = Some (s1, a1)" "down_exec s1 ops' = Some (s', a2)" "acks' = a1 @ a2"
    by (auto split: option.splits)
  with Cons.IH [OF _ down_run_snoc [OF Cons.prems(2)]] show ?case by simp
qed simp

text \<open>Every run of the loop is a run of the operations of its state.\<close>

lemma down_loop_run:
  "down_loop d0 evs outs d \<Longrightarrow> dw_state d0 = down_state_new aliases \<Longrightarrow>
     \<exists>ops. down_run (down_state_new aliases) ops (sent_acks outs) (dw_state d) \<and>
       numbers_of ops = map chunk_result (converted outs)"
proof (induction rule: down_loop.induct)
  case down_loop_start
  then show ?case by (auto intro!: exI [of _ "[]"] down_run_nil)
next
  case (down_loop_step evs outs d ev d' outs')
  from down_loop_step obtain ops where "down_run (down_state_new aliases) ops (sent_acks outs) (dw_state d)"
    "numbers_of ops = map chunk_result (converted outs)" by blast
  moreover obtain ops' where "down_exec (dw_state d) ops' = Some (dw_state d', sent_acks outs')"
    "numbers_of ops' = map chunk_result (converted outs')"
    using down_step_performs [OF down_loop_step.hyps(2)] by (auto simp: performs_def)
  ultimately show ?case
    by (intro exI [of _ "ops @ ops'"]) (simp add: down_exec_down_run)
qed

section \<open>Strict order at the level of the loop\<close>

text \<open>
  The loop sends what the reorderer yields one by one and stops when the client's channel is
  closed, so the order is stated for every prefix of what a stream can yield.
\<close>

definition stream_order :: "DownReorderer \<Rightarrow> DownstreamChunk list \<Rightarrow> DownstreamChunk list \<Rightarrow> Uuid \<Rightarrow> bool" where
  "stream_order r conv out u \<longleftrightarrow>
     map dc_sequence_number (of_stream u out) =
       consecutive (first_number (of_stream u conv)) (length (of_stream u out)) \<and>
     (case map_of (ro_next r) u of
        None \<Rightarrow> of_stream u conv = [] \<and> of_stream u out = []
      | Some n \<Rightarrow> of_stream u conv \<noteq> [] \<and>
          n = first_number (of_stream u conv) + of_nat (length (of_stream u out)))"

definition strict_order :: "DownReorderer \<Rightarrow> DownstreamChunk list \<Rightarrow> DownstreamChunk list \<Rightarrow> bool" where
  "strict_order r conv out \<longleftrightarrow> reorderer_inv r \<and> ro_enabled r \<and> ro_strict r \<and>
     (\<forall>u. stream_order r conv out u)"

lemma first_number_append: "xs \<noteq> [] \<Longrightarrow> first_number (xs @ ys) = first_number xs"
  by (cases xs) simp_all

lemma stream_order_other:
  "chunk_stream c \<noteq> u \<Longrightarrow> map_of (ro_next r') u = map_of (ro_next r) u \<Longrightarrow>
     stream_order r' (conv @ [c]) out u = stream_order r conv out u"
  "chunk_stream c \<noteq> u \<Longrightarrow> map_of (ro_next r') u = map_of (ro_next r) u \<Longrightarrow>
     stream_order r' conv (out @ [c]) u = stream_order r conv out u"
  by (simp_all add: stream_order_def split: option.splits)

lemma strict_order_iter:
  assumes "strict_order r conv out" and "reorder_iter r c = Some (r', res)"
  shows "strict_order r' (conv @ [c]) out" and "\<And>it. res = Inr it \<Longrightarrow> \<exists>u. it = Reordered u"
proof -
  let ?u = "chunk_stream c" and ?sn = "dc_sequence_number c"
  let ?o = "open_stream r ?u ?sn"
  have inv: "reorderer_inv r" "ro_enabled r" "ro_strict r" and ord: "\<And>u. stream_order r conv out u"
    using assms(1) by (simp_all add: strict_order_def)
  note o = open_stream_at [OF inv(1), of ?u ?sn]
  let ?st = "bt_insert ?sn c (store_at r ?u)"
  have st: "entries_ok ?u ?st"
    using store_at_entries [OF inv(1), of ?u] by (simp add: entries_ok_insert)
  have "r' = ?o \<or> r' = ?o\<lparr>ro_store := hm_insert ?u ?st (ro_store ?o)\<rparr>"
    using assms(2) inv(2) o(1) by (auto simp: reorder_iter_def Let_def stream_at_def split: if_splits)
  then have r': "reorderer_inv r'" "ro_next r' = ro_next ?o" "ro_enabled r'" "ro_strict r'"
    using o inv(2,3) stream_at_put [OF o(1) st] by (auto simp: stream_at_def same_but_def)
  have "stream_order r' (conv @ [c]) out u" for u
  proof (cases "u = ?u")
    case True
    with ord [of u] show ?thesis
      by (auto simp: stream_order_def r'(2) open_stream_def first_number_append consecutive_def
          split: option.splits)
  next
    case False
    then have "map_of (ro_next r') u = map_of (ro_next r) u"
      using o(2) by (simp add: r'(2) same_but_def)
    with False ord [of u] show ?thesis by (simp add: stream_order_other)
  qed
  with r' show "strict_order r' (conv @ [c]) out" by (simp add: strict_order_def)
  show "\<exists>u. it = Reordered u" if "res = Inr it" for it
    using assms(2) inv(2) that by (auto simp: reorder_iter_def Let_def split: if_splits option.splits)
qed

lemma strict_order_next:
  assumes "strict_order r conv out" and "reorder_iter_next r (Reordered u) = Some (r', it', oc)"
  shows "it' = Reordered u" and "strict_order r' conv (out @ (case oc of None \<Rightarrow> [] | Some c \<Rightarrow> [c]))"
proof -
  have pop: "reorder_pop r u = Some (r', oc)" and "it' = Reordered u"
    using assms(2) by (auto simp: reorder_iter_next_def)
  then show "it' = Reordered u" by simp
  have inv: "reorderer_inv r" "ro_enabled r" "ro_strict r" and ord: "\<And>u. stream_order r conv out u"
    using assms(1) by (simp_all add: strict_order_def)
  obtain n st where at: "stream_at r u n st"
    using pop inv(1) by (auto simp: reorder_pop_def stream_at_def split: option.splits)
  from at show "strict_order r' conv (out @ (case oc of None \<Rightarrow> [] | Some c \<Rightarrow> [c]))"
  proof (cases rule: pop_cases)
    case stop
    with pop assms(1) show ?thesis by simp
  next
    case (found c)
    let ?st = "bt_remove n st"
    have ok: "entries_ok u st" by (rule stream_at_entries [OF at])
    then have c: "dc_sequence_number c = n" "chunk_stream c = u" using entries_ok_lookup [OF _ found(1)] by auto
    have r': "r' = set_stream r u (n + 1) ?st" "oc = Some c" using pop found(2) by simp_all
    note ss = set_stream_at [OF inv(1) entries_ok_remove [OF ok], of "n + 1" n]
    have "stream_order r' conv (out @ [c]) v" for v
    proof (cases "v = u")
      case True
      with ord [of u] at c show ?thesis
        by (simp add: stream_order_def r' set_stream_def stream_at_def)
          (simp add: consecutive_def add.assoc)
    next
      case False
      with ss(2) have "map_of (ro_next r') v = map_of (ro_next r) v" by (simp add: r' same_but_def)
      with False c ord [of v] show ?thesis by (simp add: stream_order_other)
    qed
    with ss inv show ?thesis by (simp add: strict_order_def r' stream_at_def same_but_def)
  next
    case (least k c st')
    with inv(3) show ?thesis by simp
  qed
qed

lemma strict_order_send:
  "send_chunks k r (Reordered u) = Some (r', outs, closed) \<Longrightarrow> strict_order r conv out \<Longrightarrow>
     strict_order r' conv (out @ handed_out outs)"
proof (induction k arbitrary: r out outs)
  case 0
  then show ?case
    using strict_order_next(2) [OF 0(2)] by (fastforce split: option.splits)
next
  case (Suc k)
  obtain r1 it oc where nxt: "reorder_iter_next r (Reordered u) = Some (r1, it, oc)"
    using Suc.prems(1) by (cases "reorder_iter_next r (Reordered u)") auto
  note step = strict_order_next [OF Suc.prems(2) nxt]
  show ?case
  proof (cases oc)
    case None
    with Suc.prems(1) nxt step show ?thesis by simp
  next
    case (Some c)
    with Suc.prems(1) nxt step(1) obtain outs' where
      "send_chunks k r1 (Reordered u) = Some (r', outs', closed)" "outs = ChunkOut c True # outs'" by auto
    with Suc.IH [OF this(1) step(2)] Some show ?thesis by simp
  qed
qed

lemma strict_order_drain:
  "reorder_drain r (Reordered u) = Some (r', cs) \<Longrightarrow> strict_order r conv out \<Longrightarrow> strict_order r' conv (out @ cs)"
proof (induction "length cs" arbitrary: r out cs)
  case (0 cs)
  obtain r1 it oc where nxt: "reorder_iter_next r (Reordered u) = Some (r1, it, oc)"
    using 0(2) by (cases "reorder_iter_next r (Reordered u)") (auto simp: reorder_drain.simps [of r])
  note step = strict_order_next [OF 0(3) nxt]
  with 0 nxt show ?case by (auto simp: reorder_drain.simps [of r] split: option.splits)
next
  case (Suc n cs)
  obtain r1 it oc where nxt: "reorder_iter_next r (Reordered u) = Some (r1, it, oc)"
    using Suc.prems(1) by (cases "reorder_iter_next r (Reordered u)") (auto simp: reorder_drain.simps [of r])
  note step = strict_order_next [OF Suc.prems(2) nxt]
  obtain c cs' where "oc = Some c" "reorder_drain r1 (Reordered u) = Some (r', cs')" "cs = c # cs'"
    using Suc.prems(1) Suc.hyps(2) nxt step(1) by (auto simp: reorder_drain.simps [of r] split: option.splits)
  with Suc.hyps(1) [of cs' r1 "out @ [c]"] step(2) Suc.hyps(2) show ?case by simp
qed

section \<open>Steps and the reorderer\<close>

lemma down_step_reorderer:
  assumes "down_step d ev = Some (d', outs)"
  obtains (quiet) "dw_reorderer d' = dw_reorderer d" "converted outs = []" "handed_out outs = []"
  | (chunk) ch k ok res where "ev = Received (Chunk ch) k ok res" "enter_chunk ch (send_chunks k) d = Some (d', outs)"
  | (drained) ch oks live res where "ev = Drained (Chunk ch) oks live res"
      "enter_chunk ch (try_send_chunks oks) d = Some (d', outs)"
proof (cases ev)
  case (DRequestResume ar r)
  with assms down_resume_turn_quiet [of ar r d d' outs] show ?thesis
    by (auto simp: down_step_def split: if_splits intro: quiet)
next
  case (Received msg k ok r)
  show ?thesis
  proof (cases msg)
    case (Chunk ch)
    with assms Received show ?thesis
      by (auto simp: down_step_def chunk_turn_def split: if_splits intro: chunk)
  next
    case (Metadata md)
    with assms Received metadata_turn_quiet [of md ok r d d' outs] show ?thesis
      by (auto simp: down_step_def split: if_splits intro: quiet)
  next
    case (ChunkAckComplete c)
    with assms Received show ?thesis
      by (intro quiet) (auto simp: down_step_def complete_turn_def split: if_splits)
  qed
next
  case (Drained msg oks live r)
  show ?thesis
  proof (cases msg)
    case (Chunk ch)
    with assms Drained show ?thesis
      by (auto simp: down_step_def drain_chunk_turn_def split: if_splits intro: drained)
  next
    case (Metadata md)
    with assms Drained drain_metadata_turn_quiet [of md "hd (oks @ [True])" live d d' outs] show ?thesis
      by (auto simp: down_step_def split: if_splits intro: quiet)
  next
    case (ChunkAckComplete c)
    with assms Drained show ?thesis
      by (intro quiet) (auto simp: down_step_def complete_turn_def split: if_splits)
  qed
next
  case (AckTick r)
  obtain d1 outs1 where "ack_turn_down d = (d1, outs1)" by fastforce
  with assms AckTick ack_turn_quiet [OF this] show ?thesis
    by (intro quiet) (auto simp: down_step_def split: if_splits)
next
  case (DrainEnd live r live')
  with assms have "drain_end_turn live live' d = (d', outs)" by (simp add: down_step_def split: if_splits)
  then show ?thesis
  proof (cases rule: drain_end_turn_split)
    case (1 d1 outs1 outs2)
    then have "dw_reorderer d1 = dw_reorderer d \<and> converted outs1 = [] \<and> handed_out outs1 = []"
      using ack_turn_quiet [of d d1 outs1] by (auto split: if_splits)
    with 1 show ?thesis by (intro quiet) simp_all
  qed
next
  case (WaitMsg msg)
  with assms wait_complete_quiet [of _ d' outs] show ?thesis
    by (intro quiet) (auto simp: down_step_def complete_turn_def split: if_splits ReceivableDownstreamMsg.splits)
qed (use assms in \<open>auto simp: down_step_def down_send_close_def intro: quiet
  split: if_splits sum.splits option.splits\<close>)

lemma enter_chunk_strict_order:
  assumes "enter_chunk ch send d = Some (d', outs)" and "quiet_send send"
    and "strict_order (dw_reorderer d) conv out"
    and "\<And>r u r' outs closed conv out. send r (Reordered u) = Some (r', outs, closed) \<Longrightarrow>
      strict_order r conv out \<Longrightarrow> strict_order r' conv (out @ handed_out outs)"
  shows "strict_order (dw_reorderer d') (conv @ converted outs) (out @ handed_out outs)"
  using assms(1)
proof (cases rule: enter_chunk_cases)
  case (skip s r)
  with assms(3) show ?thesis by simp
next
  case (fail s c ro e)
  with strict_order_iter(1) [OF assms(3) fail(2)] show ?thesis by simp
next
  case (send s c ro it ro' outs' closed)
  obtain u where "it = Reordered u" using strict_order_iter(2) [OF assms(3) send(2)] by blast
  moreover have "converted outs' = []" using assms(2) send(3) unfolding quiet_send_def by blast
  ultimately show ?thesis
    using assms(4) [of ro u ro' outs' closed] send strict_order_iter(1) [OF assms(3) send(2)] by simp
qed

lemma down_step_strict_order:
  assumes "down_step d ev = Some (d', outs)" and "strict_order (dw_reorderer d) conv out"
  shows "strict_order (dw_reorderer d') (conv @ converted outs) (out @ handed_out outs)"
  using assms(1)
proof (cases rule: down_step_reorderer)
  case quiet
  with assms(2) show ?thesis by simp
next
  case (chunk ch k)
  from chunk(2) show ?thesis
    by (rule enter_chunk_strict_order [OF _ _ assms(2)]) (auto dest: strict_order_send)
next
  case (drained ch oks)
  from drained(2) show ?thesis
  proof (rule enter_chunk_strict_order [OF _ _ assms(2)])
    fix r u r' outs' closed conv out
    assume "try_send_chunks oks r (Reordered u) = Some (r', outs', closed)" "strict_order r conv out"
    then show "strict_order r' conv (out @ handed_out outs')"
      using try_send_chunks_drain(1) strict_order_drain by blast
  qed simp
qed

lemma down_loop_strict_order:
  "down_loop d0 evs outs d \<Longrightarrow> strict_order (dw_reorderer d0) [] [] \<Longrightarrow>
     strict_order (dw_reorderer d) (converted outs) (handed_out outs)"
  by (induction rule: down_loop.induct) (simp_all add: down_step_strict_order)

lemma strict_order_new:
  "dcfg_qos config = Reliable \<Longrightarrow> dcfg_reordering config = Strict \<Longrightarrow> strict_order (reorderer_new config) [] []"
  by (simp add: strict_order_def stream_order_def reorderer_new_inv)

section \<open>Closing\<close>

fun is_answer :: "DownOut \<Rightarrow> bool" where
  "is_answer (DAnswer _ _) = True"
| "is_answer _ = False"

fun quiet_after_close :: "DownOut list \<Rightarrow> bool" where
  "quiet_after_close [] = True"
| "quiet_after_close (SendDownClose _ # outs) = list_all is_answer outs"
| "quiet_after_close (_ # outs) = quiet_after_close outs"

lemma quiet_after_close_append:
  "sent_closes xs = [] \<Longrightarrow> quiet_after_close (xs @ ys) = quiet_after_close ys"
  "quiet_after_close xs \<Longrightarrow> list_all is_answer ys \<Longrightarrow> quiet_after_close (xs @ ys)"
  "sent_closes xs = [] \<Longrightarrow> quiet_after_close xs"
proof -
  show "sent_closes xs = [] \<Longrightarrow> quiet_after_close (xs @ ys) = quiet_after_close ys"
    by (induction xs rule: sent_closes.induct) simp_all
  have all: "list_all is_answer zs \<Longrightarrow> quiet_after_close zs" for zs
  proof (induction zs)
    case (Cons z zs)
    then show ?case by (cases z) simp_all
  qed simp
  show "quiet_after_close xs \<Longrightarrow> list_all is_answer ys \<Longrightarrow> quiet_after_close (xs @ ys)"
    by (induction xs rule: quiet_after_close.induct) (simp_all add: all)
  show "sent_closes xs = [] \<Longrightarrow> quiet_after_close xs"
    by (induction xs rule: sent_closes.induct) simp_all
qed

lemma answers_no_close: "list_all is_answer outs \<Longrightarrow> sent_closes outs = []"
proof (induction outs)
  case (Cons x outs)
  then show ?case by (cases x) simp_all
qed simp

definition ended :: "Down \<Rightarrow> bool" where
  "ended d \<longleftrightarrow> dw_phase d = DClosing \<or> dw_phase d = DFinished"

lemma ended_step:
  "down_step d ev = Some (d', outs) \<Longrightarrow> ended d \<Longrightarrow>
     ended d' \<and> list_all is_answer outs \<and> dw_stream_id d' = dw_stream_id d"
  by (cases ev) (auto simp: down_step_def ended_def split: if_splits option.splits)

lemma enter_chunk_close:
  assumes "enter_chunk ch send d = Some (d', outs)" and "quiet_send send"
  shows "sent_closes outs = [] \<and> dw_stream_id d' = dw_stream_id d"
  using assms(1)
proof (cases rule: enter_chunk_cases)
  case (send s c ro it ro' outs' closed)
  then show ?thesis using assms(2) unfolding quiet_send_def by fastforce
qed simp_all

lemma wait_complete_close:
  assumes "wait_complete d = (d', outs)"
  shows "sent_closes outs = [] \<or>
    ended d' \<and> (\<exists>m. outs = [SendDownClose m] \<and> dcq_stream_id m = uuid_bytes (dw_stream_id d))"
  using assms by (auto simp: wait_complete_def down_send_close_def ended_def split: if_splits)

lemma step_close:
  assumes "down_step d ev = Some (d', outs)"
  shows "dw_stream_id d' = dw_stream_id d \<and> (sent_closes outs = [] \<or> ended d' \<and>
    (\<exists>pre m. outs = pre @ [SendDownClose m] \<and> sent_closes pre = [] \<and> dcq_stream_id m = uuid_bytes (dw_stream_id d)))"
proof (cases ev)
  case (DRequestResume ar r)
  with assms down_resume_turn_quiet [of ar r d d' outs] show ?thesis
    by (simp add: down_step_def split: if_splits)
next
  case (Received msg k ok r)
  show ?thesis
  proof (cases msg)
    case (Chunk ch)
    with assms Received enter_chunk_close [of ch "send_chunks k" d d' outs] show ?thesis
      by (simp add: down_step_def chunk_turn_def split: if_splits)
  next
    case (Metadata md)
    with assms Received metadata_turn_quiet [of md ok r d d' outs] show ?thesis
      by (simp add: down_step_def split: if_splits)
  qed (use assms Received in \<open>auto simp: down_step_def complete_turn_def split: if_splits\<close>)
next
  case (Drained msg oks live r)
  show ?thesis
  proof (cases msg)
    case (Chunk ch)
    with assms Drained enter_chunk_close [of ch "try_send_chunks oks" d d' outs] show ?thesis
      by (simp add: down_step_def drain_chunk_turn_def split: if_splits)
  next
    case (Metadata md)
    with assms Drained drain_metadata_turn_quiet [of md "hd (oks @ [True])" live d d' outs] show ?thesis
      by (simp add: down_step_def split: if_splits)
  qed (use assms Drained in \<open>auto simp: down_step_def complete_turn_def split: if_splits\<close>)
next
  case (AckTick r)
  obtain d1 outs1 where "ack_turn_down d = (d1, outs1)" by fastforce
  with assms AckTick ack_turn_quiet [OF this] show ?thesis
    by (auto simp: down_step_def split: if_splits)
next
  case (DrainEnd live r live')
  with assms have "drain_end_turn live live' d = (d', outs)" by (simp add: down_step_def split: if_splits)
  then show ?thesis
  proof (cases rule: drain_end_turn_split)
    case (1 d1 outs1 outs2)
    then have q: "dw_stream_id d1 = dw_stream_id d \<and> sent_closes outs1 = []"
      using ack_turn_quiet [of d d1 outs1] by (auto split: if_splits)
    from 1(9) show ?thesis
    proof
      assume "wait_complete d1 = (d', outs2)"
      from wait_complete_close [OF this] q 1(2,8) show ?thesis by auto
    qed (use 1 q in simp)
  qed
next
  case (WaitMsg msg)
  with assms obtain d1 where w: "wait_complete d1 = (d', outs)" and "dw_stream_id d1 = dw_stream_id d"
    by (auto simp: down_step_def complete_turn_def split: if_splits ReceivableDownstreamMsg.splits)
  with wait_complete_close [OF w] wait_complete_quiet [OF w] show ?thesis by fastforce
qed (use assms in \<open>auto simp: down_step_def down_send_close_def ended_def
  split: if_splits sum.splits option.splits\<close>)

lemma down_loop_close:
  "down_loop d0 evs outs d \<Longrightarrow> dw_stream_id d = dw_stream_id d0 \<and> quiet_after_close outs \<and>
     (sent_closes outs = [] \<or> ended d \<and> (\<exists>m. sent_closes outs = [m] \<and> dcq_stream_id m = uuid_bytes (dw_stream_id d0)))"
proof (induction rule: down_loop.induct)
  case (down_loop_step evs outs d ev d' outs')
  show ?case
  proof (cases "sent_closes outs = []")
    case True
    from step_close [OF down_loop_step.hyps(2)] True down_loop_step.IH show ?thesis
      by (auto simp: quiet_after_close_append)
  next
    case False
    with down_loop_step.IH have "ended d" by blast
    from ended_step [OF down_loop_step.hyps(2) this] down_loop_step.IH show ?thesis
      by (auto simp: quiet_after_close_append answers_no_close)
  qed
qed simp

section \<open>Conversions\<close>

definition group_resolves :: "DownState \<Rightarrow> MsgDataPointGroup \<Rightarrow> DataPointGroup \<Rightarrow> bool" where
  "group_resolves s g g' \<longleftrightarrow> dpg_data_points g' = mg_data_points g \<and>
     (mg_data_id_or_alias g = Some (DataIdOrAlias_DataId (dpg_data_id g')) \<or>
      (\<exists>a. mg_data_id_or_alias g = Some (DataIdAlias a) \<and> get_data_id s a = Some (dpg_data_id g')))"

lemma convert_groups_resolves:
  "convert_groups s gs = Inr gs' \<Longrightarrow> list_all2 (group_resolves s) gs gs'"
proof (induction gs arbitrary: gs')
  case (Cons g gs)
  show ?case
  proof (cases "mg_data_id_or_alias g")
    case None
    with Cons.prems show ?thesis by simp
  next
    case (Some x)
    with Cons show ?thesis
      by (cases x) (auto simp: group_resolves_def res_bind_def split: option.splits sum.splits)
  qed
qed simp

lemma convert_groups_error: "convert_groups s gs = Inl e \<Longrightarrow> \<exists>msg. e = InvalidValue msg"
proof (induction gs)
  case (Cons g gs)
  then show ?case
    by (cases "mg_data_id_or_alias g")
      (auto simp: res_bind_def split: option.splits sum.splits DataIdOrAlias.splits)
qed simp

lemma resolve_upstream_error:
  "resolve_upstream s ua = Some (s', Inl e) \<Longrightarrow> s' = s \<and> (\<exists>msg. e = InvalidValue msg)"
  by (auto simp: resolve_upstream_def get_upstream_info_def parse_stream_id_def
      elim!: add_upstream_info_cases split: option.splits UpstreamOrAlias.splits)

lemma resolve_upstream_results:
  "resolve_upstream s ua = Some (s', r) \<Longrightarrow>
     ds_results s' = ds_results s \<and> ds_data_id_aliases s' = ds_data_id_aliases s"
  by (auto simp: resolve_upstream_def elim!: add_upstream_info_cases split: option.splits UpstreamOrAlias.splits)

lemma resolve_upstream_None:
  "resolve_upstream s ua = None \<Longrightarrow> ds_last_issued_upstream_info_alias s = Some (- 1)"
  by (auto simp: resolve_upstream_def add_upstream_info_def next_info_alias_def Let_def
      split: option.splits UpstreamOrAlias.splits sum.splits if_splits)

lemma data_id_alias_table_snoc:
  "data_id_alias_table (ids @ [d]) = hm_insert (of_nat (Suc (length ids))) d (data_id_alias_table ids)"
  by (simp add: data_id_alias_table_def hm_from_list_def enumerate_append_eq add.commute)

lemma data_id_alias_table_lookup:
  "length ids < 2 ^ 32 \<Longrightarrow> map_of (data_id_alias_table ids) a =
     (if 1 \<le> unat a \<and> unat a \<le> length ids then Some (ids ! (unat a - 1)) else None)"
proof (induction ids rule: rev_induct)
  case Nil
  then show ?case by (auto simp: data_id_alias_table_def hm_from_list_def)
next
  case (snoc d ids)
  have k: "unat (of_nat (Suc (length ids)) :: u32) = Suc (length ids)"
    using snoc.prems by (simp del: of_nat_Suc add: unat_of_nat take_bit_nat_eq_self)
  then have "a = of_nat (Suc (length ids)) \<longleftrightarrow> unat a = Suc (length ids)" by (metis word_unat_eq_iff)
  with snoc show ?case by (auto simp del: of_nat_Suc simp: data_id_alias_table_snoc nth_append)
qed

text \<open>
  As in an upstream, a second resume of the same loop repeats the token of the first, although
  the response to the first has brought a new one.
\<close>

lemma down_resume_repeats_old_token:
  assumes "dw_phase d = DResuming" and "dw_need_resume d" and "dcfg_expiry_interval (dw_config d) \<noteq> 0"
    and "dw_token d = []" and "dw_resume_token d = t0" and "t0 \<noteq> []"
    and "down_step d (DRequestResume (Inr a) (Inr t1)) = Some (d1, outs1)"
    and "down_step d1 (DGetUpdated (Inr ())) = Some (d2, outs2)"
    and "down_step d2 (DRequestResume (Inr a') r) = Some (d3, outs3)"
  shows "outs1 = [SendDownResume (down_resume_request a (dw_stream_id d) t0)] \<and> dw_resume_token d2 = t1 \<and>
    outs3 = [SendDownResume (down_resume_request a' (dw_stream_id d) t0)]"
  using assms by (cases r) (auto simp: down_step_def down_resume_turn_def Let_def split: if_splits)

section \<open>A concrete run\<close>

text \<open>Runs are executable: a list of events either is a run or is not.\<close>

fun down_trace :: "Down \<Rightarrow> DownEvent list \<Rightarrow> (Down \<times> DownOut list) option" where
  "down_trace d [] = Some (d, [])"
| "down_trace d (ev # evs) =
     (case down_step d ev of
        None \<Rightarrow> None
      | Some (d', outs) \<Rightarrow> map_option (\<lambda>(d'', outs'). (d'', outs @ outs')) (down_trace d' evs))"

lemma down_loop_trace:
  "down_trace d evs' = Some (d', outs') \<Longrightarrow> down_loop d0 evs outs d \<Longrightarrow>
     down_loop d0 (evs @ evs') (outs @ outs') d'"
proof (induction evs' arbitrary: d evs outs outs')
  case (Cons ev evs')
  then obtain d1 o1 o2 where "down_step d ev = Some (d1, o1)" "down_trace d1 evs' = Some (d', o2)" "outs' = o1 @ o2"
    by (auto split: option.splits)
  with Cons.IH [OF _ down_loop_step [OF Cons.prems(2)]] show ?case by simp
qed simp

definition a_down :: Down where
  "a_down = down_start (a_config Strict) (Uuid (replicate 16 1)) 1 [] ''t''"

definition a_message :: "u32 \<Rightarrow> MsgDownstreamChunk" where
  "a_message n = \<lparr>mdc_stream_id_alias = 1,
     mdc_stream_chunk = Some \<lparr>sc_sequence_number = n, sc_data_point_groups = []\<rparr>,
     mdc_extension_fields = None, mdc_downstream_filter_references = [],
     mdc_upstream_or_alias = Some (UOA_UpstreamInfo an_info)\<rparr>"

definition an_upstream :: UpstreamInfo where
  "an_upstream = \<lparr>ui_session_id = ''s'', ui_stream_id = Uuid (replicate 16 7), ui_source_node_id = ''n''\<rparr>"

definition a_received :: "u32 \<Rightarrow> DownstreamChunk" where
  "a_received n = \<lparr>dc_sequence_number = n, dc_data_point_groups = [], dc_upstream = an_upstream\<rparr>"

definition some_down_events :: "DownEvent list" where
  "some_down_events = [DAddDownstream (Inr ()), Received (Chunk (a_message 5)) 9 True (Inr ()),
     AckTick (Inr ()), DClose 1, DCancelled, DrainEnd True (Inr ()) True]"

definition some_down_end :: "Down \<times> DownOut list" where
  "some_down_end = the (down_trace a_down some_down_events)"

lemma convert_a_message:
  "convert_downstream_chunk (a_message n) (down_state_new []) om =
     (if om then Some (down_state_new [], Inr None)
      else Some ((down_state_new [])\<lparr>ds_last_issued_upstream_info_alias := Some 0, ds_infos := [(0, an_upstream)],
          ds_for_ack := [(0, an_info)], ds_results := [chunk_result (a_received n)]\<rparr>,
        Inr (Some (a_received n))))"
  by (simp add: convert_downstream_chunk_def a_message_def resolve_upstream_def add_upstream_info_def
      an_info_def parse_stream_id_def uuid_from_slice_def down_state_new_def next_info_alias_def Let_def
      add_sequence_number_def chunk_result_def chunk_stream_def a_received_def an_upstream_def info_message_def)

lemma send_a_received:
  "reorder_iter (reorderer_new (a_config Strict)) (a_received 5) =
     Some ((reorderer_new (a_config Strict))\<lparr>ro_next := [(Uuid (replicate 16 7), 5)],
       ro_store := [(Uuid (replicate 16 7), [(5, a_received 5)])]\<rparr>, Inr (Reordered (Uuid (replicate 16 7))))"
  "send_chunks 9 ((reorderer_new (a_config Strict))\<lparr>ro_next := [(Uuid (replicate 16 7), 5)],
       ro_store := [(Uuid (replicate 16 7), [(5, a_received 5)])]\<rparr>) (Reordered (Uuid (replicate 16 7))) =
     Some ((reorderer_new (a_config Strict))\<lparr>ro_next := [(Uuid (replicate 16 7), 6)],
       ro_store := [(Uuid (replicate 16 7), [])]\<rparr>, [ChunkOut (a_received 5) True], False)"
  by (simp_all add: reorder_iter_def open_stream_def Let_def chunk_stream_def a_received_def an_upstream_def
      eval_nat_numeral reorder_iter_next_def reorder_pop_def set_stream_def)

lemma down_state_new_last: "ds_last_issued_chunk_ack_id (down_state_new aliases) = None"
  by (simp add: down_state_new_def)

lemma down_trace_some: "\<exists>d outs. down_trace a_down some_down_events = Some (d, outs) \<and>
    (\<exists>ack close. outs = [Converted (a_received 5), ChunkOut (a_received 5) True, SendAck ack, SendDownClose close])"
  by (simp add: some_down_events_def a_down_def down_start_def down_step_def chunk_turn_def enter_chunk_def
      omit_empty_def convert_a_message send_a_received ack_turn_down_def take_ack_def Let_def down_state_new_last
      drain_end_turn_def wait_complete_def ack_pending_def down_send_close_def)

lemma some_down_run: "down_loop a_down some_down_events (snd some_down_end) (fst some_down_end)"
  using down_trace_some down_loop_trace [OF _ down_loop_start, of a_down some_down_events]
  by (auto simp: some_down_end_def)

section \<open>Properties\<close>





text \<open>
  A downstream sends at most one close request, for its own stream id, and nothing but the
  answer to its client after it.
\<close>

theorem down_closes_once:
  assumes "down_loop (down_start config sid alias aliases token) evs outs d"
  shows "length (sent_closes outs) \<le> 1 \<and> quiet_after_close outs \<and>
    list_all (\<lambda>m. dcq_stream_id m = uuid_bytes sid) (sent_closes outs)"
proof -
  have "dw_stream_id (down_start config sid alias aliases token) = sid" by (simp add: down_start_def)
  with down_loop_close [OF assms] show ?thesis by auto
qed

theorem down_closes_once_witness:
  "length (sent_closes (snd some_down_end)) \<le> 1 \<and> quiet_after_close (snd some_down_end) \<and>
    list_all (\<lambda>m. dcq_stream_id m = uuid_bytes (Uuid (replicate 16 1))) (sent_closes (snd some_down_end))"
  by (rule down_closes_once [OF some_down_run [unfolded a_down_def]])


text \<open>
  The data id aliases a downstream opens with are 1, 2, ... for the configured data ids, and
  the aliases of received data point groups are read back through them.
\<close>

theorem data_id_aliases_round_trip:
  assumes "length (dcfg_data_ids config) < 2 ^ 32"
    and "downstream_open_request config alias_result = Inr (request, alias, aliases)"
  shows "get_data_id (down_state_new aliases) a =
      (if 1 \<le> unat a \<and> unat a \<le> length (dcfg_data_ids config)
       then Some (dcfg_data_ids config ! (unat a - 1)) else None) \<and>
    doq_data_id_aliases request = aliases"
proof -
  have "aliases = data_id_alias_table (dcfg_data_ids config)" "doq_data_id_aliases request = aliases"
    using assms(2) by (auto simp: downstream_open_request_def Let_def res_bind_def split: if_splits sum.splits)
  then show ?thesis
    using data_id_alias_table_lookup [OF assms(1)] by (simp add: get_data_id_def down_state_new_def)
qed

definition a_two_id_config :: DownstreamConfig where
  "a_two_id_config = downstream_config_default
     \<lparr>dcfg_data_ids := [\<lparr>did_name = ''a'', did_type = ''t''\<rparr>, \<lparr>did_name = ''b'', did_type = ''t''\<rparr>]\<rparr>"

theorem data_id_aliases_round_trip_witness:
  "\<exists>request aliases. downstream_open_request a_two_id_config (Inr 1) = Inr (request, 1, aliases) \<and>
    get_data_id (down_state_new aliases) 2 =
      (if 1 \<le> unat (2 :: u32) \<and> unat (2 :: u32) \<le> length (dcfg_data_ids a_two_id_config)
       then Some (dcfg_data_ids a_two_id_config ! (unat (2 :: u32) - 1)) else None) \<and>
    doq_data_id_aliases request = aliases"
proof -
  obtain request aliases where "downstream_open_request a_two_id_config (Inr 1) = Inr (request, 1, aliases)"
    by (simp add: downstream_open_request_def a_two_id_config_def downstream_config_default_def Let_def
        res_bind_def secs_def)
  moreover have "length (dcfg_data_ids a_two_id_config) < 2 ^ 32"
    by (simp add: a_two_id_config_def)
  ultimately show ?thesis using data_id_aliases_round_trip by blast
qed

text \<open>
  A chunk left in the channel when a connection ends is put down for acknowledgement even
  when the client's channel has no room for it: the chunk is then dropped although the server
  is told that it was received.
\<close>

theorem drained_chunk_acked_but_dropped:
  assumes "dw_phase d = DDraining" and "\<not> ro_enabled (dw_reorderer d)"
    and "convert_downstream_chunk chunk (dw_state d) (omit_empty d) = Some (s, Inr (Some c))"
  shows "case down_step d (Drained (Chunk chunk) [False] live ack_result) of
      None \<Rightarrow> False
    | Some (d', outs) \<Rightarrow> outs = [Converted c, ChunkOut c False] \<and> chunk_result c \<in> set (ds_results (dw_state d'))"
proof -
  have r: "reorder_iter (dw_reorderer d) c = Some (dw_reorderer d, Inr (NotReordered (Some c)))"
    using assms(2) by (simp add: reorder_iter_def)
  have "reorder_drain (dw_reorderer d) (NotReordered (Some c)) = Some (dw_reorderer d, [c])"
    by (subst reorder_drain.simps, simp add: reorder_iter_next_def)
      (subst reorder_drain.simps, simp add: reorder_iter_next_def)
  moreover have "chunk_result c \<in> set (ds_results s)"
    using assms(3) by (cases rule: convert_chunk_cases)
      (simp_all add: add_sequence_number_def chunk_result_def chunk_stream_def)
  ultimately show ?thesis
    using assms by (simp add: down_step_def drain_chunk_turn_def enter_chunk_def r try_send_chunks_def)
qed

definition a_draining :: Down where
  "a_draining = (down_start downstream_config_default (Uuid (replicate 16 1)) 1 [] ''t'')\<lparr>dw_phase := DDraining\<rparr>"

theorem drained_chunk_acked_but_dropped_witness:
  "case down_step a_draining (Drained (Chunk (a_message 5)) [False] True (Inr ())) of
      None \<Rightarrow> False
    | Some (d', outs) \<Rightarrow> outs = [Converted (a_received 5), ChunkOut (a_received 5) False] \<and>
        chunk_result (a_received 5) \<in> set (ds_results (dw_state d'))"
  by (rule drained_chunk_acked_but_dropped)
    (simp_all add: a_draining_def down_start_def omit_empty_def convert_a_message downstream_config_default_def)

text \<open>
  The acknowledgements a downstream sends are numbered 0, 1, 2, ... (wrapping around) across
  reconnections; since ids start at 0 and the greatest completed id also starts at 0, the wait
  before the close request waits exactly while the greatest completed id is below the last issued
  one, and so never for the completion of the first acknowledgement.
\<close>

theorem ack_ids_and_close_wait:
  assumes "down_loop (down_start config sid alias aliases token) evs outs d"
  shows "map dca_ack_id (sent_acks outs) = consecutive 0 (length (sent_acks outs)) \<and>
    (ack_pending d \<longleftrightarrow> sent_acks outs \<noteq> [] \<and>
       dw_ack_id_complete d < of_nat (length (sent_acks outs) - 1))"
proof -
  have "dw_state (down_start config sid alias aliases token) = down_state_new aliases"
    by (simp add: down_start_def)
  from down_loop_run [OF assms this] obtain ops
    where "down_run (down_state_new aliases) ops (sent_acks outs) (dw_state d)" by blast
  from down_run_ack_state [OF this refl] show ?thesis
    by (cases "sent_acks outs") (auto simp: ack_state_ok_def ack_pending_def not_le)
qed

theorem ack_ids_and_close_wait_witness:
  "map dca_ack_id (sent_acks (snd some_down_end)) = consecutive 0 (length (sent_acks (snd some_down_end))) \<and>
    (ack_pending (fst some_down_end) \<longleftrightarrow> sent_acks (snd some_down_end) \<noteq> [] \<and>
       dw_ack_id_complete (fst some_down_end) < of_nat (length (sent_acks (snd some_down_end)) - 1))"
  by (rule ack_ids_and_close_wait [OF some_down_run [unfolded a_down_def]])

end
