(* ===== verification/Requests.thy ===== *)
theory Requests
  imports Types
begin

text \<open>
  Requests and their responses (\<open>message/mod.rs\<close>): the nine \<open>RequestMessage\<close> implementations
  with the conversions to and from \<open>Message\<close> that the macros generate, and what
  \<open>request_message_need_response\<close> makes of the message that answers a request.
\<close>

section \<open>Conversions\<close>

text \<open>\<open>From<M> for Message\<close> is the constructor of the variant; \<open>TryFrom<Message>\<close> its inverse.\<close>

definition into_message :: "MessageEnum \<Rightarrow> Message" where
  "into_message e = \<lparr>msg_message = Some e\<rparr>"

definition try_from_message :: "(MessageEnum \<Rightarrow> 'a option) \<Rightarrow> Message \<Rightarrow> 'a option" where
  "try_from_message variant m = Option.bind (msg_message m) variant"

fun as_ConnectResponse :: "MessageEnum \<Rightarrow> ConnectResponse option" where
  "as_ConnectResponse (M_ConnectResponse a) = Some a"
| "as_ConnectResponse _ = None"

fun as_DownstreamCloseResponse :: "MessageEnum \<Rightarrow> DownstreamCloseResponse option" where
  "as_DownstreamCloseResponse (M_DownstreamCloseResponse a) = Some a"
| "as_DownstreamCloseResponse _ = None"

fun as_DownstreamMetadataAck :: "MessageEnum \<Rightarrow> DownstreamMetadataAck option" where
  "as_DownstreamMetadataAck (M_DownstreamMetadataAck a) = Some a"
| "as_DownstreamMetadataAck _ = None"

fun as_DownstreamOpenResponse :: "MessageEnum \<Rightarrow> DownstreamOpenResponse option" where
  "as_DownstreamOpenResponse (M_DownstreamOpenResponse a) = Some a"
| "as_DownstreamOpenResponse _ = None"

fun as_DownstreamResumeResponse :: "MessageEnum \<Rightarrow> DownstreamResumeResponse option" where
  "as_DownstreamResumeResponse (M_DownstreamResumeResponse a) = Some a"
| "as_DownstreamResumeResponse _ = None"

fun as_UpstreamCloseResponse :: "MessageEnum \<Rightarrow> UpstreamCloseResponse option" where
  "as_UpstreamCloseResponse (M_UpstreamCloseResponse a) = Some a"
| "as_UpstreamCloseResponse _ = None"

fun as_UpstreamMetadataAck :: "MessageEnum \<Rightarrow> UpstreamMetadataAck option" where
  "as_UpstreamMetadataAck (M_UpstreamMetadataAck a) = Some a"
| "as_UpstreamMetadataAck _ = None"

fun as_UpstreamOpenResponse :: "MessageEnum \<Rightarrow> UpstreamOpenResponse option" where
  "as_UpstreamOpenResponse (M_UpstreamOpenResponse a) = Some a"
| "as_UpstreamOpenResponse _ = None"

fun as_UpstreamResumeResponse :: "MessageEnum \<Rightarrow> UpstreamResumeResponse option" where
  "as_UpstreamResumeResponse (M_UpstreamResumeResponse a) = Some a"
| "as_UpstreamResumeResponse _ = None"

section \<open>Request ids\<close>

text \<open>\<open>set_request_id\<close> and the conversion of the request, for every request type.\<close>

datatype Request =
  RQ_Connect ConnectRequest
| RQ_DownstreamClose DownstreamCloseRequest
| RQ_DownstreamMetadata MsgDownstreamMetadata
| RQ_DownstreamOpen DownstreamOpenRequest
| RQ_DownstreamResume DownstreamResumeRequest
| RQ_UpstreamClose UpstreamCloseRequest
| RQ_UpstreamMetadata UpstreamMetadata
| RQ_UpstreamOpen UpstreamOpenRequest
| RQ_UpstreamResume UpstreamResumeRequest

datatype Response =
  RS_Connect ConnectResponse
| RS_DownstreamClose DownstreamCloseResponse
| RS_DownstreamMetadata DownstreamMetadataAck
| RS_DownstreamOpen DownstreamOpenResponse
| RS_DownstreamResume DownstreamResumeResponse
| RS_UpstreamClose UpstreamCloseResponse
| RS_UpstreamMetadata UpstreamMetadataAck
| RS_UpstreamOpen UpstreamOpenResponse
| RS_UpstreamResume UpstreamResumeResponse

fun request_message :: "u32 \<Rightarrow> Request \<Rightarrow> Message" where
  "request_message i (RQ_Connect q) = into_message (M_ConnectRequest (q\<lparr>cnq_request_id := i\<rparr>))"
| "request_message i (RQ_DownstreamClose q) = into_message (M_DownstreamCloseRequest (q\<lparr>dcq_request_id := i\<rparr>))"
| "request_message i (RQ_DownstreamMetadata q) = into_message (M_DownstreamMetadata (q\<lparr>mdm_request_id := i\<rparr>))"
| "request_message i (RQ_DownstreamOpen q) = into_message (M_DownstreamOpenRequest (q\<lparr>doq_request_id := i\<rparr>))"
| "request_message i (RQ_DownstreamResume q) = into_message (M_DownstreamResumeRequest (q\<lparr>drq_request_id := i\<rparr>))"
| "request_message i (RQ_UpstreamClose q) = into_message (M_UpstreamCloseRequest (q\<lparr>ucq_request_id := i\<rparr>))"
| "request_message i (RQ_UpstreamMetadata q) = into_message (M_UpstreamMetadata (q\<lparr>mum_request_id := i\<rparr>))"
| "request_message i (RQ_UpstreamOpen q) = into_message (M_UpstreamOpenRequest (q\<lparr>uoq_request_id := i\<rparr>))"
| "request_message i (RQ_UpstreamResume q) = into_message (M_UpstreamResumeRequest (q\<lparr>urq_request_id := i\<rparr>))"

section \<open>The answer to a request\<close>

definition take_response ::
  "(MessageEnum \<Rightarrow> 'r option) \<Rightarrow> ('r \<Rightarrow> i32) \<Rightarrow> ('r \<Rightarrow> string) \<Rightarrow> Message \<Rightarrow> 'r res" where
  "take_response variant code result_string m =
     (case try_from_message variant m of
        None \<Rightarrow> Inl (InvalidValue ''unexpected message returned'')
      | Some r \<Rightarrow>
          (case result_code_try_from (code r) of
             None \<Rightarrow> Inl (InvalidValue ''unknown result code'')
           | Some c \<Rightarrow> if c \<noteq> Succeeded then Inl (FailedMessage c (result_string r)) else Inr r))"

fun response_of :: "Request \<Rightarrow> Message \<Rightarrow> Response res" where
  "response_of (RQ_Connect _) m =
     res_bind (take_response as_ConnectResponse cnr_result_code cnr_result_string m) (\<lambda>r. Inr (RS_Connect r))"
| "response_of (RQ_DownstreamClose _) m =
     res_bind (take_response as_DownstreamCloseResponse dcr_result_code dcr_result_string m) (\<lambda>r. Inr (RS_DownstreamClose r))"
| "response_of (RQ_DownstreamMetadata _) m =
     res_bind (take_response as_DownstreamMetadataAck dma_result_code dma_result_string m) (\<lambda>r. Inr (RS_DownstreamMetadata r))"
| "response_of (RQ_DownstreamOpen _) m =
     res_bind (take_response as_DownstreamOpenResponse dor_result_code dor_result_string m) (\<lambda>r. Inr (RS_DownstreamOpen r))"
| "response_of (RQ_DownstreamResume _) m =
     res_bind (take_response as_DownstreamResumeResponse drr_result_code drr_result_string m) (\<lambda>r. Inr (RS_DownstreamResume r))"
| "response_of (RQ_UpstreamClose _) m =
     res_bind (take_response as_UpstreamCloseResponse ucr_result_code ucr_result_string m) (\<lambda>r. Inr (RS_UpstreamClose r))"
| "response_of (RQ_UpstreamMetadata _) m =
     res_bind (take_response as_UpstreamMetadataAck uma_result_code uma_result_string m) (\<lambda>r. Inr (RS_UpstreamMetadata r))"
| "response_of (RQ_UpstreamOpen _) m =
     res_bind (take_response as_UpstreamOpenResponse uor_result_code uor_result_string m) (\<lambda>r. Inr (RS_UpstreamOpen r))"
| "response_of (RQ_UpstreamResume _) m =
     res_bind (take_response as_UpstreamResumeResponse urr_result_code urr_result_string m) (\<lambda>r. Inr (RS_UpstreamResume r))"

section \<open>The contract of a request type\<close>

text \<open>
  What \<open>RequestMessage\<close>, \<open>HasRequestId\<close> and \<open>HasResultCode\<close> promise of a request type and
  its response: the id that is set is the id of the message, the response is the variant the
  conversion reads, and its accessors are those of the message.
\<close>

locale request_type =
  fixes into :: "'q \<Rightarrow> MessageEnum" and set_request_id :: "u32 \<Rightarrow> 'q \<Rightarrow> 'q"
    and request_id :: "'q \<Rightarrow> u32"
    and variant :: "MessageEnum \<Rightarrow> 'r option" and response :: "'r \<Rightarrow> MessageEnum"
    and response_id :: "'r \<Rightarrow> u32" and code :: "'r \<Rightarrow> i32" and result_string :: "'r \<Rightarrow> string"
  assumes set_id: "request_id (set_request_id i q) = i"
    and into_id: "message_request_id (into_message (into q)) = Some (request_id q)"
    and variant_iff: "variant e = Some r \<longleftrightarrow> e = response r"
    and response_id: "message_request_id (into_message (response r)) = Some (response_id r)"
begin

lemma sent_id: "message_request_id (into_message (into (set_request_id i q))) = Some i"
  by (simp add: into_id set_id)

lemma try_from_iff: "try_from_message variant m = Some r \<longleftrightarrow> m = into_message (response r)"
  by (cases m) (auto simp: try_from_message_def into_message_def variant_iff bind_eq_Some_conv)

lemma take_Inr:
  "take_response variant code result_string m = Inr r \<longleftrightarrow>
     m = into_message (response r) \<and> result_code_try_from (code r) = Some Succeeded"
  unfolding try_from_iff [symmetric] by (auto simp: take_response_def split: option.splits)

lemma take_failed:
  "take_response variant code result_string m = Inl (FailedMessage c s) \<longleftrightarrow>
     c \<noteq> Succeeded \<and> (\<exists>r. m = into_message (response r) \<and>
       result_code_try_from (code r) = Some c \<and> s = result_string r)"
  unfolding try_from_iff [symmetric] by (auto simp: take_response_def split: option.splits)

lemma take_error:
  "take_response variant code result_string m = Inl e \<Longrightarrow> (\<exists>c s. e = FailedMessage c s) \<or> (\<exists>s. e = InvalidValue s)"
  by (auto simp: take_response_def split: option.splits if_splits)

lemma take_id:
  "take_response variant code result_string m = Inr r \<Longrightarrow> message_request_id m = Some (response_id r)"
  by (simp add: take_Inr response_id)

end

lemma as_ConnectResponse_iff: "as_ConnectResponse e = Some r \<longleftrightarrow> e = M_ConnectResponse r"
  by (cases e) auto

interpretation connect: request_type M_ConnectRequest "\<lambda>i q. q\<lparr>cnq_request_id := i\<rparr>" cnq_request_id
  as_ConnectResponse M_ConnectResponse cnr_request_id cnr_result_code cnr_result_string
  by unfold_locales (simp_all add: message_request_id_def into_message_def as_ConnectResponse_iff)

lemma as_DownstreamCloseResponse_iff: "as_DownstreamCloseResponse e = Some r \<longleftrightarrow> e = M_DownstreamCloseResponse r"
  by (cases e) auto

interpretation downstream_close: request_type M_DownstreamCloseRequest "\<lambda>i q. q\<lparr>dcq_request_id := i\<rparr>" dcq_request_id
  as_DownstreamCloseResponse M_DownstreamCloseResponse dcr_request_id dcr_result_code dcr_result_string
  by unfold_locales (simp_all add: message_request_id_def into_message_def as_DownstreamCloseResponse_iff)

lemma as_DownstreamMetadataAck_iff: "as_DownstreamMetadataAck e = Some r \<longleftrightarrow> e = M_DownstreamMetadataAck r"
  by (cases e) auto

interpretation downstream_metadata: request_type M_DownstreamMetadata "\<lambda>i q. q\<lparr>mdm_request_id := i\<rparr>" mdm_request_id
  as_DownstreamMetadataAck M_DownstreamMetadataAck dma_request_id dma_result_code dma_result_string
  by unfold_locales (simp_all add: message_request_id_def into_message_def as_DownstreamMetadataAck_iff)

lemma as_DownstreamOpenResponse_iff: "as_DownstreamOpenResponse e = Some r \<longleftrightarrow> e = M_DownstreamOpenResponse r"
  by (cases e) auto

interpretation downstream_open: request_type M_DownstreamOpenRequest "\<lambda>i q. q\<lparr>doq_request_id := i\<rparr>" doq_request_id
  as_DownstreamOpenResponse M_DownstreamOpenResponse dor_request_id dor_result_code dor_result_string
  by unfold_locales (simp_all add: message_request_id_def into_message_def as_DownstreamOpenResponse_iff)

lemma as_DownstreamResumeResponse_iff: "as_DownstreamResumeResponse e = Some r \<longleftrightarrow> e = M_DownstreamResumeResponse r"
  by (cases e) auto

interpretation downstream_resume: request_type M_DownstreamResumeRequest "\<lambda>i q. q\<lparr>drq_request_id := i\<rparr>" drq_request_id
  as_DownstreamResumeResponse M_DownstreamResumeResponse drr_request_id drr_result_code drr_result_string
  by unfold_locales (simp_all add: message_request_id_def into_message_def as_DownstreamResumeResponse_iff)

lemma as_UpstreamCloseResponse_iff: "as_UpstreamCloseResponse e = Some r \<longleftrightarrow> e = M_UpstreamCloseResponse r"
  by (cases e) auto

interpretation upstream_close: request_type M_UpstreamCloseRequest "\<lambda>i q. q\<lparr>ucq_request_id := i\<rparr>" ucq_request_id
  as_UpstreamCloseResponse M_UpstreamCloseResponse ucr_request_id ucr_result_code ucr_result_string
  by unfold_locales (simp_all add: message_request_id_def into_message_def as_UpstreamCloseResponse_iff)

lemma as_UpstreamMetadataAck_iff: "as_UpstreamMetadataAck e = Some r \<longleftrightarrow> e = M_UpstreamMetadataAck r"
  by (cases e) auto

interpretation upstream_metadata: request_type M_UpstreamMetadata "\<lambda>i q. q\<lparr>mum_request_id := i\<rparr>" mum_request_id
  as_UpstreamMetadataAck M_UpstreamMetadataAck uma_request_id uma_result_code uma_result_string
  by unfold_locales (simp_all add: message_request_id_def into_message_def as_UpstreamMetadataAck_iff)

lemma as_UpstreamOpenResponse_iff: "as_UpstreamOpenResponse e = Some r \<longleftrightarrow> e = M_UpstreamOpenResponse r"
  by (cases e) auto

interpretation upstream_open: request_type M_UpstreamOpenRequest "\<lambda>i q. q\<lparr>uoq_request_id := i\<rparr>" uoq_request_id
  as_UpstreamOpenResponse M_UpstreamOpenResponse uor_request_id uor_result_code uor_result_string
  by unfold_locales (simp_all add: message_request_id_def into_message_def as_UpstreamOpenResponse_iff)

lemma as_UpstreamResumeResponse_iff: "as_UpstreamResumeResponse e = Some r \<longleftrightarrow> e = M_UpstreamResumeResponse r"
  by (cases e) auto

interpretation upstream_resume: request_type M_UpstreamResumeRequest "\<lambda>i q. q\<lparr>urq_request_id := i\<rparr>" urq_request_id
  as_UpstreamResumeResponse M_UpstreamResumeResponse urr_request_id urr_result_code urr_result_string
  by unfold_locales (simp_all add: message_request_id_def into_message_def as_UpstreamResumeResponse_iff)

lemmas sent_ids = connect.sent_id downstream_close.sent_id downstream_metadata.sent_id downstream_open.sent_id downstream_resume.sent_id upstream_close.sent_id upstream_metadata.sent_id upstream_open.sent_id upstream_resume.sent_id

lemmas takes = connect.take_Inr downstream_close.take_Inr downstream_metadata.take_Inr downstream_open.take_Inr downstream_resume.take_Inr upstream_close.take_Inr upstream_metadata.take_Inr upstream_open.take_Inr upstream_resume.take_Inr

lemma request_message_id: "message_request_id (request_message i q) = Some i"
  by (cases q) (simp_all add: sent_ids)

section \<open>Properties\<close>

fun response_message :: "Response \<Rightarrow> Message" where
  "response_message (RS_Connect r) = into_message (M_ConnectResponse r)"
| "response_message (RS_DownstreamClose r) = into_message (M_DownstreamCloseResponse r)"
| "response_message (RS_DownstreamMetadata r) = into_message (M_DownstreamMetadataAck r)"
| "response_message (RS_DownstreamOpen r) = into_message (M_DownstreamOpenResponse r)"
| "response_message (RS_DownstreamResume r) = into_message (M_DownstreamResumeResponse r)"
| "response_message (RS_UpstreamClose r) = into_message (M_UpstreamCloseResponse r)"
| "response_message (RS_UpstreamMetadata r) = into_message (M_UpstreamMetadataAck r)"
| "response_message (RS_UpstreamOpen r) = into_message (M_UpstreamOpenResponse r)"
| "response_message (RS_UpstreamResume r) = into_message (M_UpstreamResumeResponse r)"

fun response_code :: "Response \<Rightarrow> i32 \<times> string" where
  "response_code (RS_Connect r) = (cnr_result_code r, cnr_result_string r)"
| "response_code (RS_DownstreamClose r) = (dcr_result_code r, dcr_result_string r)"
| "response_code (RS_DownstreamMetadata r) = (dma_result_code r, dma_result_string r)"
| "response_code (RS_DownstreamOpen r) = (dor_result_code r, dor_result_string r)"
| "response_code (RS_DownstreamResume r) = (drr_result_code r, drr_result_string r)"
| "response_code (RS_UpstreamClose r) = (ucr_result_code r, ucr_result_string r)"
| "response_code (RS_UpstreamMetadata r) = (uma_result_code r, uma_result_string r)"
| "response_code (RS_UpstreamOpen r) = (uor_result_code r, uor_result_string r)"
| "response_code (RS_UpstreamResume r) = (urr_result_code r, urr_result_string r)"

fun answers :: "Request \<Rightarrow> Response \<Rightarrow> bool" where
  "answers (RQ_Connect _) r = (case r of RS_Connect _ \<Rightarrow> True | _ \<Rightarrow> False)"
| "answers (RQ_DownstreamClose _) r = (case r of RS_DownstreamClose _ \<Rightarrow> True | _ \<Rightarrow> False)"
| "answers (RQ_DownstreamMetadata _) r = (case r of RS_DownstreamMetadata _ \<Rightarrow> True | _ \<Rightarrow> False)"
| "answers (RQ_DownstreamOpen _) r = (case r of RS_DownstreamOpen _ \<Rightarrow> True | _ \<Rightarrow> False)"
| "answers (RQ_DownstreamResume _) r = (case r of RS_DownstreamResume _ \<Rightarrow> True | _ \<Rightarrow> False)"
| "answers (RQ_UpstreamClose _) r = (case r of RS_UpstreamClose _ \<Rightarrow> True | _ \<Rightarrow> False)"
| "answers (RQ_UpstreamMetadata _) r = (case r of RS_UpstreamMetadata _ \<Rightarrow> True | _ \<Rightarrow> False)"
| "answers (RQ_UpstreamOpen _) r = (case r of RS_UpstreamOpen _ \<Rightarrow> True | _ \<Rightarrow> False)"
| "answers (RQ_UpstreamResume _) r = (case r of RS_UpstreamResume _ \<Rightarrow> True | _ \<Rightarrow> False)"

lemmas takes_failed = connect.take_failed downstream_close.take_failed downstream_metadata.take_failed downstream_open.take_failed downstream_resume.take_failed upstream_close.take_failed upstream_metadata.take_failed upstream_open.take_failed upstream_resume.take_failed

lemma answers_iff:
  "answers (RQ_Connect q0) r \<longleftrightarrow> (\<exists>a. r = RS_Connect a)"
  "answers (RQ_DownstreamClose q1) r \<longleftrightarrow> (\<exists>a. r = RS_DownstreamClose a)"
  "answers (RQ_DownstreamMetadata q2) r \<longleftrightarrow> (\<exists>a. r = RS_DownstreamMetadata a)"
  "answers (RQ_DownstreamOpen q3) r \<longleftrightarrow> (\<exists>a. r = RS_DownstreamOpen a)"
  "answers (RQ_DownstreamResume q4) r \<longleftrightarrow> (\<exists>a. r = RS_DownstreamResume a)"
  "answers (RQ_UpstreamClose q5) r \<longleftrightarrow> (\<exists>a. r = RS_UpstreamClose a)"
  "answers (RQ_UpstreamMetadata q6) r \<longleftrightarrow> (\<exists>a. r = RS_UpstreamMetadata a)"
  "answers (RQ_UpstreamOpen q7) r \<longleftrightarrow> (\<exists>a. r = RS_UpstreamOpen a)"
  "answers (RQ_UpstreamResume q8) r \<longleftrightarrow> (\<exists>a. r = RS_UpstreamResume a)"
  by (cases r; simp)+


end
