(* ===== verification/Wire.thy ===== *)
theory Wire
  imports Requests Downstream
begin

text \<open>
  The wire connection (\<open>wire/mod.rs\<close>, \<open>wire/read_loop.rs\<close>): the shared state of a connection,
  the operations of its clients, the read loops that route what arrives, the ping loop, and the
  connection as a state machine whose events are the completions of their \<open>await\<close>s.  A channel
  is the number of its sender; \<open>ci_written\<close> is what the write loop's channel has accepted.
\<close>

section \<open>Counters\<close>

text \<open>\<open>AtomicCell::fetch_add\<close>: the value before, the cell after.\<close>

definition fetch_add :: "u32 \<Rightarrow> u32 \<Rightarrow> u32 \<times> u32" where
  "fetch_add cell n = (cell, cell + n)"

text \<open>What a cell of that kind hands out: its start, then steps of its stride, wrapping around.\<close>

fun fetches :: "u32 \<Rightarrow> u32 \<Rightarrow> nat \<Rightarrow> u32 list" where
  "fetches stride cell 0 = []"
| "fetches stride cell (Suc k) = (case fetch_add cell stride of (v, cell') \<Rightarrow> v # fetches stride cell' k)"

lemma fetches_nth: "i < k \<Longrightarrow> fetches stride cell k ! i = cell + of_nat i * stride"
proof (induction k arbitrary: cell i)
  case (Suc k)
  then show ?case by (cases i) (simp_all add: fetch_add_def algebra_simps)
qed simp

lemma length_fetches [simp]: "length (fetches stride cell k) = k"
  by (induction k arbitrary: cell) (simp_all add: fetch_add_def)

lemma fetches_snoc: "fetches stride cell (Suc k) = fetches stride cell k @ [cell + of_nat k * stride]"
proof (induction k arbitrary: cell)
  case (Suc k)
  from Suc [of "cell + stride"] show ?case by (simp add: fetch_add_def algebra_simps)
qed (simp add: fetch_add_def)

section \<open>The shared state\<close>

record ConnInner =
  ci_written :: "Message list"
  ci_unreliable :: "Message list option"
  ci_response_senders :: "(u32, nat) hash_map"
  ci_request_id_counter :: u32
  ci_cancelled :: bool
  ci_alias_counter :: u32

definition conn_inner_new :: "bool \<Rightarrow> ConnInner" where
  "conn_inner_new unreliable =
     \<lparr>ci_written = [], ci_unreliable = (if unreliable then Some [] else None),
      ci_response_senders = [], ci_request_id_counter = 0, ci_cancelled = False, ci_alias_counter = 1\<rparr>"

definition request_id_get :: "ConnInner \<Rightarrow> ConnInner \<times> u32" where
  "request_id_get c =
     (case fetch_add (ci_request_id_counter c) 2 of (i, n) \<Rightarrow> (c\<lparr>ci_request_id_counter := n\<rparr>, i))"

definition downstream_stream_id_alias :: "ConnInner \<Rightarrow> ConnInner \<times> u32 res" where
  "downstream_stream_id_alias c =
     (case fetch_add (ci_alias_counter c) 1 of (stream_id_alias, n) \<Rightarrow>
        (c\<lparr>ci_alias_counter := n\<rparr>,
         if stream_id_alias = 0 then Inl (Unexpected ''stream id alias max reached'')
         else Inr stream_id_alias))"

definition add_response_sender :: "u32 \<Rightarrow> nat \<Rightarrow> ConnInner \<Rightarrow> ConnInner" where
  "add_response_sender request_id sender c =
     c\<lparr>ci_response_senders := hm_insert request_id sender (ci_response_senders c)\<rparr>"

definition remove_response_sender :: "u32 \<Rightarrow> ConnInner \<Rightarrow> ConnInner \<times> nat option" where
  "remove_response_sender request_id c =
     (c\<lparr>ci_response_senders := hm_remove request_id (ci_response_senders c)\<rparr>,
      map_of (ci_response_senders c) request_id)"

section \<open>Sending\<close>

text \<open>What \<open>timeout_with_ct\<close> around a channel's \<open>send\<close> returned.\<close>

datatype SendOutcome = Sent | LoopClosed | SendTimedOut | SendCancelled

definition send_result :: "string \<Rightarrow> SendOutcome \<Rightarrow> unit res" where
  "send_result closed outcome =
     (case outcome of
        Sent \<Rightarrow> Inr ()
      | LoopClosed \<Rightarrow> Inl (Unexpected closed)
      | SendTimedOut \<Rightarrow> Inl (Timeout '''')
      | SendCancelled \<Rightarrow> Inl CancelledByClose)"

definition send_message :: "Message \<Rightarrow> SendOutcome \<Rightarrow> ConnInner \<Rightarrow> ConnInner \<times> unit res" where
  "send_message msg outcome c =
     (if outcome = Sent then c\<lparr>ci_written := ci_written c @ [msg]\<rparr> else c,
      send_result ''write loop closed'' outcome)"

definition send_message_unreliable :: "Message \<Rightarrow> SendOutcome \<Rightarrow> ConnInner \<Rightarrow> ConnInner \<times> unit res" where
  "send_message_unreliable msg outcome c =
     (case ci_unreliable c of
        Some sent \<Rightarrow>
          (if outcome = Sent then c\<lparr>ci_unreliable := Some (sent @ [msg])\<rparr> else c,
           send_result ''unreliable write loop closed'' outcome)
      | None \<Rightarrow> send_message msg outcome c)"

definition send_message_with_qos :: "Message \<Rightarrow> QoS \<Rightarrow> SendOutcome \<Rightarrow> ConnInner \<Rightarrow> ConnInner \<times> unit res" where
  "send_message_with_qos msg qos outcome c =
     (if qos = Unreliable then send_message_unreliable msg outcome c else send_message msg outcome c)"

text \<open>\<open>request_message_need_response\<close> up to the wait for the answer, and after it.\<close>

definition request_begin :: "nat \<Rightarrow> Request \<Rightarrow> SendOutcome \<Rightarrow> ConnInner \<Rightarrow> ConnInner \<times> u32 \<times> unit res" where
  "request_begin tx request outcome c =
     (case request_id_get c of (c, request_id) \<Rightarrow>
      case send_message (request_message request_id request) outcome (add_response_sender request_id tx c) of
        (c, r) \<Rightarrow> (c, request_id, r))"

datatype ReplyOutcome = Replied Message | ReplyClosed | ReplyTimedOut | ReplyCancelled

definition request_finish :: "Request \<Rightarrow> ReplyOutcome \<Rightarrow> Response res" where
  "request_finish request outcome =
     (case outcome of
        Replied m \<Rightarrow> response_of request m
      | ReplyClosed \<Rightarrow> Inl (Unexpected ''internal channel closed'')
      | ReplyTimedOut \<Rightarrow> Inl (Timeout '''')
      | ReplyCancelled \<Rightarrow> Inl CancelledByClose)"

section \<open>Read loop channels\<close>

record ReadLoopChannels =
  rc_upstream_chunk_ack :: "(u32, nat) hash_map"
  rc_downstream_msg :: "(u32, nat) hash_map"
  rc_call_ack :: "(string, nat) hash_map"

definition channels_default :: ReadLoopChannels where
  "channels_default = \<lparr>rc_upstream_chunk_ack = [], rc_downstream_msg = [], rc_call_ack = []\<rparr>"

datatype ReadLoopCommand =
  AddUpstream u32 nat
| RemoveUpstream u32
| AddDownstream u32 nat
| RemoveDownstream u32
| SubscribeCallAck string nat
| RemoveCallAck string

fun process_command :: "ReadLoopCommand \<Rightarrow> ReadLoopChannels \<Rightarrow> ReadLoopChannels" where
  "process_command (AddUpstream a tx) ch =
     ch\<lparr>rc_upstream_chunk_ack := hm_insert a tx (rc_upstream_chunk_ack ch)\<rparr>"
| "process_command (RemoveUpstream a) ch =
     ch\<lparr>rc_upstream_chunk_ack := hm_remove a (rc_upstream_chunk_ack ch)\<rparr>"
| "process_command (AddDownstream a tx) ch =
     ch\<lparr>rc_downstream_msg := hm_insert a tx (rc_downstream_msg ch)\<rparr>"
| "process_command (RemoveDownstream a) ch =
     ch\<lparr>rc_downstream_msg := hm_remove a (rc_downstream_msg ch)\<rparr>"
| "process_command (SubscribeCallAck call_id tx) ch =
     ch\<lparr>rc_call_ack := hm_insert call_id tx (rc_call_ack ch)\<rparr>"
| "process_command (RemoveCallAck call_id) ch =
     ch\<lparr>rc_call_ack := hm_remove call_id (rc_call_ack ch)\<rparr>"

text \<open>What the loops of a connection hand on.\<close>

datatype WireOut =
  Begun nat u32 "unit res"
| Pinged u32
| ToUpstream nat UpstreamChunkAck
| ToDownstream nat ReceivableDownstreamMsg
| ToCallAck nat UpstreamCallAck
| ToResponse nat Message
| ToPingLoop Pong
| Broadcast MsgDownstreamCall
| Dropped Message

definition to_channel :: "('k, nat) hash_map \<Rightarrow> 'k \<Rightarrow> (nat \<Rightarrow> WireOut) \<Rightarrow> WireOut list" where
  "to_channel m k out = (case map_of m k of None \<Rightarrow> [] | Some tx \<Rightarrow> [out tx])"

definition process_message :: "Message \<Rightarrow> ReadLoopChannels \<Rightarrow> (ReadLoopChannels \<times> WireOut list) option" where
  "process_message msg ch =
     (case msg_message msg of
        Some (M_UpstreamChunkAck ack) \<Rightarrow>
          Some (ch, to_channel (rc_upstream_chunk_ack ch) (mua_stream_id_alias ack) (\<lambda>tx. ToUpstream tx ack))
      | Some (M_DownstreamChunk chunk) \<Rightarrow>
          Some (ch, to_channel (rc_downstream_msg ch) (mdc_stream_id_alias chunk)
            (\<lambda>tx. ToDownstream tx (Chunk chunk)))
      | Some (M_DownstreamMetadata md) \<Rightarrow>
          Some (ch, to_channel (rc_downstream_msg ch) (mdm_stream_id_alias md)
            (\<lambda>tx. ToDownstream tx (Metadata md)))
      | Some (M_DownstreamChunkAckComplete c) \<Rightarrow>
          Some (ch, to_channel (rc_downstream_msg ch) (dcc_stream_id_alias c)
            (\<lambda>tx. ToDownstream tx (ChunkAckComplete c)))
      | Some (M_UpstreamCallAck ack) \<Rightarrow>
          Some (ch\<lparr>rc_call_ack := hm_remove (uca_call_id ack) (rc_call_ack ch)\<rparr>,
            to_channel (rc_call_ack ch) (uca_call_id ack) (\<lambda>tx. ToCallAck tx ack))
      | _ \<Rightarrow> None)"

section \<open>One message in the read loop\<close>

text \<open>
  How handing the message on ended: the channel took it, its receiver is gone, or the connection
  was cancelled meanwhile.  The last component tells whether the loop goes on.
\<close>

datatype HandOff = Accepted | ReceiverGone | Cancelled

definition route_message ::
  "Message \<Rightarrow> HandOff \<Rightarrow> ConnInner \<Rightarrow> ReadLoopChannels \<Rightarrow>
     ConnInner \<times> ReadLoopChannels \<times> WireOut list \<times> bool" where
  "route_message msg h c ch =
     (case process_message msg ch of
        Some (ch', outs) \<Rightarrow> (c, ch', if h = Accepted then outs else [], h \<noteq> Cancelled)
      | None \<Rightarrow>
          (case message_request_id msg of
             Some request_id \<Rightarrow>
               if request_id mod 2 = 0 then
                 (case remove_response_sender request_id c of
                    (c', Some sender) \<Rightarrow> (c', ch, [ToResponse sender msg], True)
                  | (c', None) \<Rightarrow> (c', ch, [Dropped msg], True))
               else (c, ch, [Dropped msg], True)
           | None \<Rightarrow> (c, ch, [Dropped msg], True)))"

definition read_message ::
  "Message \<Rightarrow> HandOff \<Rightarrow> ConnInner \<Rightarrow> ReadLoopChannels \<Rightarrow>
     ConnInner \<times> ReadLoopChannels \<times> WireOut list \<times> bool" where
  "read_message msg h c ch =
     (case msg_message msg of
        Some (M_Ping ping) \<Rightarrow>
          (if h = Accepted then c\<lparr>ci_written := ci_written c @
               [into_message (M_Pong \<lparr>pong_request_id = ping_request_id ping, pong_extension_fields = None\<rparr>)]\<rparr>
           else c, ch, [], h = Accepted)
      | Some (M_Pong pong) \<Rightarrow> (c, ch, if h = Accepted then [ToPingLoop pong] else [], h = Accepted)
      | Some (M_Disconnect _) \<Rightarrow> (c, ch, [], False)
      | Some (M_DownstreamCall call) \<Rightarrow> (c, ch, if h = Accepted then [Broadcast call] else [], h = Accepted)
      | _ \<Rightarrow> route_message msg h c ch)"

section \<open>The connection as a state machine\<close>

text \<open>
  The reader of the reliable transport and, where the transport has one, that of the unreliable
  transport run the same loop, each with its own channels; a reader that has ended is \<open>None\<close>.
\<close>

record Wire =
  wr_inner :: ConnInner
  wr_reader :: "ReadLoopChannels option"
  wr_unreliable_reader :: "ReadLoopChannels option"

definition wire_new :: "bool \<Rightarrow> Wire" where
  "wire_new unreliable =
     \<lparr>wr_inner = conn_inner_new unreliable, wr_reader = Some channels_default,
      wr_unreliable_reader = (if unreliable then Some channels_default else None)\<rparr>"

text \<open>
  \<open>ReadFailed\<close>: the transport, the extraction or the decoding failed, the command channel is
  closed or the connection is cancelled.  \<open>PingTimeout\<close>: the ping could not be sent in time or
  no pong arrived in time.
\<close>

datatype WireEvent =
  WRequest nat Request SendOutcome
| WSend Message QoS SendOutcome
| WAlias
| WPing SendOutcome
| WPingTimeout
| WCommand bool ReadLoopCommand
| WRead bool Message HandOff
| WReadFailed bool
| WCancel

definition reader_of :: "bool \<Rightarrow> Wire \<Rightarrow> ReadLoopChannels option" where
  "reader_of unreliable w = (if unreliable then wr_unreliable_reader w else wr_reader w)"

definition set_reader :: "bool \<Rightarrow> ReadLoopChannels option \<Rightarrow> Wire \<Rightarrow> Wire" where
  "set_reader unreliable r w =
     (if unreliable then w\<lparr>wr_unreliable_reader := r\<rparr> else w\<lparr>wr_reader := r\<rparr>)"

definition cancel :: "ConnInner \<Rightarrow> ConnInner" where
  "cancel c = c\<lparr>ci_cancelled := True\<rparr>"

definition ping_send :: "SendOutcome \<Rightarrow> ConnInner \<Rightarrow> ConnInner \<times> u32" where
  "ping_send outcome c =
     (case request_id_get c of (c, request_id) \<Rightarrow>
        (if outcome = Sent then c\<lparr>ci_written := ci_written c @
             [into_message (M_Ping \<lparr>ping_request_id = request_id, ping_extension_fields = None\<rparr>)]\<rparr>
         else cancel c, request_id))"

text \<open>
  A turn that took a command goes on with the empty buffer: extraction ignores it, it decodes to
  the message with no field set, and that is dropped.
\<close>

definition blank_message :: Message where
  "blank_message = \<lparr>msg_message = None\<rparr>"

fun wire_step :: "Wire \<Rightarrow> WireEvent \<Rightarrow> Wire \<times> WireOut list" where
  "wire_step w (WRequest tx q outcome) =
     (case request_begin tx q outcome (wr_inner w) of
        (c, request_id, r) \<Rightarrow> (w\<lparr>wr_inner := c\<rparr>, [Begun tx request_id r]))"
| "wire_step w (WSend m qos outcome) =
     (case send_message_with_qos m qos outcome (wr_inner w) of (c, _) \<Rightarrow> (w\<lparr>wr_inner := c\<rparr>, []))"
| "wire_step w WAlias = (w\<lparr>wr_inner := fst (downstream_stream_id_alias (wr_inner w))\<rparr>, [])"
| "wire_step w (WPing outcome) =
     (case ping_send outcome (wr_inner w) of (c, request_id) \<Rightarrow> (w\<lparr>wr_inner := c\<rparr>, [Pinged request_id]))"
| "wire_step w WPingTimeout = (w\<lparr>wr_inner := cancel (wr_inner w)\<rparr>, [])"
| "wire_step w (WCommand u command) =
     (set_reader u (map_option (process_command command) (reader_of u w)) w,
      if reader_of u w = None then [] else [Dropped blank_message])"
| "wire_step w (WRead u m h) =
     (case reader_of u w of
        None \<Rightarrow> (w, [])
      | Some ch \<Rightarrow>
          (case read_message m h (wr_inner w) ch of
             (c, ch', outs, go_on) \<Rightarrow>
               (if go_on then set_reader u (Some ch') (w\<lparr>wr_inner := c\<rparr>)
                else set_reader u None (w\<lparr>wr_inner := cancel c\<rparr>), outs)))"
| "wire_step w (WReadFailed u) = (set_reader u None (w\<lparr>wr_inner := cancel (wr_inner w)\<rparr>), [])"
| "wire_step w WCancel = (w\<lparr>wr_inner := cancel (wr_inner w)\<rparr>, [])"

fun wire_run :: "Wire \<Rightarrow> WireEvent list \<Rightarrow> Wire \<times> WireOut list" where
  "wire_run w [] = (w, [])"
| "wire_run w (ev # evs) =
     (case wire_step w ev of (w', outs) \<Rightarrow>
      case wire_run w' evs of (w'', outs') \<Rightarrow> (w'', outs @ outs'))"

section \<open>The ping loop\<close>

text \<open>
  The wait for the pong of one ping, over what the wait yields: a pong, a timeout, the end of
  the channel or a cancellation.  Every pong restarts the timeout.  \<open>None\<close>: still waiting.
\<close>

datatype PongWait = GotPong Pong | PongTimeout | PongChannelClosed | PongCancelled

fun wait_pong :: "u32 \<Rightarrow> PongWait list \<Rightarrow> bool option" where
  "wait_pong request_id [] = None"
| "wait_pong request_id (GotPong pong # ws) =
     (if request_id \<le> pong_request_id pong then Some True else wait_pong request_id ws)"
| "wait_pong request_id (_ # ws) = Some False"

end
