(* ===== verification/Wire_Props.thy ===== *)
theory Wire_Props
  imports Wire
begin

text \<open>
  Properties of the wire connection of \<open>Wire\<close>: which request gets which response, what the
  counters hand out, where messages are routed, how the ping loop ends.
\<close>

section \<open>What a run emits\<close>

text \<open>The request ids taken by requests and pings, the requests begun, the responses delivered.\<close>

fun taken_ids :: "WireOut list \<Rightarrow> u32 list" where
  "taken_ids [] = []"
| "taken_ids (Begun _ i _ # outs) = i # taken_ids outs"
| "taken_ids (Pinged i # outs) = i # taken_ids outs"
| "taken_ids (_ # outs) = taken_ids outs"

fun begun :: "WireOut list \<Rightarrow> (nat \<times> u32) list" where
  "begun [] = []"
| "begun (Begun tx i _ # outs) = (tx, i) # begun outs"
| "begun (_ # outs) = begun outs"

fun delivered :: "WireOut list \<Rightarrow> (nat \<times> Message) list" where
  "delivered [] = []"
| "delivered (ToResponse tx m # outs) = (tx, m) # delivered outs"
| "delivered (_ # outs) = delivered outs"

lemma taken_ids_append [simp]: "taken_ids (xs @ ys) = taken_ids xs @ taken_ids ys"
  by (induction xs rule: taken_ids.induct) simp_all

lemma begun_append [simp]: "begun (xs @ ys) = begun xs @ begun ys"
  by (induction xs rule: begun.induct) simp_all

lemma delivered_append [simp]: "delivered (xs @ ys) = delivered xs @ delivered ys"
  by (induction xs rule: delivered.induct) simp_all

lemma begun_taken: "(tx, i) \<in> set (begun outs) \<Longrightarrow> i \<in> set (taken_ids outs)"
  by (induction outs rule: begun.induct) auto

section \<open>Steps\<close>

text \<open>The part of the state responses depend on, and the three ways a step can change it.\<close>

definition senders :: "Wire \<Rightarrow> (u32, nat) hash_map" where
  "senders w = ci_response_senders (wr_inner w)"

definition counter :: "Wire \<Rightarrow> u32" where
  "counter w = ci_request_id_counter (wr_inner w)"

lemma set_reader_inner [simp]: "wr_inner (set_reader u r w) = wr_inner w"
  by (simp add: set_reader_def)

lemma to_channel_quiet:
  "taken_ids (to_channel m k (\<lambda>tx. ToUpstream tx a)) = []" "delivered (to_channel m k (\<lambda>tx. ToUpstream tx a)) = []"
  "taken_ids (to_channel m k (\<lambda>tx. ToDownstream tx b)) = []" "delivered (to_channel m k (\<lambda>tx. ToDownstream tx b)) = []"
  "taken_ids (to_channel n l (\<lambda>tx. ToCallAck tx c)) = []" "delivered (to_channel n l (\<lambda>tx. ToCallAck tx c)) = []"
  "begun (to_channel m k (\<lambda>tx. ToUpstream tx a)) = []" "begun (to_channel m k (\<lambda>tx. ToDownstream tx b)) = []"
  "begun (to_channel n l (\<lambda>tx. ToCallAck tx c)) = []"
  by (simp_all add: to_channel_def split: option.split)

lemma process_message_quiet:
  assumes "process_message m ch = Some (ch', outs)"
  shows "taken_ids outs = [] \<and> begun outs = [] \<and> delivered outs = []"
  using assms unfolding process_message_def
  by (auto simp: to_channel_quiet split: option.splits MessageEnum.splits)

text \<open>A message the read loop reads either leaves the waiting requests alone or answers one.\<close>

lemma read_message_cases:
  assumes "read_message m h c ch = (c', ch', outs, go_on)"
  obtains (quiet) "ci_response_senders c' = ci_response_senders c"
      "ci_request_id_counter c' = ci_request_id_counter c"
      "taken_ids outs = []" "begun outs = []" "delivered outs = []"
  | (unknown) i where "message_request_id m = Some i" "map_of (ci_response_senders c) i = None"
      "ci_response_senders c' = hm_remove i (ci_response_senders c)"
      "ci_request_id_counter c' = ci_request_id_counter c"
      "taken_ids outs = []" "begun outs = []" "delivered outs = []"
  | (answer) i tx where "message_request_id m = Some i" "map_of (ci_response_senders c) i = Some tx"
      "ci_response_senders c' = hm_remove i (ci_response_senders c)"
      "ci_request_id_counter c' = ci_request_id_counter c" "outs = [ToResponse tx m]"
proof (cases "read_message m h c ch = route_message m h c ch")
  case False
  then obtain e where e: "msg_message m = Some e" by (cases "msg_message m") (simp_all add: read_message_def)
  with False assms have "ci_response_senders c' = ci_response_senders c \<and>
      ci_request_id_counter c' = ci_request_id_counter c \<and>
      taken_ids outs = [] \<and> begun outs = [] \<and> delivered outs = []"
    by (cases e) (auto simp: read_message_def split: if_splits)
  then show ?thesis using quiet by blast
next
  case True
  show ?thesis
  proof (cases "process_message m ch")
    case None
    with True assms quiet unknown answer show ?thesis
      by (auto simp: route_message_def remove_response_sender_def split: option.splits if_splits)
  next
    case (Some p)
    then obtain ch1 outs1 where p: "process_message m ch = Some (ch1, outs1)" by (cases p) simp
    with True assms process_message_quiet [OF p] quiet show ?thesis
      by (auto simp: route_message_def split: if_splits)
  qed
qed

lemma wire_step_cases:
  assumes "wire_step w ev = (w', outs)"
  obtains (quiet) "senders w' = senders w" "counter w' = counter w"
      "taken_ids outs = []" "begun outs = []" "delivered outs = []"
  | (ping) "senders w' = senders w" "counter w' = counter w + 2"
      "taken_ids outs = [counter w]" "begun outs = []" "delivered outs = []"
  | (start) tx where "senders w' = hm_insert (counter w) tx (senders w)" "counter w' = counter w + 2"
      "taken_ids outs = [counter w]" "begun outs = [(tx, counter w)]" "delivered outs = []"
  | (unknown) i where "map_of (senders w) i = None" "senders w' = hm_remove i (senders w)"
      "counter w' = counter w" "taken_ids outs = []" "begun outs = []" "delivered outs = []"
  | (answer) i tx m where "message_request_id m = Some i" "map_of (senders w) i = Some tx"
      "senders w' = hm_remove i (senders w)" "counter w' = counter w"
      "taken_ids outs = []" "begun outs = []" "delivered outs = [(tx, m)]"
proof (cases ev)
  case (WRequest tx q outcome)
  with assms start show ?thesis
    by (auto simp: request_begin_def request_id_get_def fetch_add_def add_response_sender_def
        send_message_def senders_def counter_def)
next
  case (WSend m qos outcome)
  with assms quiet show ?thesis
    by (auto simp: send_message_with_qos_def send_message_unreliable_def send_message_def senders_def counter_def
        split: option.splits if_splits)
next
  case WAlias
  with assms quiet show ?thesis
    by (auto simp: downstream_stream_id_alias_def fetch_add_def senders_def counter_def)
next
  case (WPing outcome)
  with assms ping show ?thesis
    by (auto simp: ping_send_def request_id_get_def fetch_add_def cancel_def senders_def counter_def
        split: if_splits)
next
  case (WRead u m h)
  show ?thesis
  proof (cases "reader_of u w")
    case None
    with assms WRead quiet show ?thesis by simp
  next
    case (Some ch)
    obtain c ch' outs1 go_on where r: "read_message m h (wr_inner w) ch = (c, ch', outs1, go_on)"
      by (cases "read_message m h (wr_inner w) ch") auto
    then have w': "outs = outs1" "senders w' = ci_response_senders c" "counter w' = ci_request_id_counter c"
      using assms WRead Some by (auto simp: senders_def counter_def cancel_def split: if_splits)
    from r show ?thesis
    proof (cases rule: read_message_cases)
      case quiet
      then show ?thesis using that(1) by (simp add: w') (simp add: senders_def counter_def)
    next
      case (unknown i)
      then show ?thesis using that(4) [of i] by (simp add: w') (simp add: senders_def counter_def)
    next
      case (answer i tx)
      then show ?thesis using that(5) [of m i tx] by (simp add: w') (simp add: senders_def counter_def)
    qed
  qed
qed (use assms quiet in \<open>auto simp: senders_def counter_def cancel_def\<close>)

section \<open>The invariant of the waiting requests\<close>

text \<open>
  The ids taken are the even numbers in order; a request waits exactly while it has begun and no
  response with its id was delivered; a response goes to the request with its id, once.
\<close>

definition answered :: "WireOut list \<Rightarrow> u32 \<Rightarrow> bool" where
  "answered outs i \<longleftrightarrow> Some i \<in> set (map (message_request_id \<circ> snd) (delivered outs))"

definition wire_ok :: "WireOut list \<Rightarrow> Wire \<Rightarrow> bool" where
  "wire_ok outs w \<longleftrightarrow> hm_inv (senders w) \<and>
     taken_ids outs = fetches 2 0 (length (taken_ids outs)) \<and>
     counter w = of_nat (length (taken_ids outs)) * 2 \<and>
     (\<forall>i tx. map_of (senders w) i = Some tx \<longleftrightarrow> (tx, i) \<in> set (begun outs) \<and> \<not> answered outs i) \<and>
     (\<forall>d \<in> set (delivered outs). \<exists>i. message_request_id (snd d) = Some i \<and> (fst d, i) \<in> set (begun outs)) \<and>
     distinct (map (message_request_id \<circ> snd) (delivered outs)) \<and> distinct (map snd (begun outs))"

lemma answered_append [simp]: "answered (xs @ ys) i \<longleftrightarrow> answered xs i \<or> answered ys i"
  by (auto simp: answered_def)

lemma answered_none [simp]: "delivered outs = [] \<Longrightarrow> \<not> answered outs i"
  by (simp add: answered_def)

lemma wire_new_ok: "wire_ok [] (wire_new u)"
  by (simp add: wire_ok_def wire_new_def senders_def counter_def conn_inner_new_def answered_def)

lemma of_nat_u32_double_inj:
  assumes "(of_nat j * 2 :: u32) = of_nat k * 2" and "j < 2 ^ 31" and "k < 2 ^ 31"
  shows "j = k"
proof -
  have "(of_nat (j * 2) :: u32) = of_nat (k * 2)" using assms(1) by simp
  then have "j * 2 = k * 2" by (rule of_nat_u32_inj) (use assms(2,3) in simp_all)
  then show ?thesis by simp
qed

text \<open>While fewer than \<open>2 ^ 31\<close> ids have been taken, the next one is new.\<close>

lemma counter_fresh:
  assumes "wire_ok outs w" and "length (taken_ids outs) < 2 ^ 31"
  shows "counter w \<notin> set (taken_ids outs)"
proof
  assume "counter w \<in> set (taken_ids outs)"
  then obtain k where k: "k < length (taken_ids outs)" "taken_ids outs ! k = counter w"
    by (auto simp: in_set_conv_nth)
  moreover have "taken_ids outs ! k = of_nat k * 2"
  proof -
    have "taken_ids outs = fetches 2 0 (length (taken_ids outs))" using assms(1) by (simp add: wire_ok_def)
    then have "taken_ids outs ! k = fetches 2 0 (length (taken_ids outs)) ! k" by (rule arg_cong)
    also have "\<dots> = of_nat k * 2" by (simp add: fetches_nth [OF k(1)])
    finally show ?thesis .
  qed
  moreover have "counter w = of_nat (length (taken_ids outs)) * 2"
    using assms(1) by (simp add: wire_ok_def)
  ultimately show False
    using of_nat_u32_double_inj [of k "length (taken_ids outs)"] assms(2) by simp
qed

lemma delivered_begun:
  "wire_ok outs w \<Longrightarrow> answered outs i \<Longrightarrow> i \<in> set (taken_ids outs)"
  unfolding wire_ok_def answered_def by (fastforce dest: begun_taken)

lemma taken_even:
  assumes "wire_ok outs w" and "i \<in> set (taken_ids outs)"
  shows "i mod 2 = 0"
proof -
  have "taken_ids outs = fetches 2 0 (length (taken_ids outs))" using assms(1) by (simp add: wire_ok_def)
  moreover have "j mod 2 = 0" if "j \<in> set (fetches 2 0 k)" for j k
  proof -
    obtain n where "n < k" "j = of_nat n * 2" using \<open>j \<in> set (fetches 2 0 k)\<close>
      by (auto simp: in_set_conv_nth fetches_nth)
    then show ?thesis by (simp add: even_iff_mod_2_eq_zero [symmetric])
  qed
  ultimately show ?thesis using assms(2) by metis
qed

lemma wire_step_ok:
  assumes "wire_ok outs w" and "wire_step w ev = (w', outs')"
    and "length (taken_ids (outs @ outs')) \<le> 2 ^ 31"
  shows "wire_ok (outs @ outs') w'"
  using assms(2)
proof (cases rule: wire_step_cases)
  case quiet
  with assms(1) show ?thesis by (simp add: wire_ok_def)
next
  case ping
  with assms(1) show ?thesis
    by (simp add: wire_ok_def fetches_snoc algebra_simps del: fetches.simps)
next
  case (start tx)
  have new: "counter w \<notin> set (taken_ids outs)"
    by (rule counter_fresh [OF assms(1)]) (use assms(3) start in simp)
  then have "\<not> answered outs (counter w)" "\<And>tx. (tx, counter w) \<notin> set (begun outs)"
    using delivered_begun [OF assms(1)] begun_taken by fastforce+
  with assms(1) start show ?thesis
    by (auto simp: wire_ok_def fetches_snoc algebra_simps simp del: fetches.simps)
next
  case (unknown i)
  have "map_of (senders w') = map_of (senders w)" using unknown(1,2) by (simp add: fun_upd_idem)
  moreover have "hm_inv (senders w')" using assms(1) unknown(2) by (simp add: wire_ok_def)
  ultimately show ?thesis using assms(1) unknown by (simp add: wire_ok_def)
next
  case (answer i tx m)
  have b: "(tx, i) \<in> set (begun outs)" "\<not> answered outs i" and dist: "distinct (map snd (begun outs))"
    using assms(1) answer(2) by (auto simp: wire_ok_def)
  have a: "answered (outs @ outs') j \<longleftrightarrow> answered outs j \<or> j = i" for j
    using answer(1,7) by (auto simp: answered_def)
  with assms(1) answer b show ?thesis
    unfolding wire_ok_def by (auto simp: answered_def)
qed

lemma wire_run_ok:
  "wire_run w evs = (w', outs') \<Longrightarrow> wire_ok outs w \<Longrightarrow> length (taken_ids (outs @ outs')) \<le> 2 ^ 31 \<Longrightarrow>
     wire_ok (outs @ outs') w'"
proof (induction evs arbitrary: w outs outs')
  case (Cons ev evs)
  obtain w1 o1 o2 where "wire_step w ev = (w1, o1)" "wire_run w1 evs = (w', o2)" "outs' = o1 @ o2"
    using Cons.prems(1) by (auto split: prod.splits)
  with Cons.IH [of w1 o2 "outs @ o1"] wire_step_ok [OF Cons.prems(2), of ev w1 o1] Cons.prems(3)
  show ?case by simp
qed simp

section \<open>Routing\<close>

text \<open>What the channel maps of a read loop hold, as functions, and commands on them.\<close>

type_synonym Routes = "(u32 \<rightharpoonup> nat) \<times> (u32 \<rightharpoonup> nat) \<times> (string \<rightharpoonup> nat)"

definition routes :: "ReadLoopChannels \<Rightarrow> Routes" where
  "routes ch = (map_of (rc_upstream_chunk_ack ch), map_of (rc_downstream_msg ch), map_of (rc_call_ack ch))"

fun route_command :: "ReadLoopCommand \<Rightarrow> Routes \<Rightarrow> Routes" where
  "route_command (AddUpstream a tx) (up, down, calls) = (up(a \<mapsto> tx), down, calls)"
| "route_command (RemoveUpstream a) (up, down, calls) = (up(a := None), down, calls)"
| "route_command (AddDownstream a tx) (up, down, calls) = (up, down(a \<mapsto> tx), calls)"
| "route_command (RemoveDownstream a) (up, down, calls) = (up, down(a := None), calls)"
| "route_command (SubscribeCallAck c tx) (up, down, calls) = (up, down, calls(c \<mapsto> tx))"
| "route_command (RemoveCallAck c) (up, down, calls) = (up, down, calls(c := None))"

text \<open>Where a message belongs: the abstract routing table of the protocol.\<close>

definition offer :: "nat option \<Rightarrow> (nat \<Rightarrow> WireOut) \<Rightarrow> WireOut list" where
  "offer tx out = (case tx of None \<Rightarrow> [] | Some t \<Rightarrow> [out t])"

definition route :: "MessageEnum \<Rightarrow> Routes \<Rightarrow> WireOut list" where
  "route e r = (case r of (up, down, calls) \<Rightarrow>
     (case e of
        M_UpstreamChunkAck a \<Rightarrow> offer (up (mua_stream_id_alias a)) (\<lambda>tx. ToUpstream tx a)
      | M_DownstreamChunk c \<Rightarrow> offer (down (mdc_stream_id_alias c)) (\<lambda>tx. ToDownstream tx (Chunk c))
      | M_DownstreamMetadata m \<Rightarrow> offer (down (mdm_stream_id_alias m)) (\<lambda>tx. ToDownstream tx (Metadata m))
      | M_DownstreamChunkAckComplete c \<Rightarrow>
          offer (down (dcc_stream_id_alias c)) (\<lambda>tx. ToDownstream tx (ChunkAckComplete c))
      | M_UpstreamCallAck a \<Rightarrow> offer (calls (uca_call_id a)) (\<lambda>tx. ToCallAck tx a)
      | _ \<Rightarrow> []))"

definition routes_after :: "MessageEnum \<Rightarrow> Routes \<Rightarrow> Routes" where
  "routes_after e r = (case e of
     M_UpstreamCallAck a \<Rightarrow> route_command (RemoveCallAck (uca_call_id a)) r
   | _ \<Rightarrow> r)"

lemma routes_command: "routes (process_command c ch) = route_command c (routes ch)"
  by (cases c) (simp_all add: routes_def)

lemma routes_commands: "routes (fold process_command cs ch) = fold route_command cs (routes ch)"
  by (induction cs arbitrary: ch) (simp_all add: routes_command)

lemma routes_message:
  "process_message (into_message e) ch = Some (ch', outs) \<Longrightarrow>
     outs = route e (routes ch) \<and> routes ch' = routes_after e (routes ch)"
  by (cases e) (auto simp: process_message_def into_message_def route_def routes_def routes_after_def
      to_channel_def offer_def)

section \<open>Properties\<close>

text \<open>
  C4: requests and responses are matched: along every run of a connection that takes at most
  \<open>2 ^ 31\<close> request ids, in any interleaving of requests, pings, sends and received messages, the
  ids are \<open>0, 2, 4, ...\<close> and distinct, every delivered response goes to the request that was sent
  with its request id, no request gets two, and the requests waiting are those begun and not
  answered.
\<close>

theorem responses_reach_their_request:
  assumes "wire_run (wire_new u) evs = (w, outs)" and "length (taken_ids outs) \<le> 2 ^ 31"
  shows "taken_ids outs = fetches 2 0 (length (taken_ids outs)) \<and> distinct (map snd (begun outs)) \<and>
    list_all (\<lambda>d. \<exists>i. message_request_id (snd d) = Some i \<and> (fst d, i) \<in> set (begun outs)) (delivered outs) \<and>
    distinct (map (message_request_id \<circ> snd) (delivered outs)) \<and>
    (\<forall>i tx. map_of (senders w) i = Some tx \<longleftrightarrow> (tx, i) \<in> set (begun outs) \<and> \<not> answered outs i)"
  using wire_run_ok [OF assms(1) wire_new_ok] assms(2) by (simp add: wire_ok_def list_all_iff)

definition a_close_request :: Request where
  "a_close_request = RQ_DownstreamClose \<lparr>dcq_request_id = 0, dcq_stream_id = replicate 16 1, dcq_extension_fields = None\<rparr>"

definition a_close_response :: "u32 \<Rightarrow> Response" where
  "a_close_response i = RS_DownstreamClose \<lparr>dcr_request_id = i, dcr_result_code = result_code_i32 Succeeded,
     dcr_result_string = ''OK'', dcr_extension_fields = None\<rparr>"

definition some_wire_events :: "WireEvent list" where
  "some_wire_events = [WRequest 7 a_close_request Sent, WPing Sent, WRequest 8 a_close_request Sent,
     WRead False (response_message (a_close_response 4)) Accepted]"

definition some_wire_end :: "Wire \<times> WireOut list" where
  "some_wire_end = wire_run (wire_new False) some_wire_events"

lemma some_wire_outs:
  "snd some_wire_end = [Begun 7 0 (Inr ()), Pinged 2, Begun 8 4 (Inr ()), ToResponse 8 (response_message (a_close_response 4))]"
  by (simp add: some_wire_end_def some_wire_events_def wire_new_def conn_inner_new_def request_begin_def
      request_id_get_def fetch_add_def add_response_sender_def send_message_def send_result_def ping_send_def
      reader_of_def a_close_response_def read_message_def into_message_def route_message_def process_message_def
      message_request_id_def remove_response_sender_def)

lemma some_wire_run: "wire_run (wire_new False) some_wire_events = (fst some_wire_end, snd some_wire_end)"
  by (simp add: some_wire_end_def)

theorem responses_reach_their_request_witness:
  "taken_ids (snd some_wire_end) = fetches 2 0 (length (taken_ids (snd some_wire_end))) \<and>
    distinct (map snd (begun (snd some_wire_end))) \<and>
    list_all (\<lambda>d. \<exists>i. message_request_id (snd d) = Some i \<and> (fst d, i) \<in> set (begun (snd some_wire_end)))
      (delivered (snd some_wire_end)) \<and>
    distinct (map (message_request_id \<circ> snd) (delivered (snd some_wire_end))) \<and>
    (\<forall>i tx. map_of (senders (fst some_wire_end)) i = Some tx \<longleftrightarrow>
       (tx, i) \<in> set (begun (snd some_wire_end)) \<and> \<not> answered (snd some_wire_end) i)"
  by (rule responses_reach_their_request [OF some_wire_run]) (simp add: some_wire_outs)

text \<open>
  No response is lost: when the response with the id of a begun and unanswered request is read
  while a read loop runs, it is handed to that request, whatever its result code.
\<close>

theorem waiting_request_is_answered:
  assumes "wire_run (wire_new u) evs = (w, outs)" and "length (taken_ids outs) \<le> 2 ^ 31"
    and "(tx, i) \<in> set (begun outs)" and "\<not> answered outs i"
    and "reader_of v w \<noteq> None" and "message_request_id (response_message r) = Some i"
  shows "snd (wire_step w (WRead v (response_message r) h)) = [ToResponse tx (response_message r)] \<and>
    map_of (senders (fst (wire_step w (WRead v (response_message r) h)))) i = None"
proof -
  have ok: "wire_ok outs w" using wire_run_ok [OF assms(1) wire_new_ok] assms(2) by simp
  then have sender: "map_of (ci_response_senders (wr_inner w)) i = Some tx"
    using assms(3,4) by (simp add: wire_ok_def senders_def)
  have even: "i mod 2 = 0" by (rule taken_even [OF ok begun_taken [OF assms(3)]])
  obtain ch where ch: "reader_of v w = Some ch" using assms(5) by blast
  have "read_message (response_message r) h (wr_inner w) ch =
      ((wr_inner w)\<lparr>ci_response_senders := hm_remove i (ci_response_senders (wr_inner w))\<rparr>, ch,
       [ToResponse tx (response_message r)], True)"
    using assms(6) sender even
    by (cases r) (simp_all add: read_message_def route_message_def process_message_def into_message_def
        message_request_id_def remove_response_sender_def)
  with ch show ?thesis by (simp add: senders_def)
qed

theorem waiting_request_is_answered_witness:
  "snd (wire_step (fst some_wire_end) (WRead False (response_message (a_close_response 0)) Accepted)) =
      [ToResponse 7 (response_message (a_close_response 0))] \<and>
    map_of (senders (fst (wire_step (fst some_wire_end)
      (WRead False (response_message (a_close_response 0)) Accepted)))) 0 = None"
proof (rule waiting_request_is_answered [OF some_wire_run])
  show "reader_of False (fst some_wire_end) \<noteq> None"
    by (simp add: some_wire_end_def some_wire_events_def wire_new_def conn_inner_new_def request_begin_def
      request_id_get_def fetch_add_def add_response_sender_def send_message_def send_result_def ping_send_def
      reader_of_def a_close_response_def read_message_def into_message_def route_message_def process_message_def
      message_request_id_def remove_response_sender_def set_reader_def)
qed (simp_all add: some_wire_outs answered_def a_close_response_def into_message_def message_request_id_def)

definition routed :: "MessageEnum \<Rightarrow> bool" where
  "routed e \<longleftrightarrow> (case e of M_UpstreamChunkAck _ \<Rightarrow> True | M_DownstreamChunk _ \<Rightarrow> True
     | M_DownstreamMetadata _ \<Rightarrow> True | M_DownstreamChunkAckComplete _ \<Rightarrow> True
     | M_UpstreamCallAck _ \<Rightarrow> True | _ \<Rightarrow> False)"


fun alias_calls :: "nat \<Rightarrow> ConnInner \<Rightarrow> u32 res list" where
  "alias_calls 0 c = []"
| "alias_calls (Suc k) c = (case downstream_stream_id_alias c of (c', r) \<Rightarrow> r # alias_calls k c')"

definition alias_answer :: "u32 \<Rightarrow> u32 res" where
  "alias_answer a = (if a = 0 then Inl (Unexpected ''stream id alias max reached'') else Inr a)"

lemma alias_calls_fetches: "alias_calls k c = map alias_answer (fetches 1 (ci_alias_counter c) k)"
  by (induction k arbitrary: c) (simp_all add: downstream_stream_id_alias_def fetch_add_def alias_answer_def)

text \<open>
  The aliases a connection gives to downstreams are 1, 2, 3, ... up to \<open>2 ^ 32 - 1\<close>; the next
  call fails, and the one after it hands out 1 again.
\<close>

theorem downstream_aliases:
  "alias_calls k (conn_inner_new u) =
     map (\<lambda>i. if 2 ^ 32 dvd Suc i then Inl (Unexpected ''stream id alias max reached'')
           else Inr (of_nat (Suc i))) [0..<k]"
proof -
  have "(of_nat (Suc i) :: u32) = 0 \<longleftrightarrow> 2 ^ 32 dvd Suc i" for i
    using word_of_nat_eq_0_iff [where 'a = 32, of "Suc i"] by simp
  then have "fetches 1 1 k ! i = of_nat (Suc i) \<and> alias_answer (of_nat (Suc i)) =
      (if 2 ^ 32 dvd Suc i then Inl (Unexpected ''stream id alias max reached'') else Inr (of_nat (Suc i)))"
    if "i < k" for i
    using that by (simp add: fetches_nth alias_answer_def del: of_nat_Suc) simp
  then show ?thesis
    by (intro nth_equalityI) (simp_all add: alias_calls_fetches conn_inner_new_def del: of_nat_Suc)
qed

definition stale :: "u32 \<Rightarrow> PongWait \<Rightarrow> bool" where
  "stale i e \<longleftrightarrow> (case e of GotPong p \<Rightarrow> pong_request_id p < i | _ \<Rightarrow> False)"

text \<open>
  The wait for a pong is over exactly at the first event that is not a pong with a smaller
  id: a pong with at least the id of the ping keeps the connection, anything else ends it.
\<close>

theorem wait_pong_first:
  "wait_pong i ws =
     (case dropWhile (stale i) ws of
        [] \<Rightarrow> None
      | e # _ \<Rightarrow> Some (case e of GotPong _ \<Rightarrow> True | _ \<Rightarrow> False))"
  by (induction i ws rule: wait_pong.induct) (auto simp: stale_def)

definition readers_ok :: "bool \<Rightarrow> Wire \<Rightarrow> bool" where
  "readers_ok u w \<longleftrightarrow> (wr_reader w = None \<or> u \<and> wr_unreliable_reader w = None \<longrightarrow> ci_cancelled (wr_inner w))"

lemma read_message_cancelled:
  "read_message m h c ch = (c', ch', outs, go_on) \<Longrightarrow> ci_cancelled c' = ci_cancelled c"
proof (cases "read_message m h c ch = route_message m h c ch")
  case True
  assume "read_message m h c ch = (c', ch', outs, go_on)"
  with True show ?thesis
    by (auto simp: route_message_def remove_response_sender_def split: option.splits if_splits prod.splits)
next
  case False
  then obtain e where e: "msg_message m = Some e" by (cases "msg_message m") (simp_all add: read_message_def)
  assume "read_message m h c ch = (c', ch', outs, go_on)"
  with False e show ?thesis by (cases e) (auto simp: read_message_def split: if_splits)
qed

lemma wire_step_readers:
  assumes "wire_step w ev = (w', outs)" and "readers_ok u w"
  shows "readers_ok u w'"
proof (cases ev)
  case (WRead v m h)
  with assms show ?thesis
    by (auto simp: readers_ok_def set_reader_def cancel_def reader_of_def dest!: read_message_cancelled
        split: option.splits prod.splits if_splits)
qed (use assms in \<open>auto simp: readers_ok_def set_reader_def cancel_def reader_of_def request_begin_def
  request_id_get_def fetch_add_def add_response_sender_def send_message_def send_message_with_qos_def
  send_message_unreliable_def downstream_stream_id_alias_def ping_send_def
  split: option.splits if_splits\<close>)

lemma wire_run_readers:
  "wire_run w evs = (w', outs) \<Longrightarrow> readers_ok u w \<Longrightarrow> readers_ok u w'"
  by (induction evs arbitrary: w outs) (auto dest: wire_step_readers split: prod.splits)

text \<open>
  A read loop that ends takes the connection with it: once the reliable reader, or the
  unreliable one of a connection that has it, has ended, the connection is cancelled and stays so.
\<close>

theorem ended_reader_cancels:
  assumes "wire_run (wire_new u) evs = (w, outs)"
    and "wr_reader w = None \<or> u \<and> wr_unreliable_reader w = None"
  shows "ci_cancelled (wr_inner w)"
proof -
  have "readers_ok u (wire_new u)" by (simp add: readers_ok_def wire_new_def)
  from wire_run_readers [OF assms(1) this] assms(2) show ?thesis by (simp add: readers_ok_def)
qed

theorem ended_reader_cancels_witness:
  "ci_cancelled (wr_inner (fst (wire_run (wire_new True) [WReadFailed True])))"
  by (rule ended_reader_cancels [where u = True and evs = "[WReadFailed True]"])
    (simp_all add: set_reader_def)

end
