(* ===== verification/Negotiation.thy ===== *)
theory Negotiation
  imports Types Byte_Codec
begin

text \<open>
  What a client tells the server when it connects: the compression settings
  (\<open>transport/compression.rs\<close>), the negotiation parameters made of them and their byte form
  (\<open>transport/negotiation.rs\<close>, \<open>ConnBuilder::negotiation_params\<close>).
\<close>

section \<open>Compression settings\<close>

type_synonym i8 = "8 word"

record Compression =
  cmp_enabled :: bool
  cmp_level :: "i8 option"
  cmp_window_bits :: "u8 option"

definition compression_new :: Compression where
  "compression_new = \<lparr>cmp_enabled = False, cmp_level = None, cmp_window_bits = None\<rparr>"

definition compression_enable :: "i8 \<Rightarrow> Compression \<Rightarrow> Compression" where
  "compression_enable level c = c\<lparr>cmp_enabled := True, cmp_level := Some level, cmp_window_bits := None\<rparr>"

definition enable_with_window_bits :: "i8 \<Rightarrow> u8 \<Rightarrow> Compression \<Rightarrow> Compression" where
  "enable_with_window_bits level window_bits c =
     c\<lparr>cmp_enabled := True, cmp_level := Some level, cmp_window_bits := Some window_bits\<rparr>"

definition compression_disable :: "Compression \<Rightarrow> Compression" where
  "compression_disable c = c\<lparr>cmp_enabled := False, cmp_level := None, cmp_window_bits := None\<rparr>"

definition context_takeover :: "Compression \<Rightarrow> bool" where
  "context_takeover c \<longleftrightarrow> cmp_window_bits c \<noteq> None"

section \<open>Negotiation parameters\<close>

datatype EncodingName = Protobuf

datatype CompressionType = PerMessage | ContextTakeover

record NegotiationParams =
  np_encoding_name :: EncodingName
  np_compression_type :: "CompressionType option"
  np_compression_level :: "i8 option"
  np_compression_window_bits :: "u8 option"

definition negotiation_params :: "Compression \<Rightarrow> NegotiationParams" where
  "negotiation_params c =
     (if \<not> cmp_enabled c then
        \<lparr>np_encoding_name = Protobuf, np_compression_type = None, np_compression_level = None,
         np_compression_window_bits = None\<rparr>
      else
        \<lparr>np_encoding_name = Protobuf,
         np_compression_type =
           (if cmp_window_bits c = None then Some PerMessage else Some ContextTakeover),
         np_compression_level = cmp_level c, np_compression_window_bits = cmp_window_bits c\<rparr>)"

text \<open>
  The JSON object the derived serializer makes of the parameters, in the key order of
  \<open>serde_json\<close>'s map: absent options are skipped.  A number is written in decimal.
\<close>

datatype Value = Null | String string | Number int

definition encoding_name :: "EncodingName \<Rightarrow> string" where
  "encoding_name e = (case e of Protobuf \<Rightarrow> ''proto'')"

definition compression_type :: "CompressionType \<Rightarrow> string" where
  "compression_type t = (case t of PerMessage \<Rightarrow> ''per-message'' | ContextTakeover \<Rightarrow> ''context-takeover'')"

definition optional :: "string \<Rightarrow> ('a \<Rightarrow> Value) \<Rightarrow> 'a option \<Rightarrow> (string \<times> Value) list" where
  "optional k f v = (case v of None \<Rightarrow> [] | Some a \<Rightarrow> [(k, f a)])"

definition params_to_value :: "NegotiationParams \<Rightarrow> (string \<times> Value) list" where
  "params_to_value p =
     optional ''clevel'' (\<lambda>l. Number (sint l)) (np_compression_level p) @
     optional ''comp'' (\<lambda>t. String (compression_type t)) (np_compression_type p) @
     optional ''cwinbits'' (\<lambda>w. Number (uint w)) (np_compression_window_bits p) @
     [(''enc'', String (encoding_name (np_encoding_name p)))]"

definition show_int :: "int \<Rightarrow> string" where
  "show_int i = (if i < 0 then CHR ''-'' # show_nat (nat (- i)) else show_nat (nat i))"

definition value_text :: "Value \<Rightarrow> string option" where
  "value_text v = (case v of Null \<Rightarrow> None | String s \<Rightarrow> Some s | Number i \<Rightarrow> Some (show_int i))"

section \<open>Length-prefixed fields\<close>

text \<open>Every string here is ASCII: its bytes are its characters.\<close>

definition string_bytes :: "string \<Rightarrow> bytes" where
  "string_bytes s = map (\<lambda>c. of_nat (of_char c)) s"

definition put_field :: "string \<Rightarrow> string \<Rightarrow> string + bytes" where
  "put_field what s =
     (if 2 ^ 16 \<le> length s then Inl what
      else Inr (put_u16 (of_nat (length s)) @ string_bytes s))"

fun put_entries :: "(string \<times> Value) list \<Rightarrow> string + bytes" where
  "put_entries [] = Inr []"
| "put_entries ((k, v) # es) =
     (case value_text v of
        None \<Rightarrow> put_entries es
      | Some t \<Rightarrow>
          (case put_field ''too long key for negotiation'' k of
             Inl e \<Rightarrow> Inl e
           | Inr kb \<Rightarrow>
               (case put_field ''too long value for negotiation'' t of
                  Inl e \<Rightarrow> Inl e
                | Inr vb \<Rightarrow> (case put_entries es of Inl e \<Rightarrow> Inl e | Inr bs \<Rightarrow> Inr (kb @ vb @ bs)))))"

definition to_bytes :: "NegotiationParams \<Rightarrow> string + bytes" where
  "to_bytes p = put_entries (params_to_value p)"

section \<open>Reading the fields back\<close>

text \<open>The reader of the format: a sequence of keys and values, each after its length.\<close>

definition bytes_string :: "bytes \<Rightarrow> string" where
  "bytes_string bs = map (\<lambda>b. char_of (unat b)) bs"

definition get_field :: "bytes \<Rightarrow> (string \<times> bytes) option" where
  "get_field bs =
     (if length bs < 2 then None
      else let n = unat (read_u16 bs); rest = drop 2 bs
        in if length rest < n then None else Some (bytes_string (take n rest), drop n rest))"

lemma get_field_shorter: "get_field bs = Some (s, rest) \<Longrightarrow> length rest < length bs"
  by (auto simp: get_field_def Let_def split: if_splits)

function get_entries :: "bytes \<Rightarrow> (string \<times> string) list option" where
  "get_entries bs =
     (if bs = [] then Some []
      else case get_field bs of
        None \<Rightarrow> None
      | Some (k, r) \<Rightarrow>
          (case get_field r of
             None \<Rightarrow> None
           | Some (v, r') \<Rightarrow> map_option (\<lambda>es. (k, v) # es) (get_entries r')))"
  by pat_completeness auto
termination
  by (relation "measure length") (auto dest!: get_field_shorter intro: less_trans)

declare get_entries.simps [simp del]

lemma string_round_trip [simp]: "bytes_string (string_bytes s) = s"
proof -
  have "char_of (unat (of_nat (of_char c) :: u8)) = c" for c :: char
  proof -
    have "(of_char c :: nat) < 256" by (rule nat_of_char_less_256)
    then show ?thesis by (simp add: unat_of_nat take_bit_nat_eq_self)
  qed
  then show ?thesis by (simp add: bytes_string_def string_bytes_def comp_def map_idI)
qed

lemma get_put_field:
  assumes "put_field e s = Inr bs"
  shows "get_field (bs @ rest) = Some (s, rest)" and "bs \<noteq> []"
proof -
  have n: "length s < 2 ^ 16" and bs: "bs = put_u16 (of_nat (length s)) @ string_bytes s"
    using assms by (simp_all add: put_field_def split: if_splits)
  have len: "length (string_bytes s) = length s" by (simp add: string_bytes_def)
  have "unat (of_nat (length s) :: u16) = length s"
    using n by (simp add: unat_of_nat take_bit_nat_eq_self)
  with bs len show "get_field (bs @ rest) = Some (s, rest)"
    by (simp add: get_field_def Let_def w16.read_put w16.length_put w16.drop_put)
  show "bs \<noteq> []" using w16.length_put [of "of_nat (length s)"] by (auto simp: bs)
qed

lemma get_put_entries:
  "put_entries es = Inr bs \<Longrightarrow>
     get_entries bs = Some (concat (map (\<lambda>(k, v). case value_text v of None \<Rightarrow> [] | Some t \<Rightarrow> [(k, t)]) es))"
proof (induction es arbitrary: bs rule: put_entries.induct)
  case 1
  then show ?case by (simp add: get_entries.simps)
next
  case (2 k v es)
  show ?case
  proof (cases "value_text v")
    case None
    with 2 show ?thesis by simp
  next
    case (Some t)
    with "2.prems" obtain kb vb bs' where f: "put_field ''too long key for negotiation'' k = Inr kb"
      "put_field ''too long value for negotiation'' t = Inr vb" "put_entries es = Inr bs'" "bs = kb @ vb @ bs'"
      by (auto split: sum.splits)
    have "get_entries (kb @ vb @ bs') = map_option (\<lambda>es. (k, t) # es) (get_entries bs')"
      by (subst get_entries.simps) (simp add: get_put_field [OF f(1)] get_put_field [OF f(2)])
    with "2.IH"(2) [OF Some f(1,2,3)] Some f(4) show ?thesis by simp
  qed
qed

section \<open>The parameters fit\<close>

lemma length_show_nat: "n < 10 ^ Suc k \<Longrightarrow> length (show_nat n) \<le> Suc k"
proof (induction k arbitrary: n)
  case 0
  then show ?case by (subst show_nat.simps) simp
next
  case (Suc k)
  then have "n div 10 < 10 ^ Suc k" by (simp add: less_mult_imp_div_less)
  from Suc.IH [OF this] show ?case by (subst show_nat.simps) simp
qed

lemma length_show_int:
  assumes "\<bar>i\<bar> < 1000"
  shows "length (show_int i) \<le> 4"
proof (cases "i < 0")
  case True
  with assms have "nat (- i) < 10 ^ Suc 2" by simp
  from length_show_nat [OF this] True show ?thesis by (simp add: show_int_def)
next
  case False
  with assms have "nat i < 10 ^ Suc 2" by simp
  from length_show_nat [OF this] False show ?thesis by (simp add: show_int_def)
qed

lemma put_entries_fits:
  "list_all (\<lambda>(k, v). length k < 2 ^ 16 \<and> (case value_text v of None \<Rightarrow> True | Some t \<Rightarrow> length t < 2 ^ 16)) es \<Longrightarrow>
     \<exists>bs. put_entries es = Inr bs"
proof (induction es)
  case (Cons e es)
  obtain k v where e: "e = (k, v)" by fastforce
  from Cons obtain bs where bs: "put_entries es = Inr bs" by auto
  show ?case
  proof (cases "value_text v")
    case None
    with bs e show ?thesis by simp
  next
    case (Some t)
    with Cons.prems bs e show ?thesis by (simp add: put_field_def)
  qed
qed simp

lemma byte_numbers: "\<bar>sint (l :: i8)\<bar> < 1000" "\<bar>uint (w :: u8)\<bar> < 1000"
  using sint_range_size [of l] uint_lt2p [of w] uint_ge_0 [of w]
  by (auto simp: word_size abs_less_iff)

lemma params_fit:
  "list_all (\<lambda>(k, v). length k < 2 ^ 16 \<and> (case value_text v of None \<Rightarrow> True | Some t \<Rightarrow> length t < 2 ^ 16))
     (params_to_value p)"
proof -
  have len: "length (show_int (sint l)) < 65536" "length (show_int (uint w)) < 65536" for l :: i8 and w :: u8
    using length_show_int [OF byte_numbers(1) [of l]] length_show_int [OF byte_numbers(2) [of w]] by linarith+
  show ?thesis
    by (cases "np_compression_level p"; cases "np_compression_type p"; cases "np_compression_window_bits p";
        cases "np_encoding_name p")
      (simp_all add: params_to_value_def optional_def value_text_def encoding_name_def compression_type_def
        len split: CompressionType.split)
qed

section \<open>Properties\<close>

text \<open>
  The negotiation bytes can always be made, and a reader of the length-prefixed format gets
  back exactly the parameters: every key once, the encoding, and the compression type, level and
  window bits where they are set.
\<close>

theorem negotiation_round_trip:
  "case to_bytes p of
     Inl _ \<Rightarrow> False
   | Inr bs \<Rightarrow>
       (case get_entries bs of
          None \<Rightarrow> False
        | Some es \<Rightarrow> distinct (map fst es) \<and>
            map_of es ''enc'' = Some (encoding_name (np_encoding_name p)) \<and>
            map_of es ''comp'' = map_option compression_type (np_compression_type p) \<and>
            map_of es ''clevel'' = map_option (\<lambda>l. show_int (sint l)) (np_compression_level p) \<and>
            map_of es ''cwinbits'' = map_option (\<lambda>w. show_int (uint w)) (np_compression_window_bits p))"
proof -
  obtain bs where bs: "to_bytes p = Inr bs"
    using put_entries_fits [OF params_fit, of p] by (auto simp: to_bytes_def)
  from get_put_entries [OF bs [unfolded to_bytes_def]]
  show ?thesis
    by (cases "np_compression_level p"; cases "np_compression_type p"; cases "np_compression_window_bits p")
      (simp_all add: bs params_to_value_def optional_def value_text_def)
qed

end
