(* ===== verification/Conn.thy ===== *)
theory Conn
  imports Negotiation Requests Downstream
begin

text \<open>
  The client's connection (\<open>iscp/mod.rs\<close>): the builder with the connect request it sends, and the
  life of a connection, its reconnection loop, the streams it waits for and its closing, as a
  state machine.  A cancellation token, a stream and a wire connection are numbers.
\<close>

section \<open>The builder\<close>

record ConnBuilder =
  cb_compression :: Compression
  cb_node_id :: string
  cb_project_uuid :: "Uuid option"
  cb_ping_interval :: duration
  cb_ping_timeout :: duration
  cb_response_message_timeout :: duration
  cb_e2e_call_reply_timeout :: duration
  cb_token_source :: bool
  cb_channel_size :: nat

definition conn_builder_new :: ConnBuilder where
  "conn_builder_new =
     \<lparr>cb_compression = compression_new, cb_node_id = [], cb_project_uuid = None,
      cb_ping_interval = secs 10, cb_ping_timeout = secs 1, cb_response_message_timeout = secs 3,
      cb_e2e_call_reply_timeout = secs 60, cb_token_source = False, cb_channel_size = 1024\<rparr>"

text \<open>What the token source gave, within the response timeout.\<close>

datatype TokenOutcome = Token string | TokenFailed string | TokenTimeout

definition access_token :: "TokenOutcome \<Rightarrow> string res" where
  "access_token outcome =
     (case outcome of
        Token t \<Rightarrow> Inr t
      | TokenFailed e \<Rightarrow> Inl (TokenSource e)
      | TokenTimeout \<Rightarrow> Inl (Timeout ''token source''))"

definition whole_secs :: "string \<Rightarrow> duration \<Rightarrow> u32 res" where
  "whole_secs what d =
     (let s = d div 1000000000
      in if 2 ^ 32 \<le> s then Inl (InvalidValue what)
         else if s = 0 then Inl (InvalidValue what) else Inr (of_nat s))"

text \<open>
  The extension fields: a token when there is a token source, the project when one is set.
  \<open>uuid_text\<close> is \<open>Uuid::to_string\<close>.
\<close>

definition connect_extension ::
  "(Uuid \<Rightarrow> string) \<Rightarrow> ConnBuilder \<Rightarrow> TokenOutcome \<Rightarrow> ConnectRequestExtensionFields option res" where
  "connect_extension uuid_text b outcome =
     (let intdash = map_option (\<lambda>u. \<lparr>ief_project_uuid = uuid_text u\<rparr>) (cb_project_uuid b)
      in if cb_token_source b then
           res_bind (access_token outcome) (\<lambda>t. Inr (Some \<lparr>cef_access_token = t, cef_intdash = intdash\<rparr>))
         else if intdash \<noteq> None then Inr (Some \<lparr>cef_access_token = [], cef_intdash = intdash\<rparr>)
         else Inr None)"

definition connect_request ::
  "(Uuid \<Rightarrow> string) \<Rightarrow> ConnBuilder \<Rightarrow> TokenOutcome \<Rightarrow> ConnectRequest res" where
  "connect_request uuid_text b outcome =
     res_bind (whole_secs ''invalid ping_interval'' (cb_ping_interval b)) (\<lambda>ping_interval.
     res_bind (whole_secs ''invalid ping_timeout'' (cb_ping_timeout b)) (\<lambda>ping_timeout.
     res_bind (connect_extension uuid_text b outcome) (\<lambda>extension_fields.
       Inr \<lparr>cnq_request_id = 0, cnq_protocol_version = ''3.0.0'', cnq_node_id = cb_node_id b,
         cnq_ping_interval = ping_interval, cnq_ping_timeout = ping_timeout,
         cnq_extension_fields = extension_fields, cnq_connection_id = [],
         cnq_connection_group_id = [], cnq_expiry_interval = 0\<rparr>)))"

text \<open>
  \<open>connect\<close>: the transport is opened, with the negotiated parameters, and the tasks of the wire
  connection are started before anything is checked; the response decides.
\<close>

datatype ConnectOut = OpenTransport NegotiationParams | StartWire | SendConnect ConnectRequest

definition connect ::
  "(Uuid \<Rightarrow> string) \<Rightarrow> ConnBuilder \<Rightarrow> unit res \<Rightarrow> TokenOutcome \<Rightarrow> (ConnectRequest \<Rightarrow> ConnectResponse res) \<Rightarrow>
     ConnectOut list \<times> ConnectResponse res" where
  "connect uuid_text b transport token respond =
     (let open = OpenTransport (negotiation_params (cb_compression b))
      in case transport of
        Inl e \<Rightarrow> ([open], Inl e)
      | Inr _ \<Rightarrow>
          (case connect_request uuid_text b token of
             Inl e \<Rightarrow> ([open, StartWire], Inl e)
           | Inr q \<Rightarrow> ([open, StartWire, SendConnect q], respond q)))"

text \<open>\<open>build\<close>: \<open>takeover_ok\<close> tells whether the transport supports context takeover.\<close>

definition build ::
  "(Uuid \<Rightarrow> string) \<Rightarrow> bool \<Rightarrow> ConnBuilder \<Rightarrow> unit res \<Rightarrow> TokenOutcome \<Rightarrow> (ConnectRequest \<Rightarrow> ConnectResponse res) \<Rightarrow>
     ConnectOut list \<times> ConnectResponse res" where
  "build uuid_text takeover_ok b transport token respond =
     (if cmp_window_bits (cb_compression b) \<noteq> None \<and> \<not> takeover_ok
      then ([], Inl (Unexpected ''using window bits for unsupported transport''))
      else connect uuid_text b transport token respond)"

section \<open>What connecting sends\<close>

definition seconds_ok :: "duration \<Rightarrow> bool" where
  "seconds_ok d \<longleftrightarrow> 1 \<le> d div 1000000000 \<and> d div 1000000000 < 2 ^ 32"

lemma whole_secs_Inr:
  "whole_secs what d = Inr s \<longleftrightarrow> seconds_ok d \<and> s = of_nat (d div 1000000000)"
  by (auto simp: whole_secs_def seconds_ok_def Let_def not_le)

lemma whole_secs_unat: "whole_secs what d = Inr s \<Longrightarrow> unat s = d div 1000000000"
  by (simp add: whole_secs_Inr seconds_ok_def unat_of_nat take_bit_nat_eq_self)

definition token_of :: "ConnBuilder \<Rightarrow> TokenOutcome \<Rightarrow> string option" where
  "token_of b outcome =
     (if cb_token_source b then (case outcome of Token t \<Rightarrow> Some t | _ \<Rightarrow> None) else Some [])"

lemma connect_extension_Inr:
  "connect_extension uuid_text b outcome = Inr ext \<longleftrightarrow>
     (\<exists>t. token_of b outcome = Some t \<and>
        ext = (if cb_token_source b \<or> cb_project_uuid b \<noteq> None
               then Some \<lparr>cef_access_token = t,
                          cef_intdash = map_option (\<lambda>u. \<lparr>ief_project_uuid = uuid_text u\<rparr>) (cb_project_uuid b)\<rparr>
               else None))"
  by (cases outcome)
    (auto simp: connect_extension_def token_of_def access_token_def Let_def)

lemma connect_request_Inr:
  "connect_request uuid_text b outcome = Inr q \<longleftrightarrow>
     seconds_ok (cb_ping_interval b) \<and> seconds_ok (cb_ping_timeout b) \<and>
     (\<exists>ext. connect_extension uuid_text b outcome = Inr ext \<and>
        q = \<lparr>cnq_request_id = 0, cnq_protocol_version = ''3.0.0'', cnq_node_id = cb_node_id b,
             cnq_ping_interval = of_nat (cb_ping_interval b div 1000000000),
             cnq_ping_timeout = of_nat (cb_ping_timeout b div 1000000000),
             cnq_extension_fields = ext, cnq_connection_id = [],
             cnq_connection_group_id = [], cnq_expiry_interval = 0\<rparr>)"
  by (auto simp: connect_request_def res_binds whole_secs_Inr)

definition connect_ok :: "ConnBuilder \<Rightarrow> TokenOutcome \<Rightarrow> bool" where
  "connect_ok b outcome \<longleftrightarrow>
     seconds_ok (cb_ping_interval b) \<and> seconds_ok (cb_ping_timeout b) \<and> token_of b outcome \<noteq> None"



end
