(* ===== verification/Conn_Life.thy ===== *)
theory Conn_Life
  imports Errors Prelude
begin

text \<open>
  The life of a connection (\<open>iscp/mod.rs\<close>): the handle with its close semaphore, the streams
  it opens and waits for, and the reconnection loop, as a step relation over the operations that
  other threads can see happen one after the other.  A stream, its cancellation token and its
  wait group are one number, and so is a wire connection.
\<close>

section \<open>The state\<close>

datatype ConnectionState = Connected | Reconnecting | Closing | Closed

text \<open>Where the task of \<open>reconnection_loop\<close> is.\<close>

datatype LoopPhase = LoopHead | Serving | Backoff | Connecting | LoopDone

text \<open>What the holder of the close permit is waiting for.\<close>

datatype Closer = NoCloser | WaitStreams | WaitLoop

datatype ConnOut = SendDisconnect nat | CloseWire nat

record Conn =
  co_wire :: nat
  co_wire_cancelled :: bool
  co_ct :: bool
  co_loop :: LoopPhase
  co_stream_ct :: "nat list"
  co_stream_close_waiter :: bool
  co_permits :: nat
  co_semaphore_closed :: bool
  co_state :: ConnectionState
  co_checked :: nat
  co_opening :: "nat list"
  co_streams :: "nat list"
  co_cancelled :: "nat list"
  co_next :: nat
  co_closer :: Closer
  co_sent :: "ConnOut list"

definition conn_new :: Conn where
  "conn_new =
     \<lparr>co_wire = 0, co_wire_cancelled = False, co_ct = False, co_loop = LoopHead,
      co_stream_ct = [], co_stream_close_waiter = True, co_permits = 1,
      co_semaphore_closed = False, co_state = Connected, co_checked = 0, co_opening = [],
      co_streams = [], co_cancelled = [], co_next = 0, co_closer = NoCloser, co_sent = []\<rparr>"

section \<open>The operations of the handle\<close>

definition check_close :: "Conn \<Rightarrow> unit res" where
  "check_close s =
     (if co_permits s = 0 \<or> co_ct s then Inl ConnectionClosed else Inr ())"

definition current_wire :: "Conn \<Rightarrow> nat res" where
  "current_wire s = (if co_wire_cancelled s then Inl ConnectionClosed else Inr (co_wire s))"

text \<open>\<open>wait_for_state\<close> looking at one value of the watch channel: \<open>None\<close> waits on.\<close>

definition wait_for_state :: "ConnectionState \<Rightarrow> ConnectionState \<Rightarrow> unit res option" where
  "wait_for_state target s =
     (if s = target \<or> s = Closed
      then Some (if s = target then Inr () else Inl ConnectionClosed)
      else None)"

definition push_stream_ct :: "nat \<Rightarrow> Conn \<Rightarrow> Conn" where
  "push_stream_ct n s = s\<lparr>co_stream_ct := co_stream_ct s @ [n]\<rparr>"

text \<open>
  The next two panic, here \<open>None\<close>, when the waiter has been taken: both unwrap an absent value.
\<close>

definition stream_wait_group :: "Conn \<Rightarrow> (nat \<times> Conn) option" where
  "stream_wait_group s =
     (if co_stream_close_waiter s
      then Some (co_next s, s\<lparr>co_next := co_next s + 1, co_opening := co_opening s @ [co_next s]\<rparr>)
      else None)"

definition take_stream_waiter :: "Conn \<Rightarrow> (nat list \<times> Conn) option" where
  "take_stream_waiter s =
     (if co_stream_close_waiter s
      then Some (co_stream_ct s, s\<lparr>co_stream_ct := [], co_stream_close_waiter := False\<rparr>)
      else None)"

text \<open>
  \<open>open_upstream_with_config\<close> and \<open>open_downstream_with_config\<close>: the check, the wait group, and
  the end of the opening, which hands the token over when the stream was opened and drops the
  wait group when it was not.
\<close>

definition open_check :: "Conn \<Rightarrow> Conn res" where
  "open_check s =
     (case check_close s of Inl e \<Rightarrow> Inl e | Inr _ \<Rightarrow> Inr (s\<lparr>co_checked := co_checked s + 1\<rparr>))"

definition open_group :: "Conn \<Rightarrow> Conn option" where
  "open_group s = map_option snd (stream_wait_group (s\<lparr>co_checked := co_checked s - 1\<rparr>))"

definition open_finish :: "nat \<Rightarrow> bool \<Rightarrow> Conn \<Rightarrow> Conn" where
  "open_finish n opened s =
     (let s' = s\<lparr>co_opening := removeAll n (co_opening s)\<rparr>
      in if opened then push_stream_ct n (s'\<lparr>co_streams := co_streams s @ [n]\<rparr>) else s')"

text \<open>\<open>close\<close>, in three parts between its two waits.\<close>

definition close_begin :: "Conn \<Rightarrow> Conn option" where
  "close_begin s =
     (case take_stream_waiter (s\<lparr>co_permits := co_permits s - 1, co_state := Closing\<rparr>) of
        None \<Rightarrow> None
      | Some (cts, s') \<Rightarrow>
          Some (s'\<lparr>co_cancelled := co_cancelled s @ cts, co_closer := WaitStreams\<rparr>))"

definition close_streams_done :: "Conn \<Rightarrow> Conn" where
  "close_streams_done s = s\<lparr>co_ct := True, co_closer := WaitLoop\<rparr>"

definition close_finish :: "Conn \<Rightarrow> Conn" where
  "close_finish s =
     s\<lparr>co_semaphore_closed := True, co_permits := co_permits s + 1, co_closer := NoCloser\<rparr>"

text \<open>The future of a running \<open>close\<close> is dropped: its permit returns, and nothing else.\<close>

definition close_dropped :: "Conn \<Rightarrow> Conn" where
  "close_dropped s = s\<lparr>co_permits := co_permits s + 1, co_closer := NoCloser\<rparr>"

section \<open>The reconnection loop\<close>

definition loop_head :: "Conn \<Rightarrow> Conn" where
  "loop_head s = s\<lparr>co_state := Connected, co_loop := Serving\<rparr>"

definition loop_exit :: "Conn \<Rightarrow> Conn" where
  "loop_exit s = s\<lparr>co_state := Closed, co_loop := LoopDone\<rparr>"

definition loop_closed :: "Conn \<Rightarrow> Conn" where
  "loop_closed s =
     loop_exit (s\<lparr>co_sent := co_sent s @ [SendDisconnect (co_wire s), CloseWire (co_wire s)],
       co_wire_cancelled := True\<rparr>)"

definition loop_lost :: "Conn \<Rightarrow> Conn" where
  "loop_lost s = s\<lparr>co_state := Reconnecting, co_loop := Backoff\<rparr>"

definition loop_reconnected :: "nat \<Rightarrow> Conn \<Rightarrow> Conn" where
  "loop_reconnected w s = s\<lparr>co_wire := w, co_wire_cancelled := False, co_loop := LoopHead\<rparr>"

section \<open>The steps\<close>

datatype ConnEvent =
  OpenCheck | OpenRefused | OpenGroup | OpenFinish nat bool | StreamEnd nat
| CloseBegin | CloseStreamsDone | CloseFinish | CloseAgain | CloseDropped
| WireCancelled | LoopHeadStep | LoopLost | LoopCt | BackoffDone | ReconnectOk nat | ReconnectFailed

inductive conn_step :: "Conn \<Rightarrow> ConnEvent \<Rightarrow> Conn \<Rightarrow> bool" where
  open_check: "open_check s = Inr s' \<Longrightarrow> conn_step s OpenCheck s'"
| open_refused: "open_check s = Inl e \<Longrightarrow> conn_step s OpenRefused s"
| open_group: "0 < co_checked s \<Longrightarrow> open_group s = Some s' \<Longrightarrow> conn_step s OpenGroup s'"
| open_finish: "n \<in> set (co_opening s) \<Longrightarrow> conn_step s (OpenFinish n opened) (open_finish n opened s)"
| stream_end: "n \<in> set (co_streams s) \<Longrightarrow>
    conn_step s (StreamEnd n) (s\<lparr>co_streams := removeAll n (co_streams s)\<rparr>)"
| close_begin: "\<not> co_semaphore_closed s \<Longrightarrow> 0 < co_permits s \<Longrightarrow> close_begin s = Some s' \<Longrightarrow>
    conn_step s CloseBegin s'"
| close_streams_done: "co_closer s = WaitStreams \<Longrightarrow> co_opening s = [] \<Longrightarrow> co_streams s = [] \<Longrightarrow>
    conn_step s CloseStreamsDone (close_streams_done s)"
| close_finish: "co_closer s = WaitLoop \<Longrightarrow> co_loop s = LoopDone \<Longrightarrow>
    conn_step s CloseFinish (close_finish s)"
| close_again: "co_semaphore_closed s \<Longrightarrow> conn_step s CloseAgain s"
| close_dropped: "co_closer s \<noteq> NoCloser \<Longrightarrow> conn_step s CloseDropped (close_dropped s)"
| wire_cancelled: "conn_step s WireCancelled (s\<lparr>co_wire_cancelled := True\<rparr>)"
| loop_head: "co_loop s = LoopHead \<Longrightarrow> conn_step s LoopHeadStep (loop_head s)"
| loop_lost: "co_loop s = Serving \<Longrightarrow> co_wire_cancelled s \<Longrightarrow> conn_step s LoopLost (loop_lost s)"
| loop_ct: "co_loop s = Serving \<Longrightarrow> co_ct s \<Longrightarrow> conn_step s LoopCt (loop_closed s)"
| connect_ct: "co_loop s = Connecting \<Longrightarrow> co_ct s \<Longrightarrow> conn_step s LoopCt (loop_exit s)"
| backoff_done: "co_loop s = Backoff \<Longrightarrow> conn_step s BackoffDone (s\<lparr>co_loop := Connecting\<rparr>)"
| reconnect_ok: "co_loop s = Connecting \<Longrightarrow> conn_step s (ReconnectOk w) (loop_reconnected w s)"
| reconnect_failed: "co_loop s = Connecting \<Longrightarrow>
    conn_step s ReconnectFailed (s\<lparr>co_loop := Backoff\<rparr>)"

text \<open>The operations that unwrap an absent value in a state.\<close>

definition conn_panics :: "Conn \<Rightarrow> ConnEvent \<Rightarrow> bool" where
  "conn_panics s ev =
     (case ev of
        OpenGroup \<Rightarrow> 0 < co_checked s \<and> open_group s = None
      | CloseBegin \<Rightarrow> \<not> co_semaphore_closed s \<and> 0 < co_permits s \<and> close_begin s = None
      | _ \<Rightarrow> False)"

inductive conn_run :: "Conn \<Rightarrow> ConnEvent list \<Rightarrow> Conn \<Rightarrow> bool" for s0 where
  conn_start: "conn_run s0 [] s0"
| conn_more: "conn_run s0 evs s \<Longrightarrow> conn_step s ev s' \<Longrightarrow> conn_run s0 (evs @ [ev]) s'"

inductive_simps conn_step_simps:
  "conn_step s OpenCheck s'" "conn_step s OpenRefused s'" "conn_step s OpenGroup s'"
  "conn_step s (OpenFinish n b) s'" "conn_step s (StreamEnd n) s'" "conn_step s CloseBegin s'"
  "conn_step s CloseStreamsDone s'" "conn_step s CloseFinish s'" "conn_step s CloseAgain s'"
  "conn_step s CloseDropped s'" "conn_step s WireCancelled s'" "conn_step s LoopHeadStep s'"
  "conn_step s LoopLost s'" "conn_step s LoopCt s'" "conn_step s BackoffDone s'"
  "conn_step s (ReconnectOk w) s'" "conn_step s ReconnectFailed s'"

lemmas conn_ops =
  check_close_def push_stream_ct_def stream_wait_group_def take_stream_waiter_def
  open_check_def open_group_def open_finish_def close_begin_def close_streams_done_def
  close_finish_def close_dropped_def loop_head_def loop_exit_def loop_closed_def loop_lost_def
  loop_reconnected_def Let_def

section \<open>Invariants\<close>

definition conn_inv :: "Conn \<Rightarrow> bool" where
  "conn_inv s \<longleftrightarrow>
     co_permits s = (if co_closer s = NoCloser then 1 else 0) \<and>
     (co_closer s \<noteq> NoCloser \<longrightarrow> \<not> co_stream_close_waiter s) \<and>
     (co_closer s = WaitLoop \<longrightarrow> co_ct s) \<and>
     (co_ct s \<longrightarrow> \<not> co_stream_close_waiter s \<and> co_opening s = [] \<and> co_streams s = []) \<and>
     (co_semaphore_closed s \<longrightarrow> co_closer s = NoCloser \<and> co_loop s = LoopDone) \<and>
     (co_loop s = LoopDone \<longrightarrow> co_ct s \<and> co_state s = Closed)"

definition sent_inv :: "Conn \<Rightarrow> bool" where
  "sent_inv s \<longleftrightarrow>
     co_sent s = [] \<or> co_loop s = LoopDone \<and> (\<exists>w. co_sent s = [SendDisconnect w, CloseWire w])"

definition token_inv :: "Conn \<Rightarrow> bool" where
  "token_inv s \<longleftrightarrow>
     (co_stream_close_waiter s \<longrightarrow> co_cancelled s = []) \<and>
     set (co_streams s) \<subseteq> set (co_stream_ct s) \<union> set (co_cancelled s) \<and>
     (\<forall>n \<in> set (co_opening s). n < co_next s \<and> n \<notin> set (co_stream_ct s) \<and> n \<notin> set (co_cancelled s)) \<and>
     (\<forall>n \<in> set (co_stream_ct s) \<union> set (co_cancelled s). n < co_next s)"

lemma open_check_Inr:
  "open_check s = Inr s' \<longleftrightarrow>
     co_permits s \<noteq> 0 \<and> \<not> co_ct s \<and> s' = s\<lparr>co_checked := co_checked s + 1\<rparr>"
  by (auto simp: open_check_def check_close_def)

lemma open_group_Some:
  "open_group s = Some s' \<longleftrightarrow> co_stream_close_waiter s \<and>
     s' = s\<lparr>co_checked := co_checked s - 1, co_next := co_next s + 1,
            co_opening := co_opening s @ [co_next s]\<rparr>"
  by (auto simp: open_group_def stream_wait_group_def)

lemma close_begin_Some:
  "close_begin s = Some s' \<longleftrightarrow> co_stream_close_waiter s \<and>
     s' = s\<lparr>co_permits := co_permits s - 1, co_state := Closing, co_stream_ct := [],
            co_stream_close_waiter := False, co_cancelled := co_cancelled s @ co_stream_ct s,
            co_closer := WaitStreams\<rparr>"
  by (auto simp: close_begin_def take_stream_waiter_def)

lemma open_finish_cases:
  "open_finish n b s =
     (if b
      then s\<lparr>co_opening := removeAll n (co_opening s), co_streams := co_streams s @ [n],
             co_stream_ct := co_stream_ct s @ [n]\<rparr>
      else s\<lparr>co_opening := removeAll n (co_opening s)\<rparr>)"
  by (simp add: open_finish_def push_stream_ct_def Let_def)

lemmas conn_parts =
  open_check_Inr open_group_Some close_begin_Some open_finish_cases close_streams_done_def
  close_finish_def close_dropped_def loop_head_def loop_exit_def loop_closed_def loop_lost_def
  loop_reconnected_def

text \<open>Each part of the invariants is a claim about a few fields.\<close>

lemma conn_inv_step:
  assumes "conn_step s ev s'" and "conn_inv s"
  shows "conn_inv s'"
  using assms
  by (induction rule: conn_step.induct) (auto simp: conn_inv_def conn_parts split: if_splits)

lemma sent_inv_step:
  assumes "conn_step s ev s'" and "sent_inv s"
  shows "sent_inv s'"
  using assms
  by (induction rule: conn_step.induct) (auto simp: sent_inv_def conn_parts)

lemma token_inv_step:
  assumes "conn_step s ev s'" and "token_inv s"
  shows "token_inv s'"
  using assms
proof (induction rule: conn_step.induct)
  case (open_group s s')
  then show ?case by (auto simp: token_inv_def conn_parts less_Suc_eq)
next
  case (open_finish n s opened)
  then show ?case by (cases opened) (auto simp: token_inv_def conn_parts)
next
  case (close_begin s s')
  then show ?case by (auto simp: token_inv_def conn_parts)
qed (auto simp: token_inv_def conn_parts)

lemma conn_run_inv:
  "conn_run conn_new evs s \<Longrightarrow> conn_inv s \<and> sent_inv s \<and> token_inv s"
proof (induction rule: conn_run.induct)
  case conn_start
  show ?case by (simp add: conn_inv_def sent_inv_def token_inv_def conn_new_def)
next
  case conn_more
  then show ?case using conn_inv_step sent_inv_step token_inv_step by blast
qed

text \<open>Without a dropped close, the waiter is there until the one close takes it.\<close>

lemma waiter_without_drop:
  "conn_run conn_new evs s \<Longrightarrow> CloseDropped \<notin> set evs \<Longrightarrow>
     co_closer s = NoCloser \<and> \<not> co_semaphore_closed s \<longrightarrow> co_stream_close_waiter s"
proof (induction rule: conn_run.induct)
  case conn_start
  show ?case by (simp add: conn_new_def)
next
  case (conn_more evs s ev s')
  then have IH: "co_closer s = NoCloser \<and> \<not> co_semaphore_closed s \<longrightarrow> co_stream_close_waiter s"
    and "ev \<noteq> CloseDropped" by auto
  from conn_more.hyps(2) this show ?case
    by (induction rule: conn_step.induct) (auto simp: conn_parts)
qed

text \<open>Once the waiter is taken no further token is cancelled, and no stream can join.\<close>

lemma after_close_step:
  "conn_step s ev s' \<Longrightarrow> \<not> co_stream_close_waiter s \<Longrightarrow>
     \<not> co_stream_close_waiter s' \<and> co_cancelled s' = co_cancelled s"
  by (induction rule: conn_step.induct) (auto simp: conn_parts)

lemma after_close_run:
  "conn_run s evs s' \<Longrightarrow> \<not> co_stream_close_waiter s \<Longrightarrow>
     \<not> co_stream_close_waiter s' \<and> co_cancelled s' = co_cancelled s"
  by (induction rule: conn_run.induct) (simp, metis after_close_step)

lemma conn_run_append: "conn_run s' evs' s'' \<Longrightarrow> conn_run s evs s' \<Longrightarrow> conn_run s (evs @ evs') s''"
proof (induction rule: conn_run.induct)
  case conn_start
  then show ?case by simp
next
  case (conn_more evs' s'' ev s3)
  then show ?case using conn_run.conn_more [of s "evs @ evs'" s'' ev s3] by simp
qed

lemma conn_run_one: "conn_step s ev s' \<Longrightarrow> conn_run s [ev] s'"
  using conn_more [OF conn_start] by simp

lemma conn_run_Cons: "conn_step s ev s' \<Longrightarrow> conn_run s' evs s'' \<Longrightarrow> conn_run s (ev # evs) s''"
  using conn_run_append [OF _ conn_run_one] by force

lemma conn_run_Nil: "conn_run s [] s' \<longleftrightarrow> s' = s"
  by (auto intro: conn_start elim: conn_run.cases)

section \<open>What closing gives\<close>

lemma semaphore_closed_step:
  assumes "conn_step s ev s'" and "co_semaphore_closed s" and "conn_inv s"
  shows "co_semaphore_closed s'"
  using assms by (induction rule: conn_step.induct) (auto simp: conn_parts)

text \<open>
  C11: A finished \<open>close\<close> is final.  In every state reached after it the state is
  \<open>Closed\<close>, the reconnection loop has ended, no stream is open or being opened, a further open is
  refused with \<open>ConnectionClosed\<close> and a further close returns at once; and over the whole life of
  the connection at most one disconnect message is sent, on one wire connection, which is then
  closed, and only after the loop has been told to end.
\<close>

theorem closed_for_good:
  assumes "conn_run conn_new evs s"
  shows "(co_semaphore_closed s \<longrightarrow>
           co_state s = Closed \<and> co_loop s = LoopDone \<and> co_streams s = [] \<and> co_opening s = [] \<and>
           open_check s = Inl ConnectionClosed \<and> conn_step s CloseAgain s) \<and>
         (co_semaphore_closed s \<and> conn_step s ev s' \<longrightarrow> co_semaphore_closed s') \<and>
         (co_sent s \<noteq> [] \<longrightarrow>
           (\<exists>w. co_sent s = [SendDisconnect w, CloseWire w]) \<and> co_ct s \<and> co_state s = Closed)"
proof (intro conjI)
  have inv: "conn_inv s" "sent_inv s" using conn_run_inv [OF assms] by auto
  show "co_semaphore_closed s \<longrightarrow>
      co_state s = Closed \<and> co_loop s = LoopDone \<and> co_streams s = [] \<and> co_opening s = [] \<and>
      open_check s = Inl ConnectionClosed \<and> conn_step s CloseAgain s"
    using inv(1) by (auto simp: conn_inv_def open_check_def check_close_def conn_step_simps)
  show "co_semaphore_closed s \<and> conn_step s ev s' \<longrightarrow> co_semaphore_closed s'"
    using semaphore_closed_step inv(1) by blast
  show "co_sent s \<noteq> [] \<longrightarrow>
      (\<exists>w. co_sent s = [SendDisconnect w, CloseWire w]) \<and> co_ct s \<and> co_state s = Closed"
    using inv by (auto simp: conn_inv_def sent_inv_def)
qed

text \<open>A run with one stream, a reconnection and a close.\<close>

definition a_life :: "ConnEvent list" where
  "a_life =
     [LoopHeadStep, OpenCheck, OpenGroup, OpenFinish 0 True, WireCancelled, LoopLost, BackoffDone,
      ReconnectOk 1, LoopHeadStep, CloseBegin, StreamEnd 0, CloseStreamsDone, LoopCt, CloseFinish]"

definition the_end :: Conn where
  "the_end =
     \<lparr>co_wire = 1, co_wire_cancelled = True, co_ct = True, co_loop = LoopDone,
      co_stream_ct = [], co_stream_close_waiter = False, co_permits = 1,
      co_semaphore_closed = True, co_state = Closed, co_checked = 0, co_opening = [],
      co_streams = [], co_cancelled = [0], co_next = 1, co_closer = NoCloser,
      co_sent = [SendDisconnect 1, CloseWire 1]\<rparr>"

lemma a_life_runs: "conn_run conn_new a_life the_end"
  unfolding a_life_def the_end_def conn_new_def
  by ((rule conn_run_Cons, simp add: conn_step_simps conn_parts)+, simp add: conn_run_Nil)

theorem closed_for_good_witness:
  "co_semaphore_closed the_end \<and> co_state the_end = Closed \<and> co_streams the_end = [] \<and>
   open_check the_end = Inl ConnectionClosed \<and> co_sent the_end = [SendDisconnect 1, CloseWire 1] \<and>
   co_ct the_end"
  using closed_for_good [OF a_life_runs] by (simp add: the_end_def)

lemma drain_opening:
  "distinct ns \<Longrightarrow> set ns = set (co_opening s) \<Longrightarrow>
     conn_run s (map (\<lambda>n. OpenFinish n False) ns) (s\<lparr>co_opening := []\<rparr>)"
proof (induction ns arbitrary: s)
  case Nil
  then show ?case by (simp add: conn_run_Nil)
next
  case (Cons n ns)
  let ?s = "s\<lparr>co_opening := removeAll n (co_opening s)\<rparr>"
  have "conn_step s (OpenFinish n False) ?s"
    using Cons.prems(2) by (auto simp: conn_step_simps conn_parts)
  moreover have "conn_run ?s (map (\<lambda>n. OpenFinish n False) ns) (?s\<lparr>co_opening := []\<rparr>)"
    using Cons.prems by (intro Cons.IH) auto
  ultimately show ?case by (simp add: conn_run_Cons)
qed

lemma drain_streams:
  "distinct ns \<Longrightarrow> set ns = set (co_streams s) \<Longrightarrow>
     conn_run s (map StreamEnd ns) (s\<lparr>co_streams := []\<rparr>)"
proof (induction ns arbitrary: s)
  case Nil
  then show ?case by (simp add: conn_run_Nil)
next
  case (Cons n ns)
  let ?s = "s\<lparr>co_streams := removeAll n (co_streams s)\<rparr>"
  have "conn_step s (StreamEnd n) ?s"
    using Cons.prems(2) by (auto simp: conn_step_simps)
  moreover have "conn_run ?s (map StreamEnd ns) (?s\<lparr>co_streams := []\<rparr>)"
    using Cons.prems by (intro Cons.IH) auto
  ultimately show ?case by (simp add: conn_run_Cons)
qed

text \<open>How a loop that has been told to end goes there.\<close>

definition loop_end :: "LoopPhase \<Rightarrow> ConnEvent list" where
  "loop_end p =
     (case p of LoopHead \<Rightarrow> [LoopHeadStep, LoopCt] | Serving \<Rightarrow> [LoopCt]
      | Backoff \<Rightarrow> [BackoffDone, LoopCt] | Connecting \<Rightarrow> [LoopCt] | LoopDone \<Rightarrow> [])"

lemma loop_ends:
  assumes "co_ct s"
  shows "\<exists>s'. conn_run s (loop_end (co_loop s)) s' \<and> co_loop s' = LoopDone \<and> co_closer s' = co_closer s"
proof (cases "co_loop s")
  case LoopHead
  have "conn_run s [LoopHeadStep, LoopCt] (loop_closed (loop_head s))"
    by (rule conn_run_Cons [OF _ conn_run_one])
      (use assms LoopHead in \<open>auto simp: conn_step_simps conn_parts\<close>)
  then show ?thesis using LoopHead by (auto simp: loop_end_def conn_parts)
next
  case Serving
  then have "conn_run s [LoopCt] (loop_closed s)"
    using assms by (intro conn_run_one) (auto simp: conn_step_simps)
  then show ?thesis using Serving by (auto simp: loop_end_def conn_parts)
next
  case Backoff
  have "conn_run s [BackoffDone, LoopCt] (loop_exit (s\<lparr>co_loop := Connecting\<rparr>))"
    by (rule conn_run_Cons [OF _ conn_run_one])
      (use assms Backoff in \<open>auto simp: conn_step_simps conn_parts\<close>)
  then show ?thesis using Backoff by (auto simp: loop_end_def conn_parts)
next
  case Connecting
  then have "conn_run s [LoopCt] (loop_exit s)"
    using assms by (intro conn_run_one) (auto simp: conn_step_simps)
  then show ?thesis using Connecting by (auto simp: loop_end_def conn_parts)
next
  case LoopDone
  then show ?thesis by (auto simp: loop_end_def conn_run_Nil)
qed


definition closing_state :: Conn where
  "closing_state =
     conn_new\<lparr>co_loop := Backoff, co_state := Closing, co_wire_cancelled := True,
       co_stream_close_waiter := False, co_permits := 0, co_cancelled := [0], co_streams := [0],
       co_opening := [1], co_next := 2, co_closer := WaitStreams\<rparr>"

lemma closing_state_runs:
  "conn_run conn_new
     [LoopHeadStep, OpenCheck, OpenGroup, OpenFinish 0 True, WireCancelled, LoopLost, OpenCheck,
      OpenGroup, CloseBegin] closing_state"
  unfolding closing_state_def conn_new_def
  by ((rule conn_run_Cons, simp add: conn_step_simps conn_parts)+, simp add: conn_run_Nil)


section \<open>Panics\<close>

text \<open>
  C39: As long as no \<open>close\<close> is dropped before it completes, the only step that can
  unwrap an absent value is the second half of an opening whose check came before the close took
  the waiter.
\<close>

theorem panics_only_in_race:
  assumes "conn_run conn_new evs s" and "CloseDropped \<notin> set evs"
  shows "conn_panics s ev \<longleftrightarrow> ev = OpenGroup \<and> 0 < co_checked s \<and> \<not> co_stream_close_waiter s"
proof -
  have "co_closer s = NoCloser \<and> \<not> co_semaphore_closed s \<longrightarrow> co_stream_close_waiter s"
    using waiter_without_drop [OF assms] .
  moreover have "0 < co_permits s \<longrightarrow> co_closer s = NoCloser"
    using conn_run_inv [OF assms(1)] by (auto simp: conn_inv_def split: if_splits)
  moreover have "close_begin s = None \<longleftrightarrow> \<not> co_stream_close_waiter s"
    by (auto simp: close_begin_def take_stream_waiter_def)
  moreover have "open_group s = None \<longleftrightarrow> \<not> co_stream_close_waiter s"
    by (auto simp: open_group_def stream_wait_group_def)
  ultimately show ?thesis by (auto simp: conn_panics_def split: ConnEvent.split)
qed

definition racing_open :: Conn where
  "racing_open = conn_new\<lparr>co_checked := 1, co_state := Closing, co_stream_close_waiter := False,
     co_permits := 0, co_closer := WaitStreams\<rparr>"

lemma racing_open_runs: "conn_run conn_new [OpenCheck, CloseBegin] racing_open"
  unfolding racing_open_def conn_new_def
  by ((rule conn_run_Cons, simp add: conn_step_simps conn_parts)+, simp add: conn_run_Nil)

theorem panics_only_in_race_witness:
  "conn_panics racing_open OpenGroup \<and> \<not> conn_panics racing_open CloseBegin"
  using panics_only_in_race [OF racing_open_runs] by (simp add: racing_open_def)

text \<open>
  A close that is dropped while it waits leaves the connection unclosed and not
  closable: after it neither the semaphore nor the streams' waiter comes back, and every further
  \<open>close\<close> that acquires the permit, and every opening that passes the check, unwraps an absent
  value.
\<close>

theorem dropped_close_breaks:
  assumes "conn_run conn_new evs s" and "conn_step s CloseDropped s'" and "conn_run s' evs' s''"
  shows "(conn_panics s'' CloseBegin \<longleftrightarrow> \<not> co_semaphore_closed s'' \<and> 0 < co_permits s'') \<and>
         conn_panics s' CloseBegin \<and> (0 < co_checked s'' \<longrightarrow> conn_panics s'' OpenGroup)"
proof (intro conjI)
  have inv: "conn_inv s" using conn_run_inv [OF assms(1)] by blast
  have s': "co_closer s \<noteq> NoCloser" "s' = close_dropped s"
    using assms(2) by (auto simp: conn_step_simps)
  then have w: "\<not> co_stream_close_waiter s'"
    using inv by (auto simp: conn_inv_def close_dropped_def)
  then have w'': "\<not> co_stream_close_waiter s''" using after_close_run [OF assms(3)] by blast
  show "conn_panics s'' CloseBegin \<longleftrightarrow> \<not> co_semaphore_closed s'' \<and> 0 < co_permits s''"
    using w'' by (auto simp: conn_panics_def close_begin_def take_stream_waiter_def)
  show "conn_panics s' CloseBegin"
    using w s' inv
    by (auto simp: conn_panics_def close_begin_def take_stream_waiter_def close_dropped_def conn_inv_def)
  show "0 < co_checked s'' \<longrightarrow> conn_panics s'' OpenGroup"
    using w'' by (auto simp: conn_panics_def open_group_def stream_wait_group_def)
qed

theorem dropped_close_breaks_witness:
  "conn_panics (close_dropped closing_state) CloseBegin"
proof -
  have "conn_step closing_state CloseDropped (close_dropped closing_state)"
    by (simp add: conn_step_simps closing_state_def)
  from dropped_close_breaks [OF closing_state_runs this conn_start] show ?thesis by blast
qed

text \<open>
  What a close cancels: every stream open when it begins, and no stream whose
  opening finishes later, however long the close then waits for it.
\<close>

theorem late_stream_not_cancelled:
  assumes "conn_run conn_new evs s" and "conn_step s CloseBegin s'" and "conn_run s' evs' s''"
  shows "set (co_streams s) \<subseteq> set (co_cancelled s') \<and>
         set (co_opening s) \<inter> set (co_cancelled s'') = {}"
proof (intro conjI)
  have inv: "conn_inv s" "token_inv s" using conn_run_inv [OF assms(1)] by auto
  have s': "co_stream_close_waiter s" "co_streams s' = co_streams s" "co_opening s' = co_opening s"
    "co_cancelled s' = co_cancelled s @ co_stream_ct s" "\<not> co_stream_close_waiter s'"
    using assms(2) by (auto simp: conn_step_simps conn_parts)
  then show "set (co_streams s) \<subseteq> set (co_cancelled s')"
    using inv(2) by (auto simp: token_inv_def)
  have "co_cancelled s'' = co_cancelled s'" using after_close_run [OF assms(3) s'(5)] by blast
  then show "set (co_opening s) \<inter> set (co_cancelled s'') = {}"
    using inv(2) s' by (auto simp: token_inv_def)
qed

theorem late_stream_not_cancelled_witness:
  "\<exists>s s'. conn_run conn_new [OpenCheck, OpenGroup, OpenFinish 0 True, OpenCheck, OpenGroup] s \<and>
     conn_step s CloseBegin s' \<and> 0 \<in> set (co_cancelled s') \<and> 1 \<notin> set (co_cancelled s') \<and>
     conn_run s' [OpenFinish 1 True] (open_finish 1 True s') \<and>
     co_streams (open_finish 1 True s') = [0, 1] \<and> 1 \<notin> set (co_cancelled (open_finish 1 True s'))"
proof -
  let ?s = "conn_new\<lparr>co_stream_ct := [0], co_streams := [0], co_opening := [1], co_next := 2\<rparr>"
  let ?s' = "?s\<lparr>co_permits := 0, co_state := Closing, co_stream_ct := [],
     co_stream_close_waiter := False, co_cancelled := [0], co_closer := WaitStreams\<rparr>"
  have run: "conn_run conn_new [OpenCheck, OpenGroup, OpenFinish 0 True, OpenCheck, OpenGroup] ?s"
    unfolding conn_new_def
    by ((rule conn_run_Cons, simp add: conn_step_simps conn_parts)+, simp add: conn_run_Nil)
  have step: "conn_step ?s CloseBegin ?s'"
    by (simp add: conn_step_simps conn_parts conn_new_def)
  have late: "conn_run ?s' [OpenFinish 1 True] (open_finish 1 True ?s')"
    by (rule conn_run_one) (simp add: conn_step_simps)
  have "co_streams (open_finish 1 True ?s') = [0, 1]" by (simp add: conn_parts)
  with run step late late_stream_not_cancelled [OF run step late]
    late_stream_not_cancelled [OF run step conn_start]
  show ?thesis by (intro exI [of _ ?s] exI [of _ ?s']) auto
qed

end
