(* ===== verification/E2e.thy ===== *)
theory E2e
  imports Conn_Life Wire
begin

text \<open>
  End-to-end calls (\<open>iscp/e2e.rs\<close>, the call types of \<open>iscp/types.rs\<close>, the receiver of
  \<open>wire/read_loop.rs\<close>): sending calls and reply calls with their acknowledgement, waiting for the
  matching reply, receiving calls and reply calls, and the retry loop around each of the five.
  What an \<open>await\<close> yields is an argument: the environment of one attempt, a list of attempts for a
  retry loop.
\<close>

section \<open>The call types\<close>

record UpstreamCall =
  upc_destination_node_id :: string
  upc_name :: string
  upc_type :: string
  upc_payload :: bytes

record UpstreamReplyCall =
  urc_request_call_id :: string
  urc_destination_node_id :: string
  urc_name :: string
  urc_type :: string
  urc_payload :: bytes

record DownstreamReplyCall =
  drc_request_call_id :: string
  drc_source_node_id :: string
  drc_name :: string
  drc_type :: string
  drc_payload :: bytes

record DownstreamCall =
  dnc_call_id :: string
  dnc_source_node_id :: string
  dnc_name :: string
  dnc_type :: string
  dnc_payload :: bytes

definition call_message :: "string \<Rightarrow> UpstreamCall \<Rightarrow> MsgUpstreamCall" where
  "call_message call_id call =
     \<lparr>muc_call_id = call_id, muc_request_call_id = [],
      muc_destination_node_id = upc_destination_node_id call, muc_name = upc_name call,
      muc_type = upc_type call, muc_payload = upc_payload call, muc_extension_fields = None\<rparr>"

definition reply_call_message :: "string \<Rightarrow> UpstreamReplyCall \<Rightarrow> MsgUpstreamCall" where
  "reply_call_message call_id call =
     \<lparr>muc_call_id = call_id, muc_request_call_id = urc_request_call_id call,
      muc_destination_node_id = urc_destination_node_id call, muc_name = urc_name call,
      muc_type = urc_type call, muc_payload = urc_payload call, muc_extension_fields = None\<rparr>"

definition downstream_call :: "MsgDownstreamCall \<Rightarrow> DownstreamCall" where
  "downstream_call c =
     \<lparr>dnc_call_id = mdl_call_id c, dnc_source_node_id = mdl_source_node_id c, dnc_name = mdl_name c,
      dnc_type = mdl_type c, dnc_payload = mdl_payload c\<rparr>"

definition downstream_reply_call :: "MsgDownstreamCall \<Rightarrow> DownstreamReplyCall" where
  "downstream_reply_call c =
     \<lparr>drc_request_call_id = mdl_request_call_id c, drc_source_node_id = mdl_source_node_id c,
      drc_name = mdl_name c, drc_type = mdl_type c, drc_payload = mdl_payload c\<rparr>"

section \<open>The retry loop\<close>

text \<open>
  \<open>wait_for_state\<close> over the values the watch channel shows while it waits, \<open>None\<close> when it
  still waits after them, and the loop of every public operation: \<open>attempt\<close> is its \<open>try_\<close>
  function, which yields what it handed to the write loop and its result, \<open>None\<close> when it
  still waits.
\<close>

fun wait_states :: "ConnectionState \<Rightarrow> ConnectionState list \<Rightarrow> unit res option" where
  "wait_states target [] = None"
| "wait_states target (s # seen) =
     (case wait_for_state target s of Some r \<Rightarrow> Some r | None \<Rightarrow> wait_states target seen)"

fun retrying ::
  "('env \<Rightarrow> MsgUpstreamCall list \<times> 'r res option) \<Rightarrow> (ConnectionState list \<times> 'env) list \<Rightarrow>
     MsgUpstreamCall list \<times> 'r res option" where
  "retrying attempt [] = ([], None)"
| "retrying attempt ((seen, env) # rest) =
     (case wait_states Connected seen of
        None \<Rightarrow> ([], None)
      | Some (Inl e) \<Rightarrow> ([], Some (Inl e))
      | Some (Inr _) \<Rightarrow>
          (case attempt env of
             (sent, None) \<Rightarrow> (sent, None)
           | (sent, Some (Inr r)) \<Rightarrow> (sent, Some (Inr r))
           | (sent, Some (Inl e)) \<Rightarrow>
               if can_retry e then (case retrying attempt rest of (sent', r) \<Rightarrow> (sent @ sent', r))
               else (sent, Some (Inl e))))"

section \<open>Sending\<close>

text \<open>
  What one attempt meets: the cancellation taken before the first poll, the wire connection, the
  registration for the acknowledgement, the send, and the wait for the acknowledgement.
\<close>

datatype AckWait = Acked UpstreamCallAck | AckClosed | AckCancelled | AckPending

record CallEnv =
  ce_call_id :: string
  ce_cancelled :: bool
  ce_connected :: bool
  ce_subscribed :: bool
  ce_sent :: SendOutcome
  ce_ack :: AckWait

text \<open>\<open>ConnInner::wire_conn\<close> and \<open>subscribe_call_ack\<close> fail in the same way.\<close>

definition connected :: "bool \<Rightarrow> unit res" where
  "connected ok = (if ok then Inr () else Inl ConnectionClosed)"

definition await_ack :: "AckWait \<Rightarrow> unit res option" where
  "await_ack w =
     (case w of
        Acked _ \<Rightarrow> Some (Inr ())
      | AckClosed \<Rightarrow> Some (Inl ConnectionClosed)
      | AckCancelled \<Rightarrow> Some (Inl CancelledByClose)
      | AckPending \<Rightarrow> None)"

definition send_call_inner ::
  "MsgUpstreamCall \<Rightarrow> 'a CallEnv_scheme \<Rightarrow> MsgUpstreamCall list \<times> string res option" where
  "send_call_inner call env =
     (case res_bind (connected (ce_connected env)) (\<lambda>_.
             res_bind (connected (ce_subscribed env)) (\<lambda>_.
               send_result ''write loop closed'' (ce_sent env))) of
        Inl e \<Rightarrow> ([], Some (Inl e))
      | Inr _ \<Rightarrow>
          ([call],
           case await_ack (ce_ack env) of
             None \<Rightarrow> None
           | Some (Inl e) \<Rightarrow> Some (Inl e)
           | Some (Inr _) \<Rightarrow> Some (Inr (muc_call_id call))))"

definition try_send_call :: "UpstreamCall \<Rightarrow> CallEnv \<Rightarrow> MsgUpstreamCall list \<times> string res option" where
  "try_send_call call env =
     (if ce_cancelled env then ([], Some (Inl CancelledByClose))
      else send_call_inner (call_message (ce_call_id env) call) env)"

definition try_send_reply_call :: "UpstreamReplyCall \<Rightarrow> CallEnv \<Rightarrow> MsgUpstreamCall list \<times> string res option" where
  "try_send_reply_call call env =
     (if ce_cancelled env then ([], Some (Inl CancelledByClose))
      else send_call_inner (reply_call_message (ce_call_id env) call) env)"

definition send_call ::
  "UpstreamCall \<Rightarrow> (ConnectionState list \<times> CallEnv) list \<Rightarrow> MsgUpstreamCall list \<times> string res option" where
  "send_call call = retrying (try_send_call call)"

definition send_reply_call ::
  "UpstreamReplyCall \<Rightarrow> (ConnectionState list \<times> CallEnv) list \<Rightarrow> MsgUpstreamCall list \<times> string res option" where
  "send_reply_call call = retrying (try_send_reply_call call)"

section \<open>Receiving\<close>

text \<open>What a broadcast receiver yields, and \<open>DownstreamCallReceiver::recv\<close>; \<open>None\<close> waits.\<close>

datatype BroadcastRecv = Recvd MsgDownstreamCall | Lagged nat | BroadcastClosed

fun call_recv :: "BroadcastRecv list \<Rightarrow> (MsgDownstreamCall res \<times> BroadcastRecv list) option" where
  "call_recv [] = None"
| "call_recv (Recvd c # seen) = Some (Inr c, seen)"
| "call_recv (BroadcastClosed # seen) = Some (Inl ConnectionClosed, seen)"
| "call_recv (Lagged skipped # seen) = call_recv seen"

lemma call_recv_shorter: "call_recv seen = Some (r, seen') \<Longrightarrow> length seen' < length seen"
  by (induction seen rule: call_recv.induct) auto

text \<open>\<open>wait_matching_reply\<close> over what the receiver yields before the deadline.\<close>

function wait_matching_reply :: "string \<Rightarrow> BroadcastRecv list \<Rightarrow> MsgDownstreamCall res" where
  "wait_matching_reply call_id seen =
     (case call_recv seen of
        None \<Rightarrow> Inl (Timeout ''wait reply call'')
      | Some (Inl _, _) \<Rightarrow> Inl ConnectionClosed
      | Some (Inr c, seen') \<Rightarrow>
          if mdl_request_call_id c = call_id then Inr c else wait_matching_reply call_id seen')"
  by pat_completeness auto

termination
  by (relation "measure (length \<circ> snd)") (auto dest: call_recv_shorter)

declare wait_matching_reply.simps [simp del]

text \<open>
  A call with its reply: the receiver is subscribed before the call is sent; \<open>cw_reply\<close> is what
  it yields up to the deadline, \<open>None\<close> when the wait was cancelled.
\<close>

record CallWaitEnv = CallEnv +
  cw_reply :: "BroadcastRecv list option"

definition await_reply :: "CallWaitEnv \<Rightarrow> string \<Rightarrow> DownstreamReplyCall res" where
  "await_reply env call_id =
     (case cw_reply env of
        None \<Rightarrow> Inl CancelledByClose
      | Some seen \<Rightarrow> res_bind (wait_matching_reply call_id seen) (\<lambda>c. Inr (downstream_reply_call c)))"

definition send_call_and_wait_reply_call_inner ::
  "UpstreamCall \<Rightarrow> CallWaitEnv \<Rightarrow> MsgUpstreamCall list \<times> DownstreamReplyCall res option" where
  "send_call_and_wait_reply_call_inner call env =
     (case send_call_inner (call_message (ce_call_id env) call) env of
        (sent, None) \<Rightarrow> (sent, None)
      | (sent, Some (Inl e)) \<Rightarrow> (sent, Some (Inl e))
      | (sent, Some (Inr call_id)) \<Rightarrow> (sent, Some (await_reply env call_id)))"

definition try_send_call_and_wait_reply_call ::
  "UpstreamCall \<Rightarrow> CallWaitEnv \<Rightarrow> MsgUpstreamCall list \<times> DownstreamReplyCall res option" where
  "try_send_call_and_wait_reply_call call env =
     (if ce_cancelled env then ([], Some (Inl CancelledByClose))
      else send_call_and_wait_reply_call_inner call env)"

definition send_call_and_wait_reply_call ::
  "UpstreamCall \<Rightarrow> (ConnectionState list \<times> CallWaitEnv) list \<Rightarrow>
     MsgUpstreamCall list \<times> DownstreamReplyCall res option" where
  "send_call_and_wait_reply_call call = retrying (try_send_call_and_wait_reply_call call)"

text \<open>
  One round of a receive: it subscribes anew, so \<open>rr_seen\<close> is what is broadcast after that.  A
  round that still waits is \<open>None\<close>.
\<close>

record RecvRound =
  rr_cancelled :: bool
  rr_connected :: bool
  rr_seen :: "BroadcastRecv list"

definition recv_call_inner :: "RecvRound \<Rightarrow> MsgDownstreamCall res option" where
  "recv_call_inner round =
     (case connected (rr_connected round) of
        Inl e \<Rightarrow> Some (Inl e)
      | Inr _ \<Rightarrow>
          (case call_recv (rr_seen round) of
             None \<Rightarrow> None
           | Some (Inl _, _) \<Rightarrow> Some (Inl ConnectionClosed)
           | Some (Inr c, _) \<Rightarrow> Some (Inr c)))"

fun try_recv_call :: "RecvRound list \<Rightarrow> DownstreamCall res option" where
  "try_recv_call [] = None"
| "try_recv_call (round # rounds) =
     (case (if rr_cancelled round then Some (Inl CancelledByClose) else recv_call_inner round) of
        None \<Rightarrow> None
      | Some (Inl e) \<Rightarrow> Some (Inl e)
      | Some (Inr c) \<Rightarrow>
          if mdl_request_call_id c \<noteq> [] then try_recv_call rounds
          else Some (Inr (downstream_call c)))"

fun try_recv_reply_call :: "RecvRound list \<Rightarrow> DownstreamReplyCall res option" where
  "try_recv_reply_call [] = None"
| "try_recv_reply_call (round # rounds) =
     (case (if rr_cancelled round then Some (Inl CancelledByClose) else recv_call_inner round) of
        None \<Rightarrow> None
      | Some (Inl e) \<Rightarrow> Some (Inl e)
      | Some (Inr c) \<Rightarrow>
          if mdl_request_call_id c = [] then try_recv_reply_call rounds
          else Some (Inr (downstream_reply_call c)))"

definition recv_call :: "(ConnectionState list \<times> RecvRound list) list \<Rightarrow> DownstreamCall res option" where
  "recv_call attempts = snd (retrying (\<lambda>rounds. ([], try_recv_call rounds)) attempts)"

definition recv_reply_call ::
  "(ConnectionState list \<times> RecvRound list) list \<Rightarrow> DownstreamReplyCall res option" where
  "recv_reply_call attempts = snd (retrying (\<lambda>rounds. ([], try_recv_reply_call rounds)) attempts)"

section \<open>The retry loop's contract\<close>

lemma wait_states_Some:
  "wait_states target seen = Some r \<Longrightarrow>
     r = Inr () \<and> target \<in> set seen \<or> r = Inl ConnectionClosed \<and> Closed \<in> set seen"
  by (induction seen) (auto simp: wait_for_state_def split: if_splits)

lemma retrying_Cons_cases:
  assumes "retrying attempt ((seen, env) # rest) = (out, res)"
  obtains
    (waiting) "wait_states Connected seen = None" "out = []" "res = None"
  | (closed) "wait_states Connected seen = Some (Inl ConnectionClosed)" "out = []"
      "res = Some (Inl ConnectionClosed)" "Closed \<in> set seen"
  | (ended) r where "attempt env = (out, r)" "res = r"
      "case r of Some (Inl e) \<Rightarrow> \<not> can_retry e | _ \<Rightarrow> True"
  | (again) sent e out' where "attempt env = (sent, Some (Inl e))" "can_retry e"
      "retrying attempt rest = (out', res)" "out = sent @ out'"
proof (cases "wait_states Connected seen")
  case None
  then show ?thesis using assms waiting by simp
next
  case (Some w)
  show ?thesis
  proof (cases w)
    case (Inl e)
    then show ?thesis using assms closed wait_states_Some [OF Some] Some by auto
  next
    case (Inr u)
    obtain sent r where a: "attempt env = (sent, r)" by (cases "attempt env")
    show ?thesis
    proof (cases "\<exists>e. r = Some (Inl e) \<and> can_retry e")
      case True
      then obtain e where "r = Some (Inl e)" "can_retry e" by blast
      moreover obtain out' r' where "retrying attempt rest = (out', r')"
        by (cases "retrying attempt rest")
      ultimately show ?thesis using assms Some Inr a again by auto
    next
      case False
      have "sent = out \<and> res = r \<and> (case r of Some (Inl e) \<Rightarrow> \<not> can_retry e | _ \<Rightarrow> True)"
        using assms Some Inr a False by (auto split: option.splits sum.splits)
      then show ?thesis using a ended by auto
    qed
  qed
qed

text \<open>
  The result of the loop: an attempt's success, its final error, or \<open>ConnectionClosed\<close> when the
  connection was seen closed.
\<close>

lemma retrying_result:
  "retrying attempt attempts = (out, Some res) \<Longrightarrow>
     (case res of
        Inr r \<Rightarrow> \<exists>env sent. env \<in> snd ` set attempts \<and> attempt env = (sent, Some (Inr r))
      | Inl e \<Rightarrow> e = ConnectionClosed \<and> (\<exists>seen \<in> fst ` set attempts. Closed \<in> set seen) \<or>
          \<not> can_retry e \<and> (\<exists>env sent. env \<in> snd ` set attempts \<and> attempt env = (sent, Some (Inl e))))"
proof (induction attempts arbitrary: out)
  case (Cons a rest)
  obtain seen env where a: "a = (seen, env)" by (cases a)
  with Cons.prems have "retrying attempt ((seen, env) # rest) = (out, Some res)" by simp
  then show ?case
  proof (cases rule: retrying_Cons_cases)
    case closed
    then show ?thesis using a by auto
  next
    case (ended r)
    then show ?thesis using a by (auto split: sum.splits)
  next
    case (again sent e out')
    then have "retrying attempt rest = (out', Some res)" by simp
    from Cons.IH [OF this] show ?thesis by (auto split: sum.splits)
  qed simp
qed simp

text \<open>Everything an attempt hands to the write loop has the property \<open>P\<close>.\<close>

lemma retrying_sent:
  assumes "\<And>env sent r. attempt env = (sent, r) \<Longrightarrow> env \<in> snd ` set attempts \<Longrightarrow> \<forall>m \<in> set sent. P m"
  shows "retrying attempt attempts = (out, res) \<Longrightarrow> \<forall>m \<in> set out. P m"
  using assms
proof (induction attempts arbitrary: out)
  case (Cons a rest)
  obtain seen env where a: "a = (seen, env)" by (cases a)
  with Cons.prems(1) have "retrying attempt ((seen, env) # rest) = (out, res)" by simp
  then show ?case
  proof (cases rule: retrying_Cons_cases)
    case (ended r)
    then show ?thesis using Cons.prems(2) [of env out r] a by auto
  next
    case (again sent e out')
    have "\<forall>m \<in> set out'. P m" using Cons.IH again(3) Cons.prems(2) by force
    moreover have "\<forall>m \<in> set sent. P m" using Cons.prems(2) again(1) a by auto
    ultimately show ?thesis using again(4) by auto
  qed simp_all
qed simp

text \<open>A success is the last thing the loop did: what its attempt sent comes last.\<close>

lemma retrying_success_last:
  "retrying attempt attempts = (out, Some (Inr r)) \<Longrightarrow>
     \<exists>env sent before. env \<in> snd ` set attempts \<and> attempt env = (sent, Some (Inr r)) \<and> out = before @ sent"
proof (induction attempts arbitrary: out)
  case (Cons a rest)
  obtain seen env where a: "a = (seen, env)" by (cases a)
  with Cons.prems have "retrying attempt ((seen, env) # rest) = (out, Some (Inr r))" by simp
  then show ?case
  proof (cases rule: retrying_Cons_cases)
    case (ended r')
    then show ?thesis using a by auto
  next
    case (again sent e out')
    from Cons.IH [OF again(3)] obtain env' sent' before where
      "env' \<in> snd ` set rest" "attempt env' = (sent', Some (Inr r))" "out' = before @ sent'" by blast
    then show ?thesis using a again(4) by (intro exI [of _ env'] exI [of _ sent'] exI [of _ "sent @ before"]) auto
  qed simp_all
qed simp

section \<open>Calls\<close>

lemma send_call_inner_cases:
  "send_call_inner call env = (sent, r) \<Longrightarrow>
     (sent = [] \<or> sent = [call]) \<and>
     (\<forall>id. r = Some (Inr id) \<longrightarrow>
        sent = [call] \<and> id = muc_call_id call \<and> (\<exists>ack. ce_ack env = Acked ack)) \<and>
     (\<forall>e. r = Some (Inl e) \<longrightarrow>
        e = ConnectionClosed \<or> e = CancelledByClose \<or> e = Timeout [] \<or>
        e = Unexpected ''write loop closed'')"
  by (cases "ce_connected env"; cases "ce_subscribed env"; cases "ce_sent env"; cases "ce_ack env")
    (auto simp: send_call_inner_def connected_def send_result_def await_ack_def)

lemma try_send_call_cases:
  "try_send_call call env = (sent, r) \<Longrightarrow>
     (sent = [] \<or> sent = [call_message (ce_call_id env) call]) \<and>
     (\<forall>id. r = Some (Inr id) \<longrightarrow>
        sent = [call_message (ce_call_id env) call] \<and> id = ce_call_id env \<and> (\<exists>ack. ce_ack env = Acked ack)) \<and>
     (\<forall>e. r = Some (Inl e) \<longrightarrow>
        e = ConnectionClosed \<or> e = CancelledByClose \<or> e = Timeout [] \<or>
        e = Unexpected ''write loop closed'')"
  by (auto simp: try_send_call_def call_message_def split: if_splits dest: send_call_inner_cases)

lemma try_wait_cases:
  "try_send_call_and_wait_reply_call call env = (sent, r) \<Longrightarrow>
     (sent = [] \<or> sent = [call_message (ce_call_id env) call]) \<and>
     (\<forall>reply. r = Some (Inr reply) \<longrightarrow>
        sent = [call_message (ce_call_id env) call] \<and>
        (\<exists>seen c. cw_reply env = Some seen \<and> wait_matching_reply (ce_call_id env) seen = Inr c \<and>
           reply = downstream_reply_call c))"
proof -
  let ?m = "call_message (ce_call_id env) call"
  assume step: "try_send_call_and_wait_reply_call call env = (sent, r)"
  obtain sent' r' where inner: "send_call_inner ?m env = (sent', r')" by (cases "send_call_inner ?m env")
  note sent = send_call_inner_cases [OF inner]
  show ?thesis
  proof (cases "ce_cancelled env")
    case True
    then show ?thesis using step by (auto simp: try_send_call_and_wait_reply_call_def)
  next
    case False
    with step inner have eq: "sent = sent'"
      "r = (case r' of None \<Rightarrow> None | Some (Inl e) \<Rightarrow> Some (Inl e)
        | Some (Inr i) \<Rightarrow> Some (await_reply env i))"
      by (auto simp: try_send_call_and_wait_reply_call_def send_call_and_wait_reply_call_inner_def
          split: option.splits sum.splits)
    show ?thesis
    proof (cases "\<exists>i. r' = Some (Inr i)")
      case True
      then obtain i where "r' = Some (Inr i)" by blast
      then show ?thesis
        using eq sent by (auto simp: await_reply_def call_message_def res_binds split: option.splits)
    next
      case False
      then show ?thesis using eq sent by (auto split: option.splits sum.splits)
    qed
  qed
qed


text \<open>A call whose first attempt loses its connection after the message went out.\<close>

definition a_call :: UpstreamCall where
  "a_call = \<lparr>upc_destination_node_id = ''n'', upc_name = ''f'', upc_type = ''t'', upc_payload = [1]\<rparr>"

definition a_failed_ack :: UpstreamCallAck where
  "a_failed_ack = \<lparr>uca_call_id = ''c2'', uca_result_code = 2, uca_result_string = ''no such node'',
     uca_extension_fields = None\<rparr>"

definition two_attempts :: "(ConnectionState list \<times> CallEnv) list" where
  "two_attempts =
     [([Connected], \<lparr>ce_call_id = ''c1'', ce_cancelled = False, ce_connected = True, ce_subscribed = True,
        ce_sent = Sent, ce_ack = AckClosed\<rparr>),
      ([Reconnecting, Connected], \<lparr>ce_call_id = ''c2'', ce_cancelled = False, ce_connected = True,
        ce_subscribed = True, ce_sent = Sent, ce_ack = Acked a_failed_ack\<rparr>)]"

lemma two_attempts_send:
  "send_call a_call two_attempts =
     ([call_message ''c1'' a_call, call_message ''c2'' a_call], Some (Inr ''c2''))"
  by (simp add: send_call_def two_attempts_def try_send_call_def send_call_inner_def connected_def
      send_result_def await_ack_def wait_for_state_def call_message_def)


text \<open>
  The acknowledgement of a call is waited for but not read: an attempt whose call is
  acknowledged succeeds whatever result code the acknowledgement carries, and the attempt of a
  call with a reply goes on to wait for the reply.
\<close>

theorem ack_result_code_ignored:
  "try_send_call call (env\<lparr>ce_ack := Acked ack\<rparr>) = try_send_call call (env\<lparr>ce_ack := Acked ack'\<rparr>)"
  "try_send_reply_call rcall (env\<lparr>ce_ack := Acked ack\<rparr>) =
     try_send_reply_call rcall (env\<lparr>ce_ack := Acked ack'\<rparr>)"
  "try_send_call_and_wait_reply_call call (wenv\<lparr>ce_ack := Acked ack\<rparr>) =
     try_send_call_and_wait_reply_call call (wenv\<lparr>ce_ack := Acked ack'\<rparr>)"
  "send_call a_call two_attempts =
     ([call_message ''c1'' a_call, call_message ''c2'' a_call], Some (Inr ''c2'')) \<and>
   result_code_try_from (uca_result_code a_failed_ack) \<noteq> Some Succeeded"
proof -
  have ack: "send_call_inner m (e\<lparr>ce_ack := Acked ack\<rparr>) = send_call_inner m (e\<lparr>ce_ack := Acked ack'\<rparr>)"
    for m and e :: "'z CallEnv_scheme"
    by (simp add: send_call_inner_def await_ack_def split: sum.split)
  have reply: "await_reply (wenv\<lparr>ce_ack := a\<rparr>) = await_reply wenv" for a
    by (rule ext) (simp add: await_reply_def)
  show "try_send_call call (env\<lparr>ce_ack := Acked ack\<rparr>) = try_send_call call (env\<lparr>ce_ack := Acked ack'\<rparr>)"
    by (simp add: try_send_call_def ack)
  show "try_send_reply_call rcall (env\<lparr>ce_ack := Acked ack\<rparr>) =
      try_send_reply_call rcall (env\<lparr>ce_ack := Acked ack'\<rparr>)"
    by (simp add: try_send_reply_call_def ack)
  show "try_send_call_and_wait_reply_call call (wenv\<lparr>ce_ack := Acked ack\<rparr>) =
      try_send_call_and_wait_reply_call call (wenv\<lparr>ce_ack := Acked ack'\<rparr>)"
    unfolding try_send_call_and_wait_reply_call_def send_call_and_wait_reply_call_inner_def ack reply
    by simp
  show "send_call a_call two_attempts =
      ([call_message ''c1'' a_call, call_message ''c2'' a_call], Some (Inr ''c2'')) \<and>
    result_code_try_from (uca_result_code a_failed_ack) \<noteq> Some Succeeded"
    by (simp add: two_attempts_send a_failed_ack_def result_code_try_from_Some)
qed

section \<open>Errors\<close>

lemma res_map_cases: "res_bind r (\<lambda>c. Inr (f c)) = Inl e \<longleftrightarrow> r = Inl e"
  by (cases r) auto

lemma wait_matching_reply_Inl:
  "wait_matching_reply call_id seen = Inl e \<Longrightarrow> e = ConnectionClosed \<or> e = Timeout ''wait reply call''"
proof (induction call_id seen rule: wait_matching_reply.induct)
  case (1 call_id seen)
  show ?case
  proof (cases "call_recv seen")
    case None
    then show ?thesis using "1.prems" by (simp add: wait_matching_reply.simps)
  next
    case (Some a)
    obtain r seen' where a: "a = (r, seen')" by (cases a)
    show ?thesis
    proof (cases r)
      case (Inl e')
      then show ?thesis using "1.prems" Some a by (simp add: wait_matching_reply.simps)
    next
      case (Inr c)
      show ?thesis
      proof (cases "mdl_request_call_id c = call_id")
        case True
        then show ?thesis using "1.prems" Some a Inr by (simp add: wait_matching_reply.simps)
      next
        case False
        then have "wait_matching_reply call_id seen' = Inl e"
          using "1.prems" Some a Inr wait_matching_reply.simps [of call_id seen] by simp
        with "1.IH" [OF Some a [symmetric] Inr False] show ?thesis .
      qed
    qed
  qed
qed

lemma try_wait_errors:
  assumes "try_send_call_and_wait_reply_call call env = (sent, Some (Inl e))"
  shows "can_retry e \<or> e \<in> {Timeout [], Timeout ''wait reply call'', Unexpected ''write loop closed''}"
proof (cases "ce_cancelled env")
  case True
  then show ?thesis using assms by (auto simp: try_send_call_and_wait_reply_call_def)
next
  case False
  let ?m = "call_message (ce_call_id env) call"
  obtain sent' r' where inner: "send_call_inner ?m env = (sent', r')" by (cases "send_call_inner ?m env")
  consider "r' = None" | e' where "r' = Some (Inl e')" | i where "r' = Some (Inr i)"
    by (cases r'; cases "the r'") auto
  then show ?thesis
  proof cases
    case (3 i)
    then have "await_reply env i = Inl e"
      using assms False inner
      by (simp add: try_send_call_and_wait_reply_call_def send_call_and_wait_reply_call_inner_def)
    then show ?thesis
      by (auto simp: await_reply_def res_map_cases split: option.splits dest: wait_matching_reply_Inl)
  qed (use assms False inner send_call_inner_cases [OF inner] in
      \<open>auto simp: try_send_call_and_wait_reply_call_def send_call_and_wait_reply_call_inner_def\<close>)
qed

lemma try_send_reply_errors:
  assumes "try_send_reply_call call env = (sent, Some (Inl e))"
  shows "can_retry e \<or> e \<in> {Timeout [], Unexpected ''write loop closed''}"
  using assms by (auto simp: try_send_reply_call_def split: if_splits dest!: send_call_inner_cases)

lemma recv_call_inner_errors: "recv_call_inner round = Some (Inl e) \<Longrightarrow> e = ConnectionClosed"
  by (auto simp: recv_call_inner_def connected_def split: sum.splits if_splits option.splits)

lemma try_recv_call_errors: "try_recv_call rounds = Some (Inl e) \<Longrightarrow> can_retry e"
  by (induction rounds)
    (auto split: option.splits sum.splits if_splits dest: recv_call_inner_errors)

lemma try_recv_reply_call_errors: "try_recv_reply_call rounds = Some (Inl e) \<Longrightarrow> can_retry e"
  by (induction rounds)
    (auto split: option.splits sum.splits if_splits dest: recv_call_inner_errors)

definition closed_seen :: "Error \<Rightarrow> (ConnectionState list \<times> 'env) list \<Rightarrow> bool" where
  "closed_seen e attempts \<longleftrightarrow>
     e = ConnectionClosed \<and> (\<exists>seen \<in> fst ` set attempts. Closed \<in> set seen)"

lemma retrying_error:
  assumes "retrying attempt attempts = (out, Some (Inl e))"
    and "\<And>env sent e. attempt env = (sent, Some (Inl e)) \<Longrightarrow> can_retry e \<or> e \<in> E"
  shows "closed_seen e attempts \<or> e \<in> E"
  using retrying_result [OF assms(1)] assms(2) by (auto simp: closed_seen_def)

text \<open>
  With which errors the end-to-end operations return.  Each ends with
  \<open>ConnectionClosed\<close> only after it saw the connection in its closed state; a lost connection and a
  cancellation are retried.  Sending can also fail with the timeout of the write channel or the
  error of an ended write loop, waiting for a reply with its timeout, and receiving with nothing
  else.
\<close>

theorem e2e_errors:
  "(send_call call as = (out, Some (Inl e)) \<longrightarrow>
      closed_seen e as \<or> e \<in> {Timeout [], Unexpected ''write loop closed''}) \<and>
   (send_reply_call rcall as = (out, Some (Inl e)) \<longrightarrow>
      closed_seen e as \<or> e \<in> {Timeout [], Unexpected ''write loop closed''}) \<and>
   (send_call_and_wait_reply_call call bs = (out, Some (Inl e)) \<longrightarrow>
      closed_seen e bs \<or>
      e \<in> {Timeout [], Timeout ''wait reply call'', Unexpected ''write loop closed''}) \<and>
   (recv_call cs = Some (Inl e) \<longrightarrow> closed_seen e cs) \<and>
   (recv_reply_call cs = Some (Inl e) \<longrightarrow> closed_seen e cs)"
proof (intro conjI impI)
  show "send_call call as = (out, Some (Inl e)) \<Longrightarrow>
      closed_seen e as \<or> e \<in> {Timeout [], Unexpected ''write loop closed''}"
    unfolding send_call_def by (erule retrying_error) (auto dest!: try_send_call_cases)
  show "send_reply_call rcall as = (out, Some (Inl e)) \<Longrightarrow>
      closed_seen e as \<or> e \<in> {Timeout [], Unexpected ''write loop closed''}"
    unfolding send_reply_call_def by (erule retrying_error) (rule try_send_reply_errors)
  show "send_call_and_wait_reply_call call bs = (out, Some (Inl e)) \<Longrightarrow>
      closed_seen e bs \<or> e \<in> {Timeout [], Timeout ''wait reply call'', Unexpected ''write loop closed''}"
    unfolding send_call_and_wait_reply_call_def by (erule retrying_error) (rule try_wait_errors)
  show "recv_call cs = Some (Inl e) \<Longrightarrow> closed_seen e cs"
    using retrying_error [of "\<lambda>rounds. ([], try_recv_call rounds)" cs _ e "{}"] try_recv_call_errors
    by (auto simp: recv_call_def prod_eq_iff)
  show "recv_reply_call cs = Some (Inl e) \<Longrightarrow> closed_seen e cs"
    using retrying_error [of "\<lambda>rounds. ([], try_recv_reply_call rounds)" cs _ e "{}"]
      try_recv_reply_call_errors
    by (auto simp: recv_reply_call_def prod_eq_iff)
qed

definition closed_attempt :: "(ConnectionState list \<times> CallEnv) list" where
  "closed_attempt = take 1 two_attempts @ [([Reconnecting, Closed], snd (two_attempts ! 1))]"

lemma closed_attempt_send:
  "send_call a_call closed_attempt = ([call_message ''c1'' a_call], Some (Inl ConnectionClosed))"
  by (simp add: send_call_def closed_attempt_def two_attempts_def try_send_call_def send_call_inner_def
      connected_def send_result_def await_ack_def wait_for_state_def call_message_def)

theorem e2e_errors_witness:
  "snd (send_call a_call closed_attempt) = Some (Inl ConnectionClosed) \<and>
   (\<exists>seen \<in> fst ` set closed_attempt. Closed \<in> set seen)"
  using e2e_errors [of a_call closed_attempt _ ConnectionClosed]
  by (simp add: closed_attempt_send closed_seen_def)

section \<open>Waiting for the reply\<close>

text \<open>What decides the wait: the first call that answers, or the end of the channel.\<close>

definition decides :: "string \<Rightarrow> BroadcastRecv \<Rightarrow> bool" where
  "decides call_id x =
     (case x of
        Recvd c \<Rightarrow> mdl_request_call_id c = call_id
      | BroadcastClosed \<Rightarrow> True
      | Lagged _ \<Rightarrow> False)"

lemma wait_matching_reply_simps:
  "wait_matching_reply call_id [] = Inl (Timeout ''wait reply call'')"
  "wait_matching_reply call_id (Recvd c # seen) =
     (if mdl_request_call_id c = call_id then Inr c else wait_matching_reply call_id seen)"
  "wait_matching_reply call_id (BroadcastClosed # seen) = Inl ConnectionClosed"
  "wait_matching_reply call_id (Lagged n # seen) = wait_matching_reply call_id seen"
  using wait_matching_reply.simps [of call_id "Lagged n # seen"] wait_matching_reply.simps [of call_id seen]
  by (simp_all add: wait_matching_reply.simps [of call_id "[]"]
      wait_matching_reply.simps [of call_id "Recvd c # seen"]
      wait_matching_reply.simps [of call_id "BroadcastClosed # seen"])

text \<open>
  The wait for a reply is the search for the first thing received that decides it: a
  call whose request call id is the id of the call gives the reply, the end of the channel gives
  \<open>ConnectionClosed\<close>, and without either before the deadline it times out.  Calls for others and
  lags do not end it.
\<close>

theorem wait_matching_reply_find:
  "wait_matching_reply call_id seen =
     (case find (decides call_id) seen of
        Some (Recvd c) \<Rightarrow> Inr c
      | Some _ \<Rightarrow> Inl ConnectionClosed
      | None \<Rightarrow> Inl (Timeout ''wait reply call''))"
proof (induction seen)
  case Nil
  show ?case by (simp add: wait_matching_reply_simps)
next
  case (Cons x seen)
  then show ?case by (cases x) (simp_all add: wait_matching_reply_simps decides_def)
qed

lemma wait_matching_reply_Inr:
  "wait_matching_reply call_id seen = Inr c \<Longrightarrow> Recvd c \<in> set seen \<and> mdl_request_call_id c = call_id"
proof (induction seen)
  case (Cons x seen)
  then show ?case by (cases x) (auto simp: wait_matching_reply_simps split: if_splits)
qed (simp add: wait_matching_reply_simps)

text \<open>
  C25: The reply \<open>send_call_and_wait_reply_call\<close> returns answers the call it sent last: it
  is a call that was received after that attempt subscribed, with the id of that call as its
  request call id, so never the reply to an earlier attempt.
\<close>

theorem reply_answers_last_call:
  assumes "send_call_and_wait_reply_call call attempts = (sent, Some (Inr reply))"
  shows "\<exists>before env seen c. sent = before @ [call_message (ce_call_id env) call] \<and>
           env \<in> snd ` set attempts \<and> cw_reply env = Some seen \<and> Recvd c \<in> set seen \<and>
           mdl_request_call_id c = ce_call_id env \<and> reply = downstream_reply_call c \<and>
           drc_request_call_id reply = ce_call_id env"
proof -
  obtain env sent' before where last: "env \<in> snd ` set attempts"
    "try_send_call_and_wait_reply_call call env = (sent', Some (Inr reply))" "sent = before @ sent'"
    using retrying_success_last [OF assms [unfolded send_call_and_wait_reply_call_def]] by blast
  from try_wait_cases [OF last(2)] obtain seen c where
    ok: "sent' = [call_message (ce_call_id env) call]" "cw_reply env = Some seen"
      "wait_matching_reply (ce_call_id env) seen = Inr c" "reply = downstream_reply_call c" by auto
  have "Recvd c \<in> set seen \<and> mdl_request_call_id c = ce_call_id env"
    by (rule wait_matching_reply_Inr [OF ok(3)])
  then show ?thesis
    using last(1,3) ok
    by (intro exI [of _ before] exI [of _ env] exI [of _ seen] exI [of _ c])
      (simp add: downstream_reply_call_def)
qed

text \<open>A call answered in its second attempt, after a reply to somebody else.\<close>

definition reply_to :: "string \<Rightarrow> MsgDownstreamCall" where
  "reply_to i = \<lparr>mdl_call_id = ''r'', mdl_request_call_id = i, mdl_source_node_id = ''n'',
     mdl_name = ''f'', mdl_type = ''t'', mdl_payload = [2], mdl_extension_fields = None\<rparr>"

definition reply_attempts :: "(ConnectionState list \<times> CallWaitEnv) list" where
  "reply_attempts =
     map2 (\<lambda>(seen, env) reply. (seen, CallEnv.extend env (CallWaitEnv.fields (Some reply)))) two_attempts
       [[], [Recvd (reply_to ''c1''), Lagged 1, Recvd (reply_to ''c2'')]]"

lemma reply_attempts_send:
  "send_call_and_wait_reply_call a_call reply_attempts =
     ([call_message ''c1'' a_call, call_message ''c2'' a_call],
      Some (Inr (downstream_reply_call (reply_to ''c2''))))"
  by (simp add: send_call_and_wait_reply_call_def reply_attempts_def two_attempts_def
      try_send_call_and_wait_reply_call_def send_call_and_wait_reply_call_inner_def send_call_inner_def
      connected_def send_result_def await_ack_def wait_for_state_def call_message_def await_reply_def
      wait_matching_reply_simps reply_to_def CallEnv.extend_def CallWaitEnv.fields_def)

theorem reply_answers_last_call_witness:
  "\<exists>before (env :: CallWaitEnv) seen c.
     [call_message ''c1'' a_call, call_message ''c2'' a_call] =
       before @ [call_message (ce_call_id env) a_call] \<and>
     cw_reply env = Some seen \<and> Recvd c \<in> set seen \<and> mdl_request_call_id c = ce_call_id env \<and>
     downstream_reply_call (reply_to ''c2'') = downstream_reply_call c"
  using reply_answers_last_call [OF reply_attempts_send] by blast

section \<open>The acknowledgement and the read loop\<close>

text \<open>
  The acknowledgement of a call reaches the caller exactly when the read loop takes
  the subscription first: read before it, the acknowledgement is dropped, the later subscription
  is never served by it, and the caller, who waits without a deadline, keeps waiting.
\<close>

theorem ack_before_subscription_lost:
  assumes "reader_of False w = Some ch" and "map_of (rc_call_ack ch) (uca_call_id ack) = None"
  shows "ToCallAck tx ack \<in> set (snd (wire_run w
           [WCommand False (SubscribeCallAck (uca_call_id ack) tx),
            WRead False \<lparr>msg_message = Some (M_UpstreamCallAck ack)\<rparr> Accepted]))"
    and "\<forall>t a. ToCallAck t a \<notin> set (snd (wire_run w
           [WRead False \<lparr>msg_message = Some (M_UpstreamCallAck ack)\<rparr> Accepted,
            WCommand False (SubscribeCallAck (uca_call_id ack) tx)]))"
  using assms
  by (simp_all add: reader_of_def set_reader_def read_message_def route_message_def
      process_message_def to_channel_def)

theorem ack_before_subscription_lost_witness:
  "ToCallAck 7 a_failed_ack \<in> set (snd (wire_run (wire_new False)
     [WCommand False (SubscribeCallAck ''c2'' 7),
      WRead False \<lparr>msg_message = Some (M_UpstreamCallAck a_failed_ack)\<rparr> Accepted])) \<and>
   (\<forall>t a. ToCallAck t a \<notin> set (snd (wire_run (wire_new False)
     [WRead False \<lparr>msg_message = Some (M_UpstreamCallAck a_failed_ack)\<rparr> Accepted,
      WCommand False (SubscribeCallAck ''c2'' 7)])))"
  using ack_before_subscription_lost [of "wire_new False" channels_default a_failed_ack 7]
  by (simp add: wire_new_def reader_of_def channels_default_def a_failed_ack_def)

section \<open>Receiving\<close>

text \<open>
  The rounds of a receive against the calls broadcast: in each, \<open>g\<close> calls go by before it
  subscribes, and it takes one.  \<open>picked\<close> are the calls so taken.
\<close>

fun rounds_of :: "nat list \<Rightarrow> MsgDownstreamCall list \<Rightarrow> RecvRound list" where
  "rounds_of [] calls = []"
| "rounds_of (g # gs) calls =
     \<lparr>rr_cancelled = False, rr_connected = True, rr_seen = map Recvd (drop g calls)\<rparr> #
       rounds_of gs (drop (Suc g) calls)"

fun picked :: "nat list \<Rightarrow> MsgDownstreamCall list \<Rightarrow> MsgDownstreamCall list" where
  "picked [] calls = []"
| "picked (g # gs) calls =
     (case drop g calls of [] \<Rightarrow> [] | c # rest \<Rightarrow> c # picked gs rest)"

lemma picked_no_gaps: "picked (replicate n 0) calls = take n calls"
  by (induction n arbitrary: calls) (auto split: list.split)

lemma drop_Suc_Cons: "drop g calls = c # rest \<Longrightarrow> drop (Suc g) calls = rest"
  by (metis drop_Suc list.sel(3) tl_drop)

text \<open>
  \<open>recv_call\<close> returns the first call that is not a reply, and \<open>recv_reply_call\<close> the
  first that is, among the calls its rounds take; with no call going by between the rounds those
  are all the calls in order, and a call that goes by is never returned.
\<close>

theorem recv_takes_first:
  "try_recv_call (rounds_of gs calls) =
     map_option (\<lambda>c. Inr (downstream_call c)) (find (\<lambda>c. mdl_request_call_id c = []) (picked gs calls))"
  "try_recv_reply_call (rounds_of gs calls) =
     map_option (\<lambda>c. Inr (downstream_reply_call c))
       (find (\<lambda>c. mdl_request_call_id c \<noteq> []) (picked gs calls))"
  "picked (replicate n 0) calls = take n calls"
  "picked (length missed # gs) (missed @ c # rest) = c # picked gs rest"
proof -
  show "try_recv_call (rounds_of gs calls) =
      map_option (\<lambda>c. Inr (downstream_call c)) (find (\<lambda>c. mdl_request_call_id c = []) (picked gs calls))"
  proof (induction gs arbitrary: calls)
    case (Cons g gs)
    then show ?case
      by (cases "drop g calls") (simp_all add: recv_call_inner_def connected_def drop_Suc_Cons)
  qed simp
  show "try_recv_reply_call (rounds_of gs calls) =
      map_option (\<lambda>c. Inr (downstream_reply_call c))
        (find (\<lambda>c. mdl_request_call_id c \<noteq> []) (picked gs calls))"
  proof (induction gs arbitrary: calls)
    case (Cons g gs)
    then show ?case
      by (cases "drop g calls") (simp_all add: recv_call_inner_def connected_def drop_Suc_Cons)
  qed simp
  show "picked (replicate n 0) calls = take n calls" by (rule picked_no_gaps)
  show "picked (length missed # gs) (missed @ c # rest) = c # picked gs rest"
    by simp
qed

end
