(* ===== verification/Framing.thy ===== *)
theory Framing
  imports Byte_Codec Datagram Errors
begin

text \<open>
  The byte streams and datagrams of the QUIC and WebTransport transports (\<open>transport/quic.rs\<close>,
  \<open>transport/webtransport.rs\<close>, which share this code word for word): the writer that puts a
  four-byte length before every message, the task that cuts a stream into messages again, and the
  unreliable writer and reader over the datagram segmentation.
\<close>

section \<open>The reliable writer\<close>

text \<open>\<open>BytesMut::resize\<close>, and \<open>BigEndian::write_u32\<close> into the first four bytes.\<close>

definition resize :: "nat \<Rightarrow> u8 \<Rightarrow> bytes \<Rightarrow> bytes" where
  "resize n v buf = take n buf @ replicate (n - length buf) v"

definition write_u32 :: "bytes \<Rightarrow> u32 \<Rightarrow> bytes" where
  "write_u32 buf v = put_u32 v @ drop 4 buf"

text \<open>
  \<open>wt_stream\<close> is what the send stream has taken.  \<open>write_all\<close> takes everything, or fails after
  some of the bytes.
\<close>

record Writer =
  wt_buf :: bytes
  wt_stream :: bytes

definition writer_new :: Writer where
  "writer_new = \<lparr>wt_buf = [], wt_stream = []\<rparr>"

definition write_all :: "nat option \<Rightarrow> bytes \<Rightarrow> Writer \<Rightarrow> Writer \<times> unit res" where
  "write_all fails bs w =
     (case fails of
        None \<Rightarrow> (w\<lparr>wt_stream := wt_stream w @ bs\<rparr>, Inr ())
      | Some k \<Rightarrow> (w\<lparr>wt_stream := wt_stream w @ take k bs\<rparr>, Inl (Transport '''')))"

definition writer_write :: "nat option \<Rightarrow> bytes \<Rightarrow> Writer \<Rightarrow> Writer \<times> unit res" where
  "writer_write fails data w =
     (let w = w\<lparr>wt_buf := resize 4 0 (wt_buf w)\<rparr>
      in if 2 ^ 32 \<le> length data then (w, Inl (Transport ''too large message size''))
         else let w = w\<lparr>wt_buf := write_u32 (wt_buf w) (of_nat (length data)) @ data\<rparr>
              in write_all fails (wt_buf w) w)"

fun write_messages :: "bytes list \<Rightarrow> Writer \<Rightarrow> Writer" where
  "write_messages [] w = w"
| "write_messages (m # ms) w = write_messages ms (fst (writer_write None m w))"

section \<open>The reliable reader\<close>

text \<open>
  \<open>read_recv_stream\<close> over the bytes a stream has delivered, up to the wait for more of them (or
  the end of the stream): the messages it passes on, and the bytes it has not passed on.
\<close>

definition read_exact :: "nat \<Rightarrow> bytes \<Rightarrow> (bytes \<times> bytes) option" where
  "read_exact n s = (if length s < n then None else Some (take n s, drop n s))"

lemma read_exact_Some: "read_exact n s = Some (a, b) \<longleftrightarrow> s = a @ b \<and> length a = n"
  by (auto simp: read_exact_def)

lemma read_exact_None: "read_exact n s = None \<longleftrightarrow> length s < n"
  by (simp add: read_exact_def)

function read_recv_stream :: "bytes \<Rightarrow> bytes list \<times> bytes" where
  "read_recv_stream s =
     (case read_exact 4 s of
        None \<Rightarrow> ([], s)
      | Some (header, s') \<Rightarrow>
          (case read_exact (unat (read_u32 header)) s' of
             None \<Rightarrow> ([], s)
           | Some (buf, s'') \<Rightarrow>
               (case read_recv_stream s'' of (msgs, left) \<Rightarrow> (buf # msgs, left))))"
  by pat_completeness auto

termination
  by (relation "measure length") (auto simp: read_exact_Some)

declare read_recv_stream.simps [simp del]

lemma read_recv_stream_short: "length s < 4 \<Longrightarrow> read_recv_stream s = ([], s)"
  by (subst read_recv_stream.simps) (simp add: read_exact_def)

lemma read_recv_stream_frame:
  assumes "length m < 2 ^ 32"
  shows "read_recv_stream (put_u32 (of_nat (length m)) @ m @ s) =
     (m # fst (read_recv_stream s), snd (read_recv_stream s))"
proof -
  have "read_exact 4 (put_u32 (of_nat (length m)) @ m @ s) = Some (put_u32 (of_nat (length m)), m @ s)"
    by (simp add: read_exact_Some w32.length_put)
  moreover have "unat (read_u32 (put_u32 (of_nat (length m)))) = length m"
    using assms by (simp add: w32.read_put_here unat_of_nat take_bit_nat_eq_self)
  moreover have "read_exact (length m) (m @ s) = Some (m, s)" by (simp add: read_exact_Some)
  ultimately show ?thesis by (subst read_recv_stream.simps) (simp split: prod.split)
qed

lemma read_recv_stream_partial:
  assumes "length m < 2 ^ 32" and "length s < length m"
  shows "read_recv_stream (put_u32 (of_nat (length m)) @ s) = ([], put_u32 (of_nat (length m)) @ s)"
proof -
  have "read_exact 4 (put_u32 (of_nat (length m)) @ s) = Some (put_u32 (of_nat (length m)), s)"
    by (simp add: read_exact_Some w32.length_put)
  moreover have "unat (read_u32 (put_u32 (of_nat (length m)))) = length m"
    using assms by (simp add: w32.read_put_here unat_of_nat take_bit_nat_eq_self)
  moreover have "read_exact (length m) s = None" using assms by (simp add: read_exact_None)
  ultimately show ?thesis by (subst read_recv_stream.simps) simp
qed

text \<open>What arrives later does not change what has been read.\<close>

lemma read_recv_stream_append:
  "read_recv_stream (s @ t) =
     (fst (read_recv_stream s) @ fst (read_recv_stream (snd (read_recv_stream s) @ t)),
      snd (read_recv_stream (snd (read_recv_stream s) @ t)))"
proof (induction s rule: read_recv_stream.induct)
  case (1 s)
  show ?case
  proof (cases "\<exists>header buf s''. s = header @ buf @ s'' \<and> length header = 4 \<and>
      length buf = unat (read_u32 header)")
    case True
    then obtain header buf s'' where s: "s = header @ buf @ s''" "length header = 4"
      "length buf = unat (read_u32 header)" by blast
    have head: "read_exact 4 (s @ u) = Some (header, buf @ s'' @ u)"
      and body: "read_exact (unat (read_u32 header)) (buf @ s'' @ u) = Some (buf, s'' @ u)" for u
      using s by (simp_all add: read_exact_Some)
    have step: "read_recv_stream (s @ u) =
        (buf # fst (read_recv_stream (s'' @ u)), snd (read_recv_stream (s'' @ u)))" for u
      by (subst read_recv_stream.simps) (simp add: head body split: prod.split)
    have "read_recv_stream (s'' @ t) =
        (fst (read_recv_stream s'') @ fst (read_recv_stream (snd (read_recv_stream s'') @ t)),
         snd (read_recv_stream (snd (read_recv_stream s'') @ t)))"
      using "1.IH" head [of "[]"] body [of "[]"] by simp
    then show ?thesis using step [of t] step [of "[]"] by simp
  next
    case False
    then have "read_recv_stream s = ([], s)"
      by (subst read_recv_stream.simps) (auto simp: read_exact_Some split: option.split prod.split)
    then show ?thesis by simp
  qed
qed

lemma writer_write_ok:
  "length m < 2 ^ 32 \<Longrightarrow>
     wt_stream (fst (writer_write None m w)) = wt_stream w @ put_u32 (of_nat (length m)) @ m \<and>
     snd (writer_write None m w) = Inr ()"
  by (simp add: writer_write_def write_all_def Let_def write_u32_def resize_def)

lemma write_messages_stream:
  "list_all (\<lambda>m. length m < 2 ^ 32) ms \<Longrightarrow>
     wt_stream (write_messages ms w) =
       wt_stream w @ concat (map (\<lambda>m. put_u32 (of_nat (length m)) @ m) ms)"
  by (induction ms arbitrary: w) (simp_all add: writer_write_ok)

lemma read_written:
  "list_all (\<lambda>m. length m < 2 ^ 32) ms \<Longrightarrow>
     read_recv_stream (concat (map (\<lambda>m. put_u32 (of_nat (length m)) @ m) ms) @ s) =
       (ms @ fst (read_recv_stream s), snd (read_recv_stream s))"
  by (induction ms) (simp_all add: read_recv_stream_frame)

text \<open>
  The messages written to a stream come out of it, in order and unchanged, however
  the bytes are cut up on the way: what has arrived of the stream yields a prefix of the messages,
  what arrives later yields the rest, and nothing is left over at the end.
\<close>

theorem stream_round_trip:
  assumes "list_all (\<lambda>m. length m < 2 ^ 32) ms"
  shows "read_recv_stream (wt_stream (write_messages ms writer_new)) = (ms, []) \<and>
         (wt_stream (write_messages ms writer_new) = arrived @ rest \<longrightarrow>
           (case read_recv_stream arrived of (got, left) \<Rightarrow>
              (case read_recv_stream (left @ rest) of (got', left') \<Rightarrow> got @ got' = ms \<and> left' = [])))"
proof (intro conjI impI)
  have all: "read_recv_stream (wt_stream (write_messages ms writer_new)) = (ms, [])"
    using read_written [OF assms, of "[]"] assms
    by (simp add: write_messages_stream writer_new_def read_recv_stream_short)
  then show "read_recv_stream (wt_stream (write_messages ms writer_new)) = (ms, [])" .
  assume "wt_stream (write_messages ms writer_new) = arrived @ rest"
  then show "case read_recv_stream arrived of (got, left) \<Rightarrow>
      (case read_recv_stream (left @ rest) of (got', left') \<Rightarrow> got @ got' = ms \<and> left' = [])"
    unfolding case_prod_beta using all read_recv_stream_append [of arrived rest] by simp
qed

theorem stream_round_trip_witness:
  "read_recv_stream (wt_stream (write_messages [[1, 2], [], [3]] writer_new)) = ([[1, 2], [], [3]], []) \<and>
   (case read_recv_stream [0, 0, 0, 2, 1] of (got, left) \<Rightarrow>
      (case read_recv_stream (left @ [2, 0, 0, 0, 0, 0, 0, 0, 1, 3]) of
         (got', left') \<Rightarrow> got @ got' = [[1, 2], [], [3]] \<and> left' = []))"
proof -
  have ok: "list_all (\<lambda>m. length m < 2 ^ 32) [[1, 2], [], [3] :: bytes]" by simp
  have "wt_stream (write_messages [[1, 2], [], [3]] writer_new) =
      [0, 0, 0, 2, 1] @ [2, 0, 0, 0, 0, 0, 0, 0, 1, 3]"
    unfolding write_messages_stream [OF ok] by (simp add: writer_new_def put_u32_def)
  with stream_round_trip [OF ok, of "[0, 0, 0, 2, 1]" "[2, 0, 0, 0, 0, 0, 0, 0, 1, 3]"]
  show ?thesis by (simp only: simp_thms)
qed

section \<open>Datagrams\<close>

text \<open>
  The datagram size of a connection: what the path allows, at most what is configured; the
  writer's splitter is made for it.  \<open>None\<close> is the failed assertion of \<open>Splitter::new\<close>.
\<close>

definition datagram_size :: "nat option \<Rightarrow> nat option \<Rightarrow> nat res" where
  "datagram_size configured path =
     (case path of
        None \<Rightarrow> Inl (Transport ''datagram disabled'')
      | Some p \<Rightarrow>
          if p < 9 then Inl (Transport ''too small max datagram size'')
          else Inr (case configured of Some mtu \<Rightarrow> min mtu p | None \<Rightarrow> p))"

record UnreliableWriter =
  uw_splitter :: Splitter
  uw_frames :: "bytes list"
  uw_sent :: "bytes list"

definition unreliable_writer_new :: "nat option \<Rightarrow> nat option \<Rightarrow> UnreliableWriter res option" where
  "unreliable_writer_new configured path =
     (case datagram_size configured path of
        Inl e \<Rightarrow> Some (Inl e)
      | Inr n \<Rightarrow>
          map_option (\<lambda>sp. Inr \<lparr>uw_splitter = sp, uw_frames = [], uw_sent = []\<rparr>) (splitter_new n))"

text \<open>
  The frames are sent one after the other; when the \<open>k\<close>th is refused, those after it stay in the
  queue.
\<close>

definition unreliable_write ::
  "nat option \<Rightarrow> bytes \<Rightarrow> UnreliableWriter \<Rightarrow> (UnreliableWriter \<times> unit res) option" where
  "unreliable_write fails data w =
     (case split (uw_splitter w) data (uw_frames w) of
        None \<Rightarrow> None
      | Some (sp, frames, Inl _) \<Rightarrow>
          Some (w\<lparr>uw_splitter := sp, uw_frames := frames\<rparr>,
            Inl (Transport ''too large message size for datagram''))
      | Some (sp, frames, Inr _) \<Rightarrow>
          (let n = (case fails of Some k \<Rightarrow> min k (length frames) | None \<Rightarrow> length frames)
           in Some (w\<lparr>uw_splitter := sp, uw_frames := drop (Suc n) frames,
                      uw_sent := uw_sent w @ take n frames\<rparr>,
                if n < length frames then Inl (Transport '''') else Inr ())))"

text \<open>The reader's loop; \<open>None\<close> waits for more datagrams.\<close>

fun unreliable_read ::
  "FrameBuf \<Rightarrow> frame_event list \<Rightarrow> (bytes \<times> FrameBuf \<times> frame_event list) option" where
  "unreliable_read fb [] = None"
| "unreliable_read fb ((now, now', frame) # evs) =
     (case frame_push now now' fb frame of
        (fb', Some data) \<Rightarrow> Some (data, fb', evs)
      | (fb', None) \<Rightarrow> unreliable_read fb' evs)"

lemma unreliable_read_last:
  "list_all (\<lambda>(_, _, f). is_frame_of n f) evs \<Longrightarrow>
     outputs_for n fb evs = replicate k None @ [Some data] \<Longrightarrow>
     \<exists>fb'. unreliable_read fb evs = Some (data, fb', [])"
proof (induction evs arbitrary: fb k)
  case (Cons e evs)
  obtain t t' f where e: "e = (t, t', f)" by (cases e)
  obtain fb' out where p: "frame_push t t' fb f = (fb', out)" by (cases "frame_push t t' fb f")
  have outs: "out # outputs_for n fb' evs = replicate k None @ [Some data]"
    using Cons.prems e p by simp
  show ?case
  proof (cases k)
    case 0
    with outs have "out = Some data" and none: "outputs_for n fb' evs = []" by simp_all
    moreover have "evs = []"
      using none Cons.prems(1) by (cases evs) (auto split: prod.splits)
    ultimately show ?thesis using e p by simp
  next
    case (Suc k')
    with outs have "out = None" "outputs_for n fb' evs = replicate k' None @ [Some data]" by simp_all
    with Cons.IH [of fb' k'] Cons.prems(1) e p show ?thesis by auto
  qed
qed simp

lemma unreliable_writer_new_Some:
  assumes "unreliable_writer_new configured path = Some (Inr w)"
  shows "\<exists>n. splitter_new n = Some (uw_splitter w) \<and> uw_frames w = [] \<and> uw_sent w = []"
  using assms by (auto simp: unreliable_writer_new_def split: sum.splits)

text \<open>
  A message written to the unreliable side of a new connection and not refused goes
  out as datagrams that the reader of the other side puts together to that message, in whatever
  order they arrive within the expiry time.
\<close>

theorem datagram_round_trip:
  assumes "unreliable_writer_new configured path = Some (Inr w)" and "data \<noteq> []"
    and "unreliable_write None data w = Some (w', Inr ())"
    and "mset (map (\<lambda>(_, _, f). f) evs) = mset (uw_sent w')"
    and "within_expiry (fb_expire (frame_buf_new now)) evs"
  shows "\<exists>fb'. unreliable_read (frame_buf_new now) evs = Some (data, fb', [])"
proof -
  let ?s = "uw_splitter w"
  obtain n where w: "splitter_new n = Some ?s" "uw_frames w = []" "uw_sent w = []"
    using unreliable_writer_new_Some [OF assms(1)] by blast
  have inv: "splitter_inv ?s" and seg: "0 < sp_max_segment_size ?s"
    using splitter_new_inv [OF w(1)] by (simp_all add: splitter_inv_def)
  have len: "length data < sp_max_message_size ?s"
    using assms(3) w by (auto simp: unreliable_write_def split_def not_le split: if_splits)
  have sent: "uw_sent w' = split_frames (sp_sequence_number ?s) (sp_max_segment_size ?s) data"
    using assms(3) w split_ok(1) [OF inv len, of "[]"] by (auto simp: unreliable_write_def Let_def)
  let ?n = "sp_sequence_number ?s"
  have mine: "list_all (\<lambda>(_, _, f). is_frame_of ?n f) evs"
  proof -
    have "is_frame_of ?n f" if "f \<in> set (uw_sent w')" for f
      using that split_frames_header(1) [of f ?n "sp_max_segment_size ?s" data] seg assms(2)
        split_ok(2) [OF inv len] sent by auto
    then show ?thesis
      using mset_eq_setD [OF assms(4)] by (fastforce simp: list_all_iff)
  qed
  then have "frames_for ?n evs = map (\<lambda>(_, _, f). f) evs"
    unfolding frames_for_def by (intro filter_True) (auto simp: list_all_iff)
  then have "mset (frames_for ?n evs) = mset (split_frames ?n (sp_max_segment_size ?s) data)"
    using assms(4) sent by simp
  from split_frames_reassemble [OF inv assms(2) len _ _ assms(5) this]
  have "\<exists>k. outputs_for ?n (frame_buf_new now) evs = replicate k None @ [Some data]"
    by (auto simp: frame_buf_new_def hm_inv_def)
  then show ?thesis using unreliable_read_last [OF mine] by blast
qed

text \<open>
  When opening the unreliable side panics: the path's datagram size is checked against
  the eight-byte header before the configured limit is applied to it, so a configured limit of at
  most eight bytes fails the assertion of the splitter; otherwise it gives an error exactly for a
  path without datagrams or with too small ones, and a writer whose frames fit the path.
\<close>

theorem small_datagram_limit_panics:
  "unreliable_writer_new configured path = None \<longleftrightarrow>
     (\<exists>p mtu. path = Some p \<and> 9 \<le> p \<and> configured = Some mtu \<and> mtu \<le> 8)"
  "(\<exists>e. unreliable_writer_new configured path = Some (Inl e)) \<longleftrightarrow>
     path = None \<or> (\<exists>p. path = Some p \<and> p < 9)"
  "unreliable_writer_new configured (Some p) = Some (Inr w) \<longrightarrow>
     splitter_inv (uw_splitter w) \<and> sp_max_segment_size (uw_splitter w) + 8 \<le> p"
proof -
  show "unreliable_writer_new configured path = None \<longleftrightarrow>
      (\<exists>p mtu. path = Some p \<and> 9 \<le> p \<and> configured = Some mtu \<and> mtu \<le> 8)"
    by (cases path; cases configured)
      (auto simp: unreliable_writer_new_def datagram_size_def splitter_new_def)
  show "(\<exists>e. unreliable_writer_new configured path = Some (Inl e)) \<longleftrightarrow>
      path = None \<or> (\<exists>p. path = Some p \<and> p < 9)"
    by (cases path; cases configured)
      (auto simp: unreliable_writer_new_def datagram_size_def splitter_new_def)
  show "unreliable_writer_new configured (Some p) = Some (Inr w) \<longrightarrow>
      splitter_inv (uw_splitter w) \<and> sp_max_segment_size (uw_splitter w) + 8 \<le> p"
    by (cases configured)
      (auto simp: unreliable_writer_new_def datagram_size_def splitter_new_def splitter_inv_def
        split: if_splits)
qed

definition small_writer :: UnreliableWriter where
  "small_writer = \<lparr>uw_splitter = sp12, uw_frames = [], uw_sent = []\<rparr>"

definition reversed_frames :: "frame_event list" where
  "reversed_frames = map (\<lambda>f. (5, 5, f)) (rev six_frames)"

theorem datagram_round_trip_witness:
  "\<exists>fb'. unreliable_read (frame_buf_new 0) reversed_frames = Some ([0, 1, 2, 3, 4, 5], fb', [])"
proof (rule datagram_round_trip [where configured = "Some 12" and path = "Some 1200" and w = small_writer
      and w' = "small_writer\<lparr>uw_splitter := sp12\<lparr>sp_sequence_number := 1\<rparr>, uw_sent := six_frames\<rparr>"])
  show "unreliable_writer_new (Some 12) (Some 1200) = Some (Inr small_writer)"
    by (simp add: unreliable_writer_new_def datagram_size_def splitter_new_def small_writer_def sp12_def)
  show "unreliable_write None [0, 1, 2, 3, 4, 5] small_writer =
      Some (small_writer\<lparr>uw_splitter := sp12\<lparr>sp_sequence_number := 1\<rparr>, uw_sent := six_frames\<rparr>, Inr ())"
    by (simp add: unreliable_write_def small_writer_def split_six Let_def)
  show "mset (map (\<lambda>(_, _, f). f) reversed_frames) =
      mset (uw_sent (small_writer\<lparr>uw_splitter := sp12\<lparr>sp_sequence_number := 1\<rparr>, uw_sent := six_frames\<rparr>))"
    by (simp add: reversed_frames_def comp_def)
  show "within_expiry (fb_expire (frame_buf_new 0)) reversed_frames"
    by (simp add: reversed_frames_def six_frames_def within_expiry_def)
qed simp

end
