(* ===== verification/Compression.thy ===== *)
theory Compression
  imports Negotiation
begin

text \<open>
  Message compression (\<open>transport/compression.rs\<close>): the compressor and the extractor of a
  connection, the streaming loop both run, and the dictionary that carries the last bytes of the
  messages over to the next one.  The deflate streams of \<open>flate2\<close> are a parameter, \<open>Flate\<close>:
  \<open>fl_step\<close> is \<open>compress_vec\<close> or \<open>decompress_vec\<close> into a buffer with the given spare capacity.
\<close>

section \<open>The dictionary\<close>

record DictionaryBuffer =
  db_size :: nat
  db_buf :: bytes

definition dictionary_new :: "u8 \<Rightarrow> DictionaryBuffer option" where
  "dictionary_new window_bits =
     (if 9 \<le> window_bits \<and> window_bits \<le> 15
      then Some \<lparr>db_size = 2 * 2 ^ (unat window_bits - 1), db_buf = []\<rparr> else None)"

text \<open>\<open>copy_within\<close> from an index to the front, and the truncating \<open>resize_with\<close>.\<close>

definition copy_to_front :: "nat \<Rightarrow> bytes \<Rightarrow> bytes" where
  "copy_to_front i buf = drop i buf @ drop (length buf - i) buf"

definition push_msg :: "bytes \<Rightarrow> DictionaryBuffer \<Rightarrow> DictionaryBuffer" where
  "push_msg msg d =
     (let buf_len = length (db_buf d); msg_len = length msg; remaining = db_size d - buf_len
      in if db_size d \<le> msg_len then d\<lparr>db_buf := drop (msg_len - db_size d) msg\<rparr>
         else if msg_len \<le> remaining then d\<lparr>db_buf := db_buf d @ msg\<rparr>
         else let buf = db_buf d @ msg; l = length buf
              in d\<lparr>db_buf := take (db_size d) (copy_to_front (l - db_size d) buf)\<rparr>)"

section \<open>The streaming loop\<close>

datatype Flush = NoFlush | Finish

datatype Status = StatusOk | BufError | StreamEnd

record 'z Flate =
  fl_new :: "u32 \<Rightarrow> u8 option \<Rightarrow> 'z"
  fl_reset :: "'z \<Rightarrow> 'z"
  fl_set_dictionary :: "bytes \<Rightarrow> 'z \<Rightarrow> 'z res"
  fl_total_in :: "'z \<Rightarrow> nat"
  fl_step :: "bytes \<Rightarrow> nat \<Rightarrow> Flush \<Rightarrow> 'z \<Rightarrow> (Status \<times> bytes \<times> 'z) res"

text \<open>\<open>Vec::<u8>::reserve\<close>: the capacity after it, with the library's amortized growth.\<close>

definition vec_reserve :: "nat \<Rightarrow> nat \<Rightarrow> nat \<Rightarrow> nat" where
  "vec_reserve len capacity additional =
     (if additional \<le> capacity - len then capacity
      else max 8 (max (2 * capacity) (len + additional)))"

text \<open>
  The loop of \<open>compress\<close> and of \<open>extract\<close>, which are the same but for the direction: \<open>None\<close>
  when it does not return.  The buffer is given by its capacity and content.
\<close>

partial_function (option) stream_loop ::
  "'z Flate \<Rightarrow> nat \<Rightarrow> bytes \<Rightarrow> 'z \<Rightarrow> nat \<Rightarrow> bytes \<Rightarrow> ('z \<times> nat \<times> bytes) res option" where
  "stream_loop fl increment data z capacity buf =
     (let total_in = fl_total_in fl z;
          flush = (if total_in < length data then NoFlush else Finish)
      in case fl_step fl (drop total_in data) (capacity - length buf) flush z of
           Inl e \<Rightarrow> Some (Inl e)
         | Inr (status, out, z') \<Rightarrow>
             (let buf' = buf @ out;
                  capacity' = vec_reserve (length buf') capacity increment
              in if status = StreamEnd then Some (Inr (z', capacity, buf'))
                 else if status = BufError \<and> fl_total_in fl z' = 0 then Some (Inr (z', capacity, buf'))
                 else stream_loop fl increment data z' capacity' buf'))"

section \<open>Compressor and extractor\<close>

text \<open>The two have the same fields; a message is compressed or extracted in place.\<close>

record 'z Converter =
  cv_stream :: "'z option"
  cv_capacity :: nat
  cv_increment :: nat
  cv_dictionary :: "DictionaryBuffer option"

text \<open>\<open>None\<close> is the failed assertion of the dictionary; \<open>level as u32\<close> extends the sign.\<close>

definition converter_new :: "'z Flate \<Rightarrow> i8 option \<Rightarrow> u8 option \<Rightarrow> 'z Converter option" where
  "converter_new fl level window_bits =
     (case level of
        None \<Rightarrow> Some \<lparr>cv_stream = None, cv_capacity = 0, cv_increment = 128, cv_dictionary = None\<rparr>
      | Some l \<Rightarrow>
          (case window_bits of
             None \<Rightarrow> Some \<lparr>cv_stream = Some (fl_new fl (scast l) None), cv_capacity = 0,
                       cv_increment = 128, cv_dictionary = None\<rparr>
           | Some w \<Rightarrow>
               map_option (\<lambda>d. \<lparr>cv_stream = Some (fl_new fl (scast l) (Some w)), cv_capacity = 0,
                 cv_increment = 128, cv_dictionary = Some d\<rparr>) (dictionary_new w)))"

definition load_dictionary :: "'z Flate \<Rightarrow> DictionaryBuffer option \<Rightarrow> 'z \<Rightarrow> 'z res" where
  "load_dictionary fl dictionary z =
     (case dictionary of
        None \<Rightarrow> Inr z
      | Some d \<Rightarrow> if db_buf d = [] then Inr z else fl_set_dictionary fl (db_buf d) z)"

text \<open>
  The outer \<open>None\<close> does not return.  After an error the connection drops the converter, so only
  the error is given.
\<close>

definition compress :: "'z Flate \<Rightarrow> bytes \<Rightarrow> 'z Converter \<Rightarrow> ('z Converter \<times> bytes) res option" where
  "compress fl data c =
     (case cv_stream c of
        None \<Rightarrow> Some (Inr (c, data))
      | Some z \<Rightarrow>
          (case load_dictionary fl (cv_dictionary c) (fl_reset fl z) of
             Inl e \<Rightarrow> Some (Inl e)
           | Inr z \<Rightarrow>
               (let dictionary = map_option (push_msg data) (cv_dictionary c) in
                case stream_loop fl (cv_increment c) data z (vec_reserve 0 (cv_capacity c) (length data)) [] of
                  None \<Rightarrow> None
                | Some (Inl e) \<Rightarrow> Some (Inl e)
                | Some (Inr (z, capacity, buf)) \<Rightarrow>
                    Some (Inr (c\<lparr>cv_stream := Some z, cv_capacity := capacity,
                      cv_dictionary := dictionary\<rparr>, buf)))))"

definition extract_data :: "'z Flate \<Rightarrow> bytes \<Rightarrow> 'z Converter \<Rightarrow> ('z Converter \<times> bytes) res option" where
  "extract_data fl data c =
     (case cv_stream c of
        None \<Rightarrow> Some (Inr (c, data))
      | Some z \<Rightarrow>
          (case load_dictionary fl (cv_dictionary c) (fl_reset fl z) of
             Inl e \<Rightarrow> Some (Inl e)
           | Inr z \<Rightarrow>
               (case stream_loop fl (cv_increment c) data z (vec_reserve 0 (cv_capacity c) (2 * length data)) [] of
                  None \<Rightarrow> None
                | Some (Inl e) \<Rightarrow> Some (Inl e)
                | Some (Inr (z, capacity, buf)) \<Rightarrow>
                    Some (Inr (c\<lparr>cv_stream := Some z, cv_capacity := capacity,
                      cv_dictionary := map_option (push_msg buf) (cv_dictionary c)\<rparr>, buf)))))"

definition converters ::
  "'z Flate \<Rightarrow> 'y Flate \<Rightarrow> Compression \<Rightarrow> ('z Converter \<times> 'y Converter) option" where
  "converters fl fl' c =
     (case converter_new fl (cmp_level c) (cmp_window_bits c) of
        None \<Rightarrow> None
      | Some compressor \<Rightarrow>
          map_option (Pair compressor) (converter_new fl' (cmp_level c) (cmp_window_bits c)))"

section \<open>The dictionary holds the last bytes\<close>

definition last_bytes :: "nat \<Rightarrow> bytes \<Rightarrow> bytes" where
  "last_bytes n bs = drop (length bs - n) bs"

lemma length_last_bytes [simp]: "length (last_bytes n bs) = min n (length bs)"
  by (simp add: last_bytes_def)

lemma last_bytes_append: "last_bytes n (last_bytes n bs @ cs) = last_bytes n (bs @ cs)"
  by (cases "n \<le> length bs") (auto simp: last_bytes_def min_def add.commute)

lemma push_msg_last:
  assumes "length (db_buf d) \<le> db_size d"
  shows "push_msg msg d = d\<lparr>db_buf := last_bytes (db_size d) (db_buf d @ msg)\<rparr>"
proof -
  have "take (db_size d) (copy_to_front (length (db_buf d @ msg) - db_size d) (db_buf d @ msg)) =
      last_bytes (db_size d) (db_buf d @ msg)" if "db_size d \<le> length (db_buf d @ msg)"
    using that by (simp add: copy_to_front_def last_bytes_def)
  then show ?thesis
    using assms by (auto simp: push_msg_def Let_def last_bytes_def not_le)
qed

lemma push_msgs_last:
  "length (db_buf d) \<le> db_size d \<Longrightarrow>
     fold push_msg msgs d = d\<lparr>db_buf := last_bytes (db_size d) (db_buf d @ concat msgs)\<rparr>"
proof (induction msgs arbitrary: d)
  case Nil
  then show ?case by (simp add: last_bytes_def)
next
  case (Cons m msgs)
  then show ?case
    by (simp add: push_msg_last last_bytes_append)
qed

lemma dictionary_new_Some:
  "dictionary_new w = Some d \<longleftrightarrow> 9 \<le> w \<and> w \<le> 15 \<and> d = \<lparr>db_size = 2 ^ unat w, db_buf = []\<rparr>"
proof -
  have "2 * 2 ^ (unat w - 1) = (2 :: nat) ^ unat w" if "9 \<le> w"
    using that by (simp add: word_le_nat_alt flip: power_Suc)
  then show ?thesis by (auto simp: dictionary_new_def)
qed

text \<open>
  C23: The dictionary of a window of \<open>w\<close> bits, \<open>9 \<le> w \<le> 15\<close>, holds after any messages
  the last \<open>2^w\<close> bytes of their concatenation; other windows are refused when it is made.
\<close>

theorem dictionary_window:
  "dictionary_new w = Some d \<Longrightarrow>
     9 \<le> w \<and> w \<le> 15 \<and> db_buf (fold push_msg msgs d) = last_bytes (2 ^ unat w) (concat msgs) \<and>
     length (db_buf (fold push_msg msgs d)) = min (2 ^ unat w) (length (concat msgs))"
  by (auto simp: dictionary_new_Some push_msgs_last)

theorem dictionary_window_witness:
  "db_buf (fold push_msg [[1], replicate 600 2, [3]] \<lparr>db_size = 512, db_buf = []\<rparr>) =
     last_bytes (2 ^ unat (9 :: u8)) (concat [[1], replicate 600 2, [3]])"
  using dictionary_window [of 9 "\<lparr>db_size = 512, db_buf = []\<rparr>" "[[1], replicate 600 2, [3]]"]
  by (simp add: dictionary_new_def)

section \<open>The loop returns\<close>

text \<open>
  What the documentation of deflate streams promises a caller about progress on one message:
  a call that says it went well has used up some of a finite amount of work, and one that says it
  could not go on had no room for output or no input and no order to finish.
\<close>

definition flate_progress :: "'z Flate \<Rightarrow> bytes \<Rightarrow> ('z \<Rightarrow> nat) \<Rightarrow> bool" where
  "flate_progress fl data work \<longleftrightarrow>
     (\<forall>z spare flush status out z'.
        fl_step fl (drop (fl_total_in fl z) data) spare flush z = Inr (status, out, z') \<longrightarrow>
          (status = StatusOk \<longrightarrow> work z' < work z) \<and>
          (status = BufError \<longrightarrow> work z' \<le> work z \<and> out = [] \<and>
             (spare = 0 \<or> length data \<le> fl_total_in fl z \<and> flush = NoFlush \<or> fl_total_in fl z' = 0)))"

lemma vec_reserve_room: "0 < additional \<Longrightarrow> len < vec_reserve len capacity additional"
  by (auto simp: vec_reserve_def max_def)

lemma stream_loop_step:
  assumes "fl_step fl (drop (fl_total_in fl z) data) (capacity - length buf)
      (if fl_total_in fl z < length data then NoFlush else Finish) z = Inr (status, out, z')"
  shows "stream_loop fl increment data z capacity buf =
    (if status = StreamEnd \<or> status = BufError \<and> fl_total_in fl z' = 0
     then Some (Inr (z', capacity, buf @ out))
     else stream_loop fl increment data z' (vec_reserve (length (buf @ out)) capacity increment) (buf @ out))"
  by (subst stream_loop.simps) (auto simp: Let_def assms)

lemma stream_loop_returns:
  assumes "flate_progress fl data work" and "0 < increment"
  shows "\<exists>r. stream_loop fl increment data z capacity buf = Some r"
proof (induction "2 * work z + (if capacity \<le> length buf then 1 else 0)"
    arbitrary: z capacity buf rule: less_induct)
  case less
  let ?flush = "if fl_total_in fl z < length data then NoFlush else Finish"
  let ?step = "fl_step fl (drop (fl_total_in fl z) data) (capacity - length buf) ?flush z"
  show ?case
  proof (cases ?step)
    case (Inl e)
    then show ?thesis by (subst stream_loop.simps) (simp add: Let_def)
  next
    case (Inr a)
    obtain status out z' where a: "a = (status, out, z')" by (cases a)
    let ?buf = "buf @ out" and ?capacity = "vec_reserve (length (buf @ out)) capacity increment"
    have room: "\<not> ?capacity \<le> length ?buf"
      using vec_reserve_room [OF assms(2)] by (simp add: not_le)
    have "status = StatusOk \<Longrightarrow> work z' < work z"
      "status = BufError \<Longrightarrow> work z' \<le> work z \<and>
         (capacity - length buf = 0 \<or> length data \<le> fl_total_in fl z \<and> ?flush = NoFlush \<or> fl_total_in fl z' = 0)"
      using assms(1) [unfolded flate_progress_def, rule_format, OF Inr [unfolded a]] by auto
    then have measure: "status = StreamEnd \<or> status = BufError \<and> fl_total_in fl z' = 0 \<or>
        2 * work z' + (if ?capacity \<le> length ?buf then 1 else 0) <
        2 * work z + (if capacity \<le> length buf then 1 else 0)"
      using room by (cases status) auto
    show ?thesis
    proof (cases "status = StreamEnd \<or> status = BufError \<and> fl_total_in fl z' = 0")
      case True
      then show ?thesis using stream_loop_step [OF Inr [unfolded a], of increment] by simp
    next
      case False
      with measure have "2 * work z' + (if ?capacity \<le> length ?buf then 1 else 0) <
        2 * work z + (if capacity \<le> length buf then 1 else 0)" by blast
      from less.hyps [OF this] obtain r where
        "stream_loop fl increment data z' ?capacity ?buf = Some r" by blast
      then show ?thesis using stream_loop_step [OF Inr [unfolded a], of increment] False by simp
    qed
  qed
qed

text \<open>
  C24: \<open>compress\<close> returns: with a deflate stream that makes progress on the message, it
  ends with the compressed message or an error, whatever the buffer it starts with.
\<close>

theorem compress_returns:
  assumes "flate_progress fl data work" and "0 < cv_increment c"
  shows "\<exists>r. compress fl data c = Some r"
  using stream_loop_returns [OF assms]
  by (auto simp: compress_def Let_def split: option.splits sum.splits prod.splits)
    (metis option.distinct(1))

text \<open>A stream that stores, for the witnesses.\<close>

definition stored :: "nat Flate" where
  "stored =
     \<lparr>fl_new = (\<lambda>_ _. 0), fl_reset = (\<lambda>_. 0), fl_set_dictionary = (\<lambda>_ z. Inr z), fl_total_in = (\<lambda>z. z),
      fl_step = (\<lambda>input spare flush z.
        let k = min (length input) spare
        in Inr (if input = [] \<and> flush = Finish then StreamEnd
                else if k = 0 then BufError else StatusOk, take k input, z + k))\<rparr>"

lemma stored_progress: "flate_progress stored data (\<lambda>z. length data - z)"
proof -
  have "flush \<noteq> Finish \<Longrightarrow> flush = NoFlush" for flush by (cases flush) simp_all
  then show ?thesis by (auto simp: flate_progress_def stored_def Let_def min_def split: if_splits)
qed

definition a_converter :: "nat Converter" where
  "a_converter = \<lparr>cv_stream = Some 0, cv_capacity = 0, cv_increment = 128,
     cv_dictionary = Some \<lparr>db_size = 512, db_buf = []\<rparr>\<rparr>"

theorem compress_returns_witness: "\<exists>r. compress stored [1, 2, 3] a_converter = Some r"
  by (rule compress_returns [OF stored_progress]) (simp add: a_converter_def)

section \<open>The loop that does not return\<close>

lemma stream_loop_stuck:
  assumes "\<And>spare. fl_step fl (drop (fl_total_in fl z) data) spare
      (if fl_total_in fl z < length data then NoFlush else Finish) z = Inr (BufError, [], z)"
    and "fl_total_in fl z \<noteq> 0"
  shows "stream_loop fl increment data z capacity buf = None"
proof -
  have "\<not> (fl' = fl \<and> data' = data \<and> z' = z)"
    if run: "stream_loop fl' inc data' z' capacity buf = Some r" for fl' inc data' z' capacity buf r
  proof (rule stream_loop.raw_induct [OF _ run,
        where P = "\<lambda>fl' inc data' z' capacity buf r. \<not> (fl' = fl \<and> data' = data \<and> z' = z)"])
    fix loop fl' inc data' z' capacity buf r
    assume IH: "\<And>fl' inc data' z' capacity buf r. loop fl' inc data' z' capacity buf = Some r \<Longrightarrow>
        \<not> (fl' = fl \<and> data' = data \<and> z' = z)"
      and body: "(let total_in = fl_total_in fl' z';
          flush = (if total_in < length data' then NoFlush else Finish)
        in case fl_step fl' (drop total_in data') (capacity - length buf) flush z' of
             Inl e \<Rightarrow> Some (Inl e)
           | Inr (status, out, z'') \<Rightarrow>
               (let buf' = buf @ out; capacity' = vec_reserve (length buf') capacity inc
                in if status = StreamEnd then Some (Inr (z'', capacity, buf'))
                   else if status = BufError \<and> fl_total_in fl' z'' = 0 then Some (Inr (z'', capacity, buf'))
                   else loop fl' inc data' z'' capacity' buf')) = Some r"
    show "\<not> (fl' = fl \<and> data' = data \<and> z' = z)"
    proof
      assume "fl' = fl \<and> data' = data \<and> z' = z"
      then have "loop fl inc data z (vec_reserve (length buf) capacity inc) buf = Some r"
        using body assms by (simp add: Let_def)
      from IH [OF this] show False by simp
    qed
  qed
  from this [of fl increment data z capacity buf] show ?thesis
    by (cases "stream_loop fl increment data z capacity buf") simp_all
qed

text \<open>
  A message that ends before its deflate stream does makes \<open>extract\<close> loop for ever:
  once all of it is taken in, every further call reports that it cannot go on, and since the loop
  gives up only when nothing was taken in at all, it reserves room and calls again.
\<close>

theorem truncated_message_never_extracted:
  assumes "cv_stream c = Some z0" and "cv_dictionary c = None" and "data \<noteq> []"
    and "fl_total_in fl (fl_reset fl z0) = 0" and "fl_total_in fl z = length data"
    and "fl_step fl data (vec_reserve 0 (cv_capacity c) (2 * length data)) NoFlush (fl_reset fl z0) =
           Inr (StatusOk, out, z)"
    and "\<And>spare. fl_step fl [] spare Finish z = Inr (BufError, [], z)"
  shows "extract_data fl data c = None"
proof -
  let ?capacity = "vec_reserve 0 (cv_capacity c) (2 * length data)"
  have "stream_loop fl (cv_increment c) data z capacity buf = None" for capacity buf
    by (rule stream_loop_stuck) (use assms in simp_all)
  then have "stream_loop fl (cv_increment c) data (fl_reset fl z0) ?capacity [] = None"
    by (subst stream_loop.simps) (simp add: Let_def assms)
  then show ?thesis using assms(1,2) by (simp add: extract_data_def load_dictionary_def)
qed

text \<open>A stream that takes in everything and always waits for more.\<close>

definition endless :: "nat Flate" where
  "endless = stored\<lparr>fl_step := (\<lambda>input spare flush z.
     Inr (if input = [] then BufError else StatusOk, [], z + length input))\<rparr>"

theorem truncated_message_never_extracted_witness:
  "extract_data endless [75] (a_converter\<lparr>cv_dictionary := None\<rparr>) = None"
  by (rule truncated_message_never_extracted [where z = 1 and out = "[]" and ?z0.0 = 0])
    (simp_all add: a_converter_def endless_def stored_def)

section \<open>Round trip\<close>

text \<open>
  What a deflate stream and its inflate stream promise: whatever the first made of some data
  after it was given a dictionary, the second, given the same dictionary, turns back into the
  data.
\<close>

definition lossless :: "'z Flate \<Rightarrow> 'y Flate \<Rightarrow> bool" where
  "lossless fl fl' \<longleftrightarrow>
     (\<forall>dictionary increment data z z1 z2 capacity capacity1 out y capacity'.
        0 < increment \<longrightarrow> length data \<le> capacity \<longrightarrow> length out \<le> capacity' \<longrightarrow>
        load_dictionary fl dictionary (fl_reset fl z) = Inr z1 \<longrightarrow>
        stream_loop fl increment data z1 capacity [] = Some (Inr (z2, capacity1, out)) \<longrightarrow>
        (\<exists>y1 y2 capacity2.
           load_dictionary fl' dictionary (fl_reset fl' y) = Inr y1 \<and>
           stream_loop fl' increment out y1 capacity' [] = Some (Inr (y2, capacity2, data))))"

definition in_step :: "'z Converter \<Rightarrow> 'y Converter \<Rightarrow> bool" where
  "in_step c e \<longleftrightarrow>
     cv_dictionary c = cv_dictionary e \<and> (cv_stream c = None \<longleftrightarrow> cv_stream e = None) \<and>
     0 < cv_increment c \<and> cv_increment e = cv_increment c"

lemma converters_in_step: "converters fl fl' settings = Some (c, e) \<Longrightarrow> in_step c e"
  by (auto simp: converters_def converter_new_def in_step_def split: option.splits)

lemma compress_extract:
  assumes "lossless fl fl'" and "in_step c e" and "compress fl data c = Some (Inr (c', out))"
  shows "\<exists>e'. extract_data fl' out e = Some (Inr (e', data)) \<and> in_step c' e'"
proof (cases "cv_stream c")
  case None
  then show ?thesis using assms(2,3) by (auto simp: compress_def extract_data_def in_step_def)
next
  case (Some z)
  then obtain y where y: "cv_stream e = Some y" using assms(2) by (auto simp: in_step_def)
  obtain z1 z2 capacity where run:
    "load_dictionary fl (cv_dictionary c) (fl_reset fl z) = Inr z1"
    "stream_loop fl (cv_increment c) data z1 (vec_reserve 0 (cv_capacity c) (length data)) [] =
       Some (Inr (z2, capacity, out))"
    "c' = c\<lparr>cv_stream := Some z2, cv_capacity := capacity,
       cv_dictionary := map_option (push_msg data) (cv_dictionary c)\<rparr>"
    using assms(3) Some
    by (auto simp: compress_def Let_def split: sum.splits option.splits prod.splits)
  have "0 < cv_increment c" and eq: "cv_dictionary e = cv_dictionary c" "cv_increment e = cv_increment c"
    using assms(2) by (simp_all add: in_step_def)
  moreover have "length data \<le> vec_reserve 0 (cv_capacity c) (length data)"
    "length out \<le> vec_reserve 0 (cv_capacity e) (2 * length out)"
    by (auto simp: vec_reserve_def)
  ultimately obtain y1 y2 capacity2 where extracted:
    "load_dictionary fl' (cv_dictionary e) (fl_reset fl' y) = Inr y1"
    "stream_loop fl' (cv_increment e) out y1 (vec_reserve 0 (cv_capacity e) (2 * length out)) [] =
       Some (Inr (y2, capacity2, data))"
    using assms(1) [unfolded lossless_def, rule_format, OF _ _ _ run(1,2),
        where y = y and capacity' = "vec_reserve 0 (cv_capacity e) (2 * length out)"] by auto
  then show ?thesis
    using y run(3) eq assms(2) by (auto simp: extract_data_def in_step_def)
qed

text \<open>Messages one after the other through one converter.\<close>

fun compress_all :: "'z Flate \<Rightarrow> bytes list \<Rightarrow> 'z Converter \<Rightarrow> ('z Converter \<times> bytes list) res option" where
  "compress_all fl [] c = Some (Inr (c, []))"
| "compress_all fl (m # ms) c =
     (case compress fl m c of
        None \<Rightarrow> None
      | Some (Inl e) \<Rightarrow> Some (Inl e)
      | Some (Inr (c', out)) \<Rightarrow>
          (case compress_all fl ms c' of
             None \<Rightarrow> None
           | Some (Inl e) \<Rightarrow> Some (Inl e)
           | Some (Inr (c'', outs)) \<Rightarrow> Some (Inr (c'', out # outs))))"

fun extract_all :: "'z Flate \<Rightarrow> bytes list \<Rightarrow> 'z Converter \<Rightarrow> ('z Converter \<times> bytes list) res option" where
  "extract_all fl [] c = Some (Inr (c, []))"
| "extract_all fl (m # ms) c =
     (case extract_data fl m c of
        None \<Rightarrow> None
      | Some (Inl e) \<Rightarrow> Some (Inl e)
      | Some (Inr (c', out)) \<Rightarrow>
          (case extract_all fl ms c' of
             None \<Rightarrow> None
           | Some (Inl e) \<Rightarrow> Some (Inl e)
           | Some (Inr (c'', outs)) \<Rightarrow> Some (Inr (c'', out # outs))))"

lemma compress_all_ConsD:
  assumes "compress_all fl (m # ms) c = Some (Inr (c', outs))"
  obtains c1 out outs' where "compress fl m c = Some (Inr (c1, out))"
    "compress_all fl ms c1 = Some (Inr (c', outs'))" "outs = out # outs'"
  using assms by (auto split: option.splits sum.splits prod.splits)

lemma compress_extract_all:
  "lossless fl fl' \<Longrightarrow> in_step c e \<Longrightarrow> compress_all fl msgs c = Some (Inr (c', outs)) \<Longrightarrow>
     \<exists>e'. extract_all fl' outs e = Some (Inr (e', msgs)) \<and> in_step c' e'"
proof (induction msgs arbitrary: c e outs)
  case Nil
  then show ?case by simp
next
  case (Cons m msgs)
  obtain c1 out outs' where c: "compress fl m c = Some (Inr (c1, out))"
    "compress_all fl msgs c1 = Some (Inr (c', outs'))" "outs = out # outs'"
    using compress_all_ConsD [OF Cons.prems(3)] .
  obtain e1 where e1: "extract_data fl' out e = Some (Inr (e1, m))" "in_step c1 e1"
    using compress_extract [OF Cons.prems(1,2) c(1)] by blast
  obtain e' where "extract_all fl' outs' e1 = Some (Inr (e', msgs))" "in_step c' e'"
    using Cons.IH [OF Cons.prems(1) e1(2) c(2)] by blast
  then show ?case using e1(1) c(3) by auto
qed

text \<open>
  A compressor and an extractor made from the same settings stay in step over any
  sequence of messages, with and without context takeover: what the one made of the messages the
  other turns back into them, in order and without an error.
\<close>

theorem messages_round_trip:
  assumes "converters fl fl' settings = Some (c, e)" and "lossless fl fl'"
    and "compress_all fl msgs c = Some (Inr (c', outs))"
  shows "\<exists>e'. extract_all fl' outs e = Some (Inr (e', msgs)) \<and> cv_dictionary e' = cv_dictionary c'"
  using compress_extract_all [OF assms(2) converters_in_step [OF assms(1)] assms(3)]
  by (auto simp: in_step_def)

lemma stored_loop:
  "0 < increment \<Longrightarrow> z \<le> length data \<Longrightarrow> z = 0 \<longrightarrow> data = [] \<or> length buf < capacity \<Longrightarrow>
     \<exists>z' capacity'. stream_loop stored increment data z capacity buf =
       Some (Inr (z', capacity', buf @ drop z data))"
proof (induction "2 * (length data - z) + (if capacity \<le> length buf then 1 else 0)"
    arbitrary: z capacity buf rule: less_induct)
  case less
  show ?case
  proof (cases "z = length data")
    case True
    then show ?thesis
      by (subst stream_loop.simps) (simp add: stored_def Let_def)
  next
    case False
    with less.prems have z: "z < length data" by simp
    define k where "k = min (length data - z) (capacity - length buf)"
    let ?buf = "buf @ take k (drop z data)"
    let ?c = "vec_reserve (length ?buf) capacity increment"
    have k: "z + k \<le> length data" using z by (simp add: k_def)
    have room: "length ?buf < ?c" by (rule vec_reserve_room [OF less.prems(1)])
    have fewer: "2 * (length data - (z + k)) + (if ?c \<le> length ?buf then 1 else 0) <
        2 * (length data - z) + (if capacity \<le> length buf then 1 else 0)"
      using z room by (auto simp: k_def min_def)
    have more: "\<not> (k = 0 \<and> z + k = 0)" using less.prems(3) z by (auto simp: k_def)
    have "fl_step stored (drop (fl_total_in stored z) data) (capacity - length buf)
        (if fl_total_in stored z < length data then NoFlush else Finish) z =
        Inr (if k = 0 then BufError else StatusOk, take k (drop z data), z + k)"
      using z by (simp add: stored_def Let_def k_def)
    from stream_loop_step [OF this, of increment] more
    have "stream_loop stored increment data z capacity buf = stream_loop stored increment data (z + k) ?c ?buf"
      by (simp add: stored_def split: if_splits)
    moreover have "\<exists>z' capacity'. stream_loop stored increment data (z + k) ?c ?buf =
       Some (Inr (z', capacity', ?buf @ drop (z + k) data))"
      by (rule less.hyps [OF fewer less.prems(1) k]) (rule impI, rule disjI2, rule room)
    moreover have "?buf @ drop (z + k) data = buf @ drop z data"
      by (metis append.assoc append_take_drop_id drop_drop add.commute)
    ultimately show ?thesis by simp
  qed
qed

lemma stored_lossless: "lossless stored stored"
  unfolding lossless_def
proof (intro allI impI)
  fix dictionary increment and data :: bytes and z z1 z2 capacity capacity1 out y capacity'
  assume h: "0 < increment" "length data \<le> capacity" "length out \<le> capacity'"
    "load_dictionary stored dictionary (fl_reset stored z) = Inr z1"
    "stream_loop stored increment data z1 capacity [] = Some (Inr (z2, capacity1, out))"
  have load: "load_dictionary stored dictionary (fl_reset stored u) = Inr 0" for u
    by (simp add: load_dictionary_def stored_def split: option.split)
  then have "z1 = 0" using h(4) by simp
  then have "out = data"
    using stored_loop [of increment 0 data "[]" capacity] h(1,2,5) by auto
  then show "\<exists>y1 y2 capacity2. load_dictionary stored dictionary (fl_reset stored y) = Inr y1 \<and>
      stream_loop stored increment out y1 capacity' [] = Some (Inr (y2, capacity2, data))"
    using load stored_loop [of increment 0 data "[]" capacity'] h(1,3) by auto
qed

lemma stored_compress:
  assumes "cv_stream c = Some z" and "0 < cv_increment c"
  shows "\<exists>c'. compress stored data c = Some (Inr (c', data)) \<and>
    cv_stream c' \<noteq> None \<and> cv_increment c' = cv_increment c"
proof -
  have "load_dictionary stored (cv_dictionary c) (fl_reset stored z) = Inr 0"
    by (simp add: load_dictionary_def stored_def split: option.split)
  moreover have "data = [] \<or> 0 < vec_reserve 0 (cv_capacity c) (length data)"
    by (cases data) (auto simp: vec_reserve_def)
  then have "\<exists>z' capacity'. stream_loop stored (cv_increment c) data 0
      (vec_reserve 0 (cv_capacity c) (length data)) [] = Some (Inr (z', capacity', data))"
    using stored_loop [of "cv_increment c" 0 data "[]"] assms(2) by auto
  ultimately show ?thesis using assms(1) by (auto simp: compress_def)
qed

lemma stored_compress_all:
  "cv_stream c \<noteq> None \<Longrightarrow> 0 < cv_increment c \<Longrightarrow>
     \<exists>c'. compress_all stored msgs c = Some (Inr (c', msgs))"
proof (induction msgs arbitrary: c)
  case (Cons m msgs)
  then obtain z where "cv_stream c = Some z" by auto
  from stored_compress [OF this Cons.prems(2), of m] obtain c1 where
    c1: "compress stored m c = Some (Inr (c1, m))" "cv_stream c1 \<noteq> None" "cv_increment c1 = cv_increment c"
    by blast
  from Cons.IH [of c1] c1 Cons.prems(2) show ?case by auto
qed simp

theorem messages_round_trip_witness:
  "\<exists>c e outs c' e'. converters stored stored (enable_with_window_bits 6 9 compression_new) = Some (c, e) \<and>
     compress_all stored [[1, 2], [], [3]] c = Some (Inr (c', outs)) \<and>
     extract_all stored outs e = Some (Inr (e', [[1, 2], [], [3]]))"
proof -
  let ?settings = "enable_with_window_bits 6 9 compression_new"
  obtain c e where ce: "converters stored stored ?settings = Some (c, e)"
    and c: "cv_stream c \<noteq> None" "0 < cv_increment c"
    by (simp add: converters_def converter_new_def enable_with_window_bits_def dictionary_new_def)
  obtain c' where "compress_all stored [[1, 2], [], [3]] c = Some (Inr (c', [[1, 2], [], [3]]))"
    using stored_compress_all [OF c] by blast
  with messages_round_trip [OF ce stored_lossless this] ce show ?thesis by blast
qed

end
