(* ===== verification/Byte_Path.thy ===== *)
theory Byte_Path
  imports Compression Framing Requests
begin

text \<open>
  The way of a message through the bytes: the write loop of a wire connection
  (\<open>wire/mod.rs\<close>), which encodes, compresses and writes, and the front of the read loop
  (\<open>wire/read_loop.rs\<close>), which extracts and decodes.  The protobuf encoding of \<open>prost\<close> is a
  parameter, \<open>encode\<close> and \<open>decode\<close>.
\<close>

section \<open>The write loop\<close>

record 'z WriteLoop =
  wl_compressor :: "'z Converter"
  wl_written :: "bytes list"

text \<open>
  One message: an encoding error skips it, a compression error and a failed write end the loop.
  The flag tells whether the loop goes on; \<open>None\<close> when the compression does not return.
\<close>

definition write_turn ::
  "(Message \<Rightarrow> bytes res) \<Rightarrow> 'z Flate \<Rightarrow> Message \<Rightarrow> bool \<Rightarrow> 'z WriteLoop \<Rightarrow> ('z WriteLoop \<times> bool) option" where
  "write_turn encode fl msg write_ok w =
     (case encode msg of
        Inl _ \<Rightarrow> Some (w, True)
      | Inr buf \<Rightarrow>
          (case compress fl buf (wl_compressor w) of
             None \<Rightarrow> None
           | Some (Inl _) \<Rightarrow> Some (w, False)
           | Some (Inr (c, out)) \<Rightarrow>
               Some (w\<lparr>wl_compressor := c,
                       wl_written := wl_written w @ (if write_ok then [out] else [])\<rparr>, write_ok)))"

text \<open>
  What the loop's \<open>select\<close> yields.  After the cancellation the messages already queued are still
  written: what follows \<open>CtCancelled\<close> is what \<open>try_recv\<close> finds.
\<close>

datatype WriteEvent = Got Message bool | QueueClosed | CtCancelled

fun drain_queue ::
  "(Message \<Rightarrow> bytes res) \<Rightarrow> 'z Flate \<Rightarrow> WriteEvent list \<Rightarrow> 'z WriteLoop \<Rightarrow> 'z WriteLoop option" where
  "drain_queue encode fl (Got msg write_ok # evs) w =
     (case write_turn encode fl msg write_ok w of
        None \<Rightarrow> None
      | Some (w', go_on) \<Rightarrow> if go_on then drain_queue encode fl evs w' else Some w')"
| "drain_queue encode fl _ w = Some w"

fun write_loop ::
  "(Message \<Rightarrow> bytes res) \<Rightarrow> 'z Flate \<Rightarrow> WriteEvent list \<Rightarrow> 'z WriteLoop \<Rightarrow> 'z WriteLoop option" where
  "write_loop encode fl [] w = Some w"
| "write_loop encode fl (Got msg write_ok # evs) w =
     (case write_turn encode fl msg write_ok w of
        None \<Rightarrow> None
      | Some (w', go_on) \<Rightarrow> if go_on then write_loop encode fl evs w' else Some w')"
| "write_loop encode fl (QueueClosed # evs) w = Some w"
| "write_loop encode fl (CtCancelled # evs) w = drain_queue encode fl evs w"

section \<open>The front of the read loop\<close>

definition read_turn ::
  "(bytes \<Rightarrow> Message res) \<Rightarrow> 'z Flate \<Rightarrow> bytes \<Rightarrow> 'z Converter \<Rightarrow> ('z Converter \<times> Message) res option" where
  "read_turn decode fl buf e =
     (case extract_data fl buf e of
        None \<Rightarrow> None
      | Some (Inl err) \<Rightarrow> Some (Inl err)
      | Some (Inr (e', data)) \<Rightarrow> Some (res_bind (decode data) (\<lambda>m. Inr (e', m))))"

fun read_turns ::
  "(bytes \<Rightarrow> Message res) \<Rightarrow> 'z Flate \<Rightarrow> bytes list \<Rightarrow> 'z Converter \<Rightarrow> Message list res option" where
  "read_turns decode fl [] e = Some (Inr [])"
| "read_turns decode fl (buf # bufs) e =
     (case read_turn decode fl buf e of
        None \<Rightarrow> None
      | Some (Inl err) \<Rightarrow> Some (Inl err)
      | Some (Inr (e', m)) \<Rightarrow>
          (case read_turns decode fl bufs e' of
             None \<Rightarrow> None
           | Some (Inl err) \<Rightarrow> Some (Inl err)
           | Some (Inr ms) \<Rightarrow> Some (Inr (m # ms))))"

section \<open>From one end to the other\<close>

text \<open>The messages the loop takes from its queue, if it is not ended by an error.\<close>

fun queue_drained :: "WriteEvent list \<Rightarrow> Message list" where
  "queue_drained (Got m _ # evs) = m # queue_drained evs"
| "queue_drained _ = []"

fun queued :: "WriteEvent list \<Rightarrow> Message list" where
  "queued [] = []"
| "queued (Got m _ # evs) = m # queued evs"
| "queued (QueueClosed # evs) = []"
| "queued (CtCancelled # evs) = queue_drained evs"

definition sendable :: "(Message \<Rightarrow> bytes res) \<Rightarrow> Message list \<Rightarrow> Message list" where
  "sendable encode msgs = filter (\<lambda>m. \<not> isl (encode m)) msgs"

definition encoded :: "(Message \<Rightarrow> bytes res) \<Rightarrow> Message list \<Rightarrow> bytes list" where
  "encoded encode msgs = map (\<lambda>m. projr (encode m)) (sendable encode msgs)"

lemma encoded_simps [simp]:
  "encoded encode [] = []"
  "encode m = Inl e \<Longrightarrow> encoded encode (m # ms) = encoded encode ms"
  "encode m = Inr b \<Longrightarrow> encoded encode (m # ms) = b # encoded encode ms"
  by (simp_all add: encoded_def sendable_def)

text \<open>
  What a run wrote: the first \<open>k\<close> of the frames \<open>bs\<close> compressed one after the other, and all of
  them when no write and no compression fails.
\<close>

definition compresses :: "'z Flate \<Rightarrow> bytes list \<Rightarrow> 'z Converter \<Rightarrow> bool" where
  "compresses fl bs c \<longleftrightarrow> (\<exists>r. compress_all fl bs c = Some (Inr r))"

lemma compresses_ConsD:
  "compresses fl (b # bs) c \<Longrightarrow> compress fl b c = Some (Inr (c', out)) \<Longrightarrow> compresses fl bs c'"
  by (auto simp: compresses_def split: option.splits sum.splits prod.splits)

definition wrote :: "'z Flate \<Rightarrow> bytes list \<Rightarrow> bool \<Rightarrow> 'z WriteLoop \<Rightarrow> 'z WriteLoop \<Rightarrow> bool" where
  "wrote fl bs writes_ok w w' \<longleftrightarrow>
     (\<exists>k c outs. compress_all fl (take k bs) (wl_compressor w) = Some (Inr (c, outs)) \<and>
        wl_written w' = wl_written w @ outs \<and>
        (writes_ok \<and> compresses fl bs (wl_compressor w) \<longrightarrow> length bs \<le> k))"

lemma wrote_nothing: "wrote fl [] ok w w"
  unfolding wrote_def by (intro exI [of _ 0]) simp

lemma wrote_more:
  assumes "compress fl b (wl_compressor w) = Some (Inr (c, out))"
    and "wrote fl bs ok (w\<lparr>wl_compressor := c, wl_written := wl_written w @ [out]\<rparr>) w'"
  shows "wrote fl (b # bs) ok w w'"
proof -
  obtain k c' outs where *: "compress_all fl (take k bs) c = Some (Inr (c', outs))"
    "wl_written w' = wl_written w @ out # outs"
    "ok \<and> compresses fl bs c \<longrightarrow> length bs \<le> k"
    using assms(2) by (auto simp: wrote_def)
  have "compresses fl (b # bs) (wl_compressor w) \<longrightarrow> compresses fl bs c"
    using compresses_ConsD assms(1) by blast
  then show ?thesis
    unfolding wrote_def using * assms(1)
    by (intro exI [of _ "Suc k"] exI [of _ c'] exI [of _ "out # outs"]) auto
qed

text \<open>One turn, and what follows it when the loop goes on.\<close>

lemma wrote_turn:
  assumes "write_turn encode fl m ok w = Some (w1, go_on)"
    and "go_on \<Longrightarrow> wrote fl (encoded encode ms) oks w1 w'"
    and "\<not> go_on \<Longrightarrow> w' = w1"
  shows "wrote fl (encoded encode (m # ms)) (ok \<and> oks) w w'"
proof (cases "encode m")
  case (Inl e)
  then have "wrote fl (encoded encode ms) oks w w'"
    using assms(1,2) by (simp add: write_turn_def)
  then show ?thesis using Inl by (fastforce simp: wrote_def)
next
  case m: (Inr b)
  show ?thesis
  proof (cases "compress fl b (wl_compressor w)")
    case None
    then show ?thesis using assms(1) m by (simp add: write_turn_def)
  next
    case (Some r)
    show ?thesis
    proof (cases r)
      case (Inl e)
      then have "w' = w" using assms(1,3) m Some by (simp add: write_turn_def)
      moreover have "\<not> compresses fl (b # encoded encode ms) (wl_compressor w)"
        using Inl Some by (simp add: compresses_def)
      ultimately show ?thesis
        using m by (auto simp: wrote_def intro!: exI [of _ 0])
    next
      case (Inr p)
      obtain c out where p: "p = (c, out)" by (cases p)
      show ?thesis
      proof (cases ok)
        case True
        then have "wrote fl (encoded encode ms) oks
            (w\<lparr>wl_compressor := c, wl_written := wl_written w @ [out]\<rparr>) w'"
          using assms(1,2) m Some Inr p by (simp add: write_turn_def)
        from wrote_more [OF _ this, of b] show ?thesis
          using m Some Inr p True by simp
      next
        case False
        then have "wl_written w' = wl_written w"
          using assms(1,3) m Some Inr p by (auto simp: write_turn_def)
        then show ?thesis
          using False by (auto simp: wrote_def intro!: exI [of _ 0])
      qed
    qed
  qed
qed

text \<open>No write of the run fails.\<close>

fun write_ok :: "WriteEvent \<Rightarrow> bool" where
  "write_ok (Got m ok) = ok"
| "write_ok _ = True"

lemma drain_queue_wrote:
  "drain_queue encode fl evs w = Some w' \<Longrightarrow>
     wrote fl (encoded encode (queue_drained evs)) (list_all write_ok evs) w w'"
proof (induction encode fl evs w rule: drain_queue.induct)
  case (1 encode fl m ok evs w)
  obtain w1 go_on where turn: "write_turn encode fl m ok w = Some (w1, go_on)"
    using "1.prems" by (auto split: option.splits)
  have "wrote fl (encoded encode (m # queue_drained evs)) (ok \<and> list_all write_ok evs) w w'"
    by (rule wrote_turn [OF turn]) (use "1.IH" [OF turn refl] "1.prems" turn in \<open>auto split: if_splits\<close>)
  then show ?case by simp
qed (simp_all add: wrote_nothing)

lemma write_loop_wrote:
  "write_loop encode fl evs w = Some w' \<Longrightarrow>
     wrote fl (encoded encode (queued evs)) (list_all write_ok evs) w w'"
proof (induction encode fl evs w rule: write_loop.induct)
  case (2 encode fl m ok evs w)
  obtain w1 go_on where turn: "write_turn encode fl m ok w = Some (w1, go_on)"
    using "2.prems" by (auto split: option.splits)
  have "wrote fl (encoded encode (m # queued evs)) (ok \<and> list_all write_ok evs) w w'"
    by (rule wrote_turn [OF turn]) (use "2.IH" [OF turn refl] "2.prems" turn in \<open>auto split: if_splits\<close>)
  then show ?case by simp
next
  case (4 encode fl evs w)
  then show ?case using drain_queue_wrote by simp
qed (simp_all add: wrote_nothing)

lemma compress_all_length: "compress_all fl bs c = Some (Inr (c', outs)) \<Longrightarrow> length outs = length bs"
proof (induction bs arbitrary: c outs)
  case (Cons b bs)
  from Cons.prems show ?case by (rule compress_all_ConsD) (use Cons.IH in auto)
qed simp

lemma read_turns_encoded:
  "lossless fl fl' \<Longrightarrow> (\<And>m b. encode m = Inr b \<Longrightarrow> decode b = Inr m) \<Longrightarrow> in_step c e \<Longrightarrow>
     compress_all fl (map (\<lambda>m. projr (encode m)) ms) c = Some (Inr (c', outs)) \<Longrightarrow>
     list_all (\<lambda>m. \<not> isl (encode m)) ms \<Longrightarrow>
     read_turns decode fl' outs e = Some (Inr ms)"
proof (induction ms arbitrary: c e outs)
  case Nil
  then show ?case by simp
next
  case (Cons m ms)
  then obtain b where b: "encode m = Inr b" by (cases "encode m") auto
  obtain c1 out outs' where c: "compress fl b c = Some (Inr (c1, out))"
    "compress_all fl (map (\<lambda>m. projr (encode m)) ms) c1 = Some (Inr (c', outs'))" "outs = out # outs'"
    using compress_all_ConsD [of fl b "map (\<lambda>m. projr (encode m)) ms" c c' outs] Cons.prems(4) b by auto
  obtain e1 where e1: "extract_data fl' out e = Some (Inr (e1, b))" "in_step c1 e1"
    using compress_extract [OF Cons.prems(1,3) c(1)] by blast
  have "read_turns decode fl' outs' e1 = Some (Inr ms)"
    using Cons.IH [OF Cons.prems(1,2) e1(2) c(2)] Cons.prems(5) by simp
  then show ?case using c(3) e1(1) Cons.prems(2) [OF b] by (simp add: read_turn_def)
qed

section \<open>Over any transport\<close>

text \<open>
  What the connection relies on in a reliable transport (the traits \<open>TransportWriter\<close> and
  \<open>TransportReader\<close> of \<open>transport/mod.rs\<close>): the messages written come out of the other end, as
  long as each of them fits.
\<close>

locale message_transport =
  fixes put :: "bytes list \<Rightarrow> 'w" and got :: "'w \<Rightarrow> bytes list" and fits :: "bytes \<Rightarrow> bool"
  assumes got_put: "list_all fits ms \<Longrightarrow> got (put ms) = ms"
begin

lemma path_round_trip:
  assumes "converters fl fl' settings = Some (c, e)" and "lossless fl fl'"
    and "\<And>m b. encode m = Inr b \<Longrightarrow> decode b = Inr m"
    and "write_loop encode fl evs \<lparr>wl_compressor = c, wl_written = []\<rparr> = Some w"
    and "list_all fits (wl_written w)"
  shows "\<exists>k. read_turns decode fl' (got (put (wl_written w))) e =
           Some (Inr (take k (sendable encode (queued evs)))) \<and>
         (list_all write_ok evs \<and> compresses fl (encoded encode (queued evs)) c \<longrightarrow>
            take k (sendable encode (queued evs)) = sendable encode (queued evs))"
proof -
  let ?ms = "sendable encode (queued evs)"
  obtain k c' where k: "compress_all fl (take k (encoded encode (queued evs))) c = Some (Inr (c', wl_written w))"
    "list_all write_ok evs \<and> compresses fl (encoded encode (queued evs)) c \<longrightarrow>
       length (encoded encode (queued evs)) \<le> k"
    using write_loop_wrote [OF assms(4)] by (auto simp: wrote_def)
  have "compress_all fl (map (\<lambda>m. projr (encode m)) (take k ?ms)) c = Some (Inr (c', wl_written w))"
    using k(1) by (simp add: encoded_def take_map)
  moreover have "list_all (\<lambda>m. \<not> isl (encode m)) (take k ?ms)"
    by (auto simp: list_all_iff sendable_def dest: in_set_takeD)
  ultimately have "read_turns decode fl' (wl_written w) e = Some (Inr (take k ?ms))"
    using read_turns_encoded [where encode = encode and decode = decode,
        OF assms(2) assms(3) converters_in_step [OF assms(1)]] by blast
  moreover have "got (put (wl_written w)) = wl_written w" using got_put [OF assms(5)] .
  moreover have "length (encoded encode (queued evs)) = length ?ms" by (simp add: encoded_def)
  ultimately show ?thesis using k(2) by (intro exI [of _ k]) auto
qed

end

text \<open>The QUIC and WebTransport streams are such a transport.\<close>

interpretation quic: message_transport "\<lambda>ms. wt_stream (write_messages ms writer_new)"
  "\<lambda>s. fst (read_recv_stream s)" "\<lambda>b. length b < 2 ^ 32"
proof
  fix ms :: "bytes list" assume ms: "list_all (\<lambda>b. length b < 2 ^ 32) ms"
  show "fst (read_recv_stream (wt_stream (write_messages ms writer_new))) = ms"
    using read_written [OF ms, of "[]"] ms
    by (simp add: write_messages_stream writer_new_def read_recv_stream_short)
qed

text \<open>
  C7: Messages put in the queue of the write loop come out of the read loop of the other
  side, through encoding, compression with or without context takeover, framing, extraction and
  decoding: in order, unchanged, and as a prefix when a write or the compression fails; all that
  can be encoded when none does, including those still queued when the connection is cancelled.
\<close>

theorem bytes_round_trip:
  assumes "converters fl fl' settings = Some (c, e)" and "lossless fl fl'"
    and "\<And>m b. encode m = Inr b \<Longrightarrow> decode b = Inr m"
    and "write_loop encode fl evs \<lparr>wl_compressor = c, wl_written = []\<rparr> = Some w"
    and "list_all (\<lambda>b. length b < 2 ^ 32) (wl_written w)"
  shows "\<exists>k. read_turns decode fl' (fst (read_recv_stream (wt_stream (write_messages (wl_written w) writer_new)))) e =
           Some (Inr (take k (sendable encode (queued evs)))) \<and>
         (list_all write_ok evs \<and> compresses fl (encoded encode (queued evs)) c \<longrightarrow>
            take k (sendable encode (queued evs)) = sendable encode (queued evs))"
  by (rule quic.path_round_trip [OF assms])

text \<open>A codec that knows two messages.\<close>

definition no_message :: Message where
  "no_message = \<lparr>msg_message = None\<rparr>"

definition a_ping :: Message where
  "a_ping = into_message (M_Ping \<lparr>ping_request_id = 2, ping_extension_fields = None\<rparr>)"

definition two_codes :: "Message \<Rightarrow> bytes res" where
  "two_codes m =
     (if m = no_message then Inr [7] else if m = a_ping then Inr [8] else Inl StreamClosed)"

definition two_decodes :: "bytes \<Rightarrow> Message res" where
  "two_decodes b =
     (if b = [7] then Inr no_message else if b = [8] then Inr a_ping else Inl StreamClosed)"

definition a_pong :: Message where
  "a_pong = into_message (M_Pong \<lparr>pong_request_id = 2, pong_extension_fields = None\<rparr>)"

definition some_writes :: "WriteEvent list" where
  "some_writes = [Got a_ping True, Got a_pong True, CtCancelled, Got no_message True]"

lemma distinct_messages [simp]:
  "no_message \<noteq> a_ping" "a_ping \<noteq> no_message" "a_pong \<noteq> no_message" "a_pong \<noteq> a_ping"
  by (simp_all add: no_message_def a_ping_def a_pong_def into_message_def)

lemma two_written:
  assumes "cv_stream c \<noteq> None" and "0 < cv_increment c"
  shows "\<exists>c2. write_loop two_codes stored some_writes \<lparr>wl_compressor = c, wl_written = []\<rparr> =
      Some \<lparr>wl_compressor = c2, wl_written = [[8], [7]]\<rparr> \<and> compresses stored [[8], [7]] c"
proof -
  obtain c1 where c1: "compress stored [8] c = Some (Inr (c1, [8]))" "cv_stream c1 \<noteq> None" "0 < cv_increment c1"
    using stored_compress [of c] assms by fastforce
  obtain c2 where c2: "compress stored [7] c1 = Some (Inr (c2, [7]))"
    using stored_compress [of c1] c1 by fastforce
  with c1(1) show ?thesis
    by (simp add: some_writes_def write_turn_def two_codes_def compresses_def)
qed

lemma two_messages:
  "sendable two_codes (queued some_writes) = [a_ping, no_message]"
  "encoded two_codes (queued some_writes) = [[8], [7]]"
  by (simp_all add: some_writes_def sendable_def encoded_def two_codes_def)

lemma two_codes_decode: "two_codes m = Inr b \<Longrightarrow> two_decodes b = Inr m"
  by (auto simp: two_codes_def two_decodes_def split: if_splits)

theorem bytes_round_trip_witness:
  "\<exists>c e w. converters stored stored (enable_with_window_bits 6 9 compression_new) = Some (c, e) \<and>
     write_loop two_codes stored some_writes \<lparr>wl_compressor = c, wl_written = []\<rparr> = Some w \<and>
     read_turns two_decodes stored
       (fst (read_recv_stream (wt_stream (write_messages (wl_written w) writer_new)))) e =
         Some (Inr [a_ping, no_message])"
proof -
  obtain c e where ce: "converters stored stored (enable_with_window_bits 6 9 compression_new) = Some (c, e)"
    and c: "cv_stream c \<noteq> None" "0 < cv_increment c"
    by (simp add: converters_def converter_new_def enable_with_window_bits_def dictionary_new_def)
  obtain c2 where loop: "write_loop two_codes stored some_writes \<lparr>wl_compressor = c, wl_written = []\<rparr> =
      Some \<lparr>wl_compressor = c2, wl_written = [[8], [7]]\<rparr>" (is "_ = Some ?w")
    and "compresses stored [[8], [7]] c"
    using two_written [OF c] by blast
  then have "list_all write_ok some_writes \<and>
      compresses stored (encoded two_codes (queued some_writes)) c"
    unfolding two_messages by (simp add: some_writes_def)
  with bytes_round_trip [where encode = two_codes and decode = two_decodes, OF ce stored_lossless two_codes_decode loop] two_messages(1)
  have "read_turns two_decodes stored
      (fst (read_recv_stream (wt_stream (write_messages (wl_written ?w) writer_new)))) e =
        Some (Inr [a_ping, no_message])"
    by fastforce
  with ce loop show ?thesis by blast
qed

end
