(* ===== verification/Builders.thy ===== *)
theory Builders
  imports Conn Upstream_Core
begin

text \<open>
  The builders of streams and connections (\<open>iscp/builder.rs\<close>, the setters of \<open>ConnBuilder\<close> in
  \<open>iscp/mod.rs\<close>): every setter is the \<open>put\<close> of a setting, whose laws the locale \<open>setting\<close>
  states once, and a call of a builder is one value of a datatype, so that a chain of calls is a
  list.  A callback is modelled by whether one is set.
\<close>

section \<open>Settings\<close>

locale setting =
  fixes get :: "'s \<Rightarrow> 'v" and put :: "'v \<Rightarrow> 's \<Rightarrow> 's"
  assumes get_put [simp]: "get (put v s) = v"
    and put_put [simp]: "put v (put w s) = put v s"
    and put_get [simp]: "put (get s) s = s"
begin

lemma fold_put: "fold put vs s = (if vs = [] then s else put (last vs) s)"
  by (induction vs arbitrary: s) auto

lemma get_fold_put: "get (fold put vs s) = last (get s # vs)"
  by (simp add: fold_put)

text \<open>A chain of calls, of which \<open>sel\<close> tells what each sets this setting to.\<close>

lemma chain:
  assumes "\<And>call s. get (app call s) = last (get s # sel call)"
  shows "get (fold app calls s) = last (get s # concat (map sel calls))"
  by (induction calls arbitrary: s) (simp_all add: assms)

end

section \<open>\<open>UpstreamBuilder\<close>\<close>

definition set_ack_interval :: "duration \<Rightarrow> UpstreamConfig \<Rightarrow> UpstreamConfig" where
  "set_ack_interval d c = c\<lparr>ucfg_ack_interval := d\<rparr>"

definition set_expiry_interval :: "duration \<Rightarrow> UpstreamConfig \<Rightarrow> UpstreamConfig" where
  "set_expiry_interval d c = c\<lparr>ucfg_expiry_interval := d\<rparr>"

definition set_data_ids :: "DataId list \<Rightarrow> UpstreamConfig \<Rightarrow> UpstreamConfig" where
  "set_data_ids ids c = c\<lparr>ucfg_data_ids := ids\<rparr>"

definition set_qos :: "QoS \<Rightarrow> UpstreamConfig \<Rightarrow> UpstreamConfig" where
  "set_qos q c = c\<lparr>ucfg_qos := q\<rparr>"

definition set_persist :: "bool \<Rightarrow> UpstreamConfig \<Rightarrow> UpstreamConfig" where
  "set_persist p c = c\<lparr>ucfg_persist := p\<rparr>"

definition set_flush_policy :: "FlushPolicy \<Rightarrow> UpstreamConfig \<Rightarrow> UpstreamConfig" where
  "set_flush_policy p c = c\<lparr>ucfg_flush_policy := p\<rparr>"

definition set_close_timeout :: "duration \<Rightarrow> UpstreamConfig \<Rightarrow> UpstreamConfig" where
  "set_close_timeout d c = c\<lparr>ucfg_close_timeout := d\<rparr>"

definition set_send_data_points_callback :: "bool \<Rightarrow> UpstreamConfig \<Rightarrow> UpstreamConfig" where
  "set_send_data_points_callback cb c = c\<lparr>ucfg_send_data_points_callback := cb\<rparr>"

definition set_receive_ack_callback :: "bool \<Rightarrow> UpstreamConfig \<Rightarrow> UpstreamConfig" where
  "set_receive_ack_callback cb c = c\<lparr>ucfg_receive_ack_callback := cb\<rparr>"

definition set_resumed_callback :: "bool \<Rightarrow> UpstreamConfig \<Rightarrow> UpstreamConfig" where
  "set_resumed_callback cb c = c\<lparr>ucfg_resumed_callback := cb\<rparr>"

definition upstream_builder :: "string \<Rightarrow> UpstreamConfig" where
  "upstream_builder session_id = upstream_config_default\<lparr>ucfg_session_id := session_id\<rparr>"

lemmas upstream_setters =
  set_ack_interval_def set_expiry_interval_def set_data_ids_def set_qos_def set_persist_def
  set_flush_policy_def set_close_timeout_def set_send_data_points_callback_def
  set_receive_ack_callback_def set_resumed_callback_def

interpretation u_ack: setting ucfg_ack_interval set_ack_interval
  by unfold_locales (simp_all add: upstream_setters)

interpretation u_expiry: setting ucfg_expiry_interval set_expiry_interval
  by unfold_locales (simp_all add: upstream_setters)

interpretation u_ids: setting ucfg_data_ids set_data_ids
  by unfold_locales (simp_all add: upstream_setters)

interpretation u_qos: setting ucfg_qos set_qos
  by unfold_locales (simp_all add: upstream_setters)

interpretation u_persist: setting ucfg_persist set_persist
  by unfold_locales (simp_all add: upstream_setters)

interpretation u_flush: setting ucfg_flush_policy set_flush_policy
  by unfold_locales (simp_all add: upstream_setters)

interpretation u_close: setting ucfg_close_timeout set_close_timeout
  by unfold_locales (simp_all add: upstream_setters)

datatype UpstreamCallOf =
  UAckInterval duration | UExpiryInterval duration | UDataIds "DataId list" | UQos QoS
| UPersist bool | UFlushPolicy FlushPolicy | UCloseTimeout duration | USendCallback bool
| UAckCallback bool | UResumedCallback bool

definition upstream_call :: "UpstreamCallOf \<Rightarrow> UpstreamConfig \<Rightarrow> UpstreamConfig" where
  "upstream_call call =
     (case call of
        UAckInterval d \<Rightarrow> set_ack_interval d
      | UExpiryInterval d \<Rightarrow> set_expiry_interval d
      | UDataIds ids \<Rightarrow> set_data_ids ids
      | UQos q \<Rightarrow> set_qos q
      | UPersist p \<Rightarrow> set_persist p
      | UFlushPolicy p \<Rightarrow> set_flush_policy p
      | UCloseTimeout d \<Rightarrow> set_close_timeout d
      | USendCallback cb \<Rightarrow> set_send_data_points_callback cb
      | UAckCallback cb \<Rightarrow> set_receive_ack_callback cb
      | UResumedCallback cb \<Rightarrow> set_resumed_callback cb)"

section \<open>\<open>DownstreamBuilder\<close>\<close>

definition dset_expiry_interval :: "duration \<Rightarrow> DownstreamConfig \<Rightarrow> DownstreamConfig" where
  "dset_expiry_interval d c = c\<lparr>dcfg_expiry_interval := d\<rparr>"

definition dset_data_ids :: "DataId list \<Rightarrow> DownstreamConfig \<Rightarrow> DownstreamConfig" where
  "dset_data_ids ids c = c\<lparr>dcfg_data_ids := ids\<rparr>"

definition dset_qos :: "QoS \<Rightarrow> DownstreamConfig \<Rightarrow> DownstreamConfig" where
  "dset_qos q c = c\<lparr>dcfg_qos := q\<rparr>"

definition dset_ack_interval :: "duration \<Rightarrow> DownstreamConfig \<Rightarrow> DownstreamConfig" where
  "dset_ack_interval d c = c\<lparr>dcfg_ack_interval := d\<rparr>"

definition dset_omit_empty_chunk :: "bool \<Rightarrow> DownstreamConfig \<Rightarrow> DownstreamConfig" where
  "dset_omit_empty_chunk b c = c\<lparr>dcfg_omit_empty_chunk := b\<rparr>"

definition dset_reordering :: "DownstreamReordering \<Rightarrow> DownstreamConfig \<Rightarrow> DownstreamConfig" where
  "dset_reordering r c = c\<lparr>dcfg_reordering := r\<rparr>"

definition dset_reordering_chunks :: "nat \<Rightarrow> DownstreamConfig \<Rightarrow> DownstreamConfig" where
  "dset_reordering_chunks n c = c\<lparr>dcfg_reordering_chunks := n\<rparr>"

definition downstream_builder :: "DownstreamFilter list \<Rightarrow> DownstreamConfig" where
  "downstream_builder filters = downstream_config_default\<lparr>dcfg_filters := filters\<rparr>"

lemmas downstream_setters =
  dset_expiry_interval_def dset_data_ids_def dset_qos_def dset_ack_interval_def
  dset_omit_empty_chunk_def dset_reordering_def dset_reordering_chunks_def

interpretation d_expiry: setting dcfg_expiry_interval dset_expiry_interval
  by unfold_locales (simp_all add: downstream_setters)

interpretation d_qos: setting dcfg_qos dset_qos
  by unfold_locales (simp_all add: downstream_setters)

interpretation d_chunks: setting dcfg_reordering_chunks dset_reordering_chunks
  by unfold_locales (simp_all add: downstream_setters)

interpretation d_ack: setting dcfg_ack_interval dset_ack_interval
  by unfold_locales (simp_all add: downstream_setters)

interpretation d_reordering: setting dcfg_reordering dset_reordering
  by unfold_locales (simp_all add: downstream_setters)

datatype DownstreamCallOf =
  DExpiryInterval duration | DDataIds "DataId list" | DQos QoS | DAckInterval duration
| DOmitEmptyChunk bool | DReordering DownstreamReordering | DReorderingChunks nat

definition downstream_call_of :: "DownstreamCallOf \<Rightarrow> DownstreamConfig \<Rightarrow> DownstreamConfig" where
  "downstream_call_of call =
     (case call of
        DExpiryInterval d \<Rightarrow> dset_expiry_interval d
      | DDataIds ids \<Rightarrow> dset_data_ids ids
      | DQos q \<Rightarrow> dset_qos q
      | DAckInterval d \<Rightarrow> dset_ack_interval d
      | DOmitEmptyChunk b \<Rightarrow> dset_omit_empty_chunk b
      | DReordering r \<Rightarrow> dset_reordering r
      | DReorderingChunks n \<Rightarrow> dset_reordering_chunks n)"

section \<open>\<open>ConnBuilder\<close>\<close>

definition cset_compression :: "Compression \<Rightarrow> ConnBuilder \<Rightarrow> ConnBuilder" where
  "cset_compression c b = b\<lparr>cb_compression := c\<rparr>"

definition cset_node_id :: "string \<Rightarrow> ConnBuilder \<Rightarrow> ConnBuilder" where
  "cset_node_id i b = b\<lparr>cb_node_id := i\<rparr>"

definition cset_project_uuid :: "Uuid option \<Rightarrow> ConnBuilder \<Rightarrow> ConnBuilder" where
  "cset_project_uuid u b = b\<lparr>cb_project_uuid := u\<rparr>"

definition cset_ping_interval :: "duration \<Rightarrow> ConnBuilder \<Rightarrow> ConnBuilder" where
  "cset_ping_interval d b = b\<lparr>cb_ping_interval := d\<rparr>"

definition cset_ping_timeout :: "duration \<Rightarrow> ConnBuilder \<Rightarrow> ConnBuilder" where
  "cset_ping_timeout d b = b\<lparr>cb_ping_timeout := d\<rparr>"

definition cset_response_message_timeout :: "duration \<Rightarrow> ConnBuilder \<Rightarrow> ConnBuilder" where
  "cset_response_message_timeout d b = b\<lparr>cb_response_message_timeout := d\<rparr>"

definition cset_e2e_call_reply_timeout :: "duration \<Rightarrow> ConnBuilder \<Rightarrow> ConnBuilder" where
  "cset_e2e_call_reply_timeout d b = b\<lparr>cb_e2e_call_reply_timeout := d\<rparr>"

definition cset_token_source :: "bool \<Rightarrow> ConnBuilder \<Rightarrow> ConnBuilder" where
  "cset_token_source t b = b\<lparr>cb_token_source := t\<rparr>"

lemmas conn_setters =
  cset_compression_def cset_node_id_def cset_project_uuid_def cset_ping_interval_def
  cset_ping_timeout_def cset_response_message_timeout_def cset_e2e_call_reply_timeout_def
  cset_token_source_def

interpretation c_compression: setting cb_compression cset_compression
  by unfold_locales (simp_all add: conn_setters)

interpretation c_ping_interval: setting cb_ping_interval cset_ping_interval
  by unfold_locales (simp_all add: conn_setters)

interpretation c_ping_timeout: setting cb_ping_timeout cset_ping_timeout
  by unfold_locales (simp_all add: conn_setters)

interpretation c_token: setting cb_token_source cset_token_source
  by unfold_locales (simp_all add: conn_setters)

section \<open>Chains of calls\<close>

lemma upstream_call_gets:
  "ucfg_session_id (upstream_call c s) = ucfg_session_id s"
  "ucfg_qos (upstream_call c s) = last (ucfg_qos s # (case c of UQos q \<Rightarrow> [q] | _ \<Rightarrow> []))"
  "ucfg_ack_interval (upstream_call c s) =
     last (ucfg_ack_interval s # (case c of UAckInterval d \<Rightarrow> [d] | _ \<Rightarrow> []))"
  "ucfg_flush_policy (upstream_call c s) =
     last (ucfg_flush_policy s # (case c of UFlushPolicy p \<Rightarrow> [p] | _ \<Rightarrow> []))"
  "ucfg_close_timeout (upstream_call c s) =
     last (ucfg_close_timeout s # (case c of UCloseTimeout d \<Rightarrow> [d] | _ \<Rightarrow> []))"
  by (cases c; simp add: upstream_call_def upstream_setters)+

lemma downstream_call_gets:
  "dcfg_filters (downstream_call_of c s) = dcfg_filters s"
  "dcfg_reordering (downstream_call_of c s) =
     last (dcfg_reordering s # (case c of DReordering r \<Rightarrow> [r] | _ \<Rightarrow> []))"
  "dcfg_reordering_chunks (downstream_call_of c s) =
     last (dcfg_reordering_chunks s # (case c of DReorderingChunks n \<Rightarrow> [n] | _ \<Rightarrow> []))"
  "dcfg_ack_interval (downstream_call_of c s) =
     last (dcfg_ack_interval s # (case c of DAckInterval d \<Rightarrow> [d] | _ \<Rightarrow> []))"
  by (cases c; simp add: downstream_call_of_def downstream_setters)+

lemma fold_keeps: "(\<And>c s. f (g c s) = f s) \<Longrightarrow> f (fold g cs s) = f s"
  by (induction cs arbitrary: s) auto

lemma builder_starts:
  "ucfg_session_id (upstream_builder session) = session" "ucfg_qos (upstream_builder session) = Unreliable"
  "ucfg_ack_interval (upstream_builder session) = millis 100"
  "ucfg_flush_policy (upstream_builder session) = flush_policy_default"
  "ucfg_close_timeout (upstream_builder session) = secs 10"
  "dcfg_filters (downstream_builder filters) = filters"
  "dcfg_reordering (downstream_builder filters) = ReorderNone"
  "dcfg_reordering_chunks (downstream_builder filters) = 255"
  "dcfg_ack_interval (downstream_builder filters) = millis 100"
  by (simp_all add: upstream_builder_def upstream_config_default_def downstream_builder_def
      downstream_config_default_def)

text \<open>
  A chain of builder calls configures a stream field by field: each field has the
  value of the last call for it, or what the builder started with, whatever calls for other
  fields stand between; the session id and the filters are those the builder was made with.
\<close>

theorem builder_last_call_wins:
  "ucfg_session_id (fold upstream_call calls (upstream_builder session)) = session"
  "ucfg_qos (fold upstream_call calls (upstream_builder session)) =
     last (Unreliable # [q. UQos q \<leftarrow> calls])"
  "ucfg_ack_interval (fold upstream_call calls (upstream_builder session)) =
     last (millis 100 # [d. UAckInterval d \<leftarrow> calls])"
  "ucfg_flush_policy (fold upstream_call calls (upstream_builder session)) =
     last (flush_policy_default # [p. UFlushPolicy p \<leftarrow> calls])"
  "ucfg_close_timeout (fold upstream_call calls (upstream_builder session)) =
     last (secs 10 # [d. UCloseTimeout d \<leftarrow> calls])"
  "dcfg_filters (fold downstream_call_of dcalls (downstream_builder filters)) = filters"
  "dcfg_reordering (fold downstream_call_of dcalls (downstream_builder filters)) =
     last (ReorderNone # [r. DReordering r \<leftarrow> dcalls])"
  "dcfg_reordering_chunks (fold downstream_call_of dcalls (downstream_builder filters)) =
     last (255 # [n. DReorderingChunks n \<leftarrow> dcalls])"
  "dcfg_ack_interval (fold downstream_call_of dcalls (downstream_builder filters)) =
     last (millis 100 # [d. DAckInterval d \<leftarrow> dcalls])"
  using fold_keeps [of ucfg_session_id upstream_call, OF upstream_call_gets(1)]
    u_qos.chain [of upstream_call, OF upstream_call_gets(2)] u_ack.chain [of upstream_call, OF upstream_call_gets(3)]
    u_flush.chain [of upstream_call, OF upstream_call_gets(4)] u_close.chain [of upstream_call, OF upstream_call_gets(5)]
    fold_keeps [of dcfg_filters downstream_call_of, OF downstream_call_gets(1)]
    d_reordering.chain [of downstream_call_of, OF downstream_call_gets(2)] d_chunks.chain [of downstream_call_of, OF downstream_call_gets(3)]
    d_ack.chain [of downstream_call_of, OF downstream_call_gets(4)]
  by (simp_all only: builder_starts)

end
