(* ===== verification/Subscriptions.thy ===== *)
theory Subscriptions
  imports Wire
begin

text \<open>
  Registering with the read loops (\<open>add_upstream\<close>, \<open>add_downstream\<close>, \<open>subscribe_call_ack\<close> in
  \<open>wire/mod.rs\<close>, \<open>SendCommandGuard\<close> in \<open>wire/read_loop.rs\<close>): a registration sends a command to a
  loop and returns a guard that sends the opposite command when it is dropped.  A command is sent to
  the queue of the reliable loop or of the unreliable one; a queue whose loop has ended is closed.
\<close>

section \<open>The operations\<close>

type_synonym Sends = "(bool \<times> ReadLoopCommand) list"

text \<open>A guard: the queue and the command it will send.  A send to a closed queue is lost.\<close>

datatype SendCommandGuard = SendCommandGuard bool ReadLoopCommand

record Queues =
  qs_open :: bool
  qs_unreliable_open :: "bool option"

definition send_command :: "Queues \<Rightarrow> bool \<Rightarrow> ReadLoopCommand \<Rightarrow> Sends \<times> unit res" where
  "send_command q unreliable command =
     (if (if unreliable then qs_unreliable_open q = Some True else qs_open q)
      then ([(unreliable, command)], Inr ()) else ([], Inl ConnectionClosed))"

definition guard_drop :: "Queues \<Rightarrow> SendCommandGuard \<Rightarrow> Sends" where
  "guard_drop q g = (case g of SendCommandGuard unreliable command \<Rightarrow> fst (send_command q unreliable command))"

definition add_upstream :: "Queues \<Rightarrow> u32 \<Rightarrow> nat \<Rightarrow> Sends \<times> SendCommandGuard list res" where
  "add_upstream q stream_id_alias tx =
     (case send_command q False (AddUpstream stream_id_alias tx) of
        (sends, Inl e) \<Rightarrow> (sends, Inl e)
      | (sends, Inr _) \<Rightarrow> (sends, Inr [SendCommandGuard False (RemoveUpstream stream_id_alias)]))"

text \<open>
  A downstream registers with the unreliable loop first, when it is unreliable and there is one;
  when the registration with the reliable loop then fails, the guard of the first is dropped.
\<close>

definition add_downstream :: "Queues \<Rightarrow> u32 \<Rightarrow> bool \<Rightarrow> nat \<Rightarrow> Sends \<times> SendCommandGuard list res" where
  "add_downstream q stream_id_alias unreliable tx =
     (let unreliable_guard = SendCommandGuard True (RemoveDownstream stream_id_alias) in
      case (if unreliable \<and> qs_unreliable_open q \<noteq> None
            then (case send_command q True (AddDownstream stream_id_alias tx) of
                    (sends, Inl e) \<Rightarrow> (sends, Inl e)
                  | (sends, Inr _) \<Rightarrow> (sends, Inr [unreliable_guard]))
            else ([], Inr [])) of
        (sends, Inl e) \<Rightarrow> (sends, Inl e)
      | (sends, Inr guards) \<Rightarrow>
          (case send_command q False (AddDownstream stream_id_alias tx) of
             (sends', Inl e) \<Rightarrow> (sends @ sends' @ concat (map (guard_drop q) guards), Inl e)
           | (sends', Inr _) \<Rightarrow>
               (sends @ sends',
                Inr (SendCommandGuard False (RemoveDownstream stream_id_alias) # guards))))"

definition subscribe_call_ack :: "Queues \<Rightarrow> string \<Rightarrow> nat \<Rightarrow> Sends \<times> SendCommandGuard list res" where
  "subscribe_call_ack q call_id tx =
     (case send_command q False (SubscribeCallAck call_id tx) of
        (sends, Inl e) \<Rightarrow> (sends, Inl e)
      | (sends, Inr _) \<Rightarrow> (sends, Inr [SendCommandGuard False (RemoveCallAck call_id)]))"

section \<open>Registrations and their ends\<close>

datatype Registration = RegUpstream u32 nat | RegDownstream u32 bool nat | RegCallAck string nat

definition register :: "Queues \<Rightarrow> Registration \<Rightarrow> Sends \<times> SendCommandGuard list res" where
  "register q r =
     (case r of
        RegUpstream a tx \<Rightarrow> add_upstream q a tx
      | RegDownstream a u tx \<Rightarrow> add_downstream q a u tx
      | RegCallAck i tx \<Rightarrow> subscribe_call_ack q i tx)"

text \<open>The commands of one loop's queue.\<close>

definition commands_of :: "bool \<Rightarrow> Sends \<Rightarrow> ReadLoopCommand list" where
  "commands_of u sends = map snd (filter (\<lambda>s. fst s = u) sends)"

lemma commands_of_append [simp]: "commands_of u (xs @ ys) = commands_of u xs @ commands_of u ys"
  by (simp add: commands_of_def)

text \<open>Under which key a command changes the channels.\<close>

datatype ChannelKey = KeyUpstream u32 | KeyDownstream u32 | KeyCall string

fun command_key :: "ReadLoopCommand \<Rightarrow> ChannelKey" where
  "command_key (AddUpstream a _) = KeyUpstream a"
| "command_key (RemoveUpstream a) = KeyUpstream a"
| "command_key (AddDownstream a _) = KeyDownstream a"
| "command_key (RemoveDownstream a) = KeyDownstream a"
| "command_key (SubscribeCallAck i _) = KeyCall i"
| "command_key (RemoveCallAck i) = KeyCall i"

fun command_channel :: "ReadLoopCommand \<Rightarrow> nat option" where
  "command_channel (AddUpstream _ tx) = Some tx"
| "command_channel (AddDownstream _ tx) = Some tx"
| "command_channel (SubscribeCallAck _ tx) = Some tx"
| "command_channel _ = None"

fun channel_at :: "ReadLoopChannels \<Rightarrow> ChannelKey \<Rightarrow> nat option" where
  "channel_at ch (KeyUpstream a) = map_of (rc_upstream_chunk_ack ch) a"
| "channel_at ch (KeyDownstream a) = map_of (rc_downstream_msg ch) a"
| "channel_at ch (KeyCall i) = map_of (rc_call_ack ch) i"

lemma channel_at_command:
  "channel_at (process_command c ch) k = (if k = command_key c then command_channel c else channel_at ch k)"
  by (cases c; cases k) auto

lemma channel_at_commands_other:
  "k \<notin> command_key ` set cs \<Longrightarrow> channel_at (fold process_command cs ch) k = channel_at ch k"
  by (induction cs arbitrary: ch) (auto simp: channel_at_command)

lemma channel_at_default [simp]: "channel_at channels_default k = None"
  by (cases k) (simp_all add: channels_default_def)

section \<open>What the loops hold after a history of registrations and drops\<close>

definition queue_open :: "bool \<Rightarrow> Queues \<Rightarrow> bool" where
  "queue_open u q = (if u then qs_unreliable_open q = Some True else qs_open q)"

fun reg_key :: "Registration \<Rightarrow> ChannelKey" where
  "reg_key (RegUpstream a _) = KeyUpstream a"
| "reg_key (RegDownstream a _ _) = KeyDownstream a"
| "reg_key (RegCallAck i _) = KeyCall i"

fun reg_channel :: "Registration \<Rightarrow> nat" where
  "reg_channel (RegUpstream _ tx) = tx"
| "reg_channel (RegDownstream _ _ tx) = tx"
| "reg_channel (RegCallAck _ tx) = tx"

text \<open>Whether the loop \<open>u\<close> serves a registration: the unreliable one only unreliable downstreams.\<close>

fun serves :: "bool \<Rightarrow> Registration \<Rightarrow> bool" where
  "serves u (RegDownstream _ unreliable _) = (\<not> u \<or> unreliable)"
| "serves u _ = (\<not> u)"

fun remove_command :: "Registration \<Rightarrow> ReadLoopCommand" where
  "remove_command (RegUpstream a _) = RemoveUpstream a"
| "remove_command (RegDownstream a _ _) = RemoveDownstream a"
| "remove_command (RegCallAck i _) = RemoveCallAck i"

type_synonym Live = "(Registration \<times> SendCommandGuard list) list"

datatype SubEvent = Subscribe Registration | Release ChannelKey

fun sub_step :: "Queues \<times> SubEvent \<Rightarrow> Sends \<times> Live \<Rightarrow> Sends \<times> Live" where
  "sub_step (q, Subscribe r) (sends, live) =
     (case register q r of
        (s, Inl e) \<Rightarrow> (sends @ s, live)
      | (s, Inr gs) \<Rightarrow> (sends @ s, (r, gs) # live))"
| "sub_step (q, Release k) (sends, live) =
     (sends @ concat (map (guard_drop q) (concat (map snd (filter (\<lambda>x. reg_key (fst x) = k) live)))),
      filter (\<lambda>x. reg_key (fst x) \<noteq> k) live)"

text \<open>Every registration is under a key that no live one has.\<close>

fun fresh_history :: "Sends \<times> Live \<Rightarrow> (Queues \<times> SubEvent) list \<Rightarrow> bool" where
  "fresh_history st [] = True"
| "fresh_history st ((q, e) # evs) =
     ((case e of Subscribe r \<Rightarrow> reg_key r \<notin> (reg_key \<circ> fst) ` set (snd st) | Release k \<Rightarrow> True) \<and>
      fresh_history (sub_step (q, e) st) evs)"

definition live_channels :: "bool \<Rightarrow> Live \<Rightarrow> (ChannelKey \<times> nat) list" where
  "live_channels u live = map (\<lambda>x. (reg_key (fst x), reg_channel (fst x))) (filter (\<lambda>x. serves u (fst x)) live)"

text \<open>The guards a live registration holds for the loop \<open>u\<close>.\<close>

definition guards_of :: "bool \<Rightarrow> SendCommandGuard list \<Rightarrow> SendCommandGuard list" where
  "guards_of u gs = filter (\<lambda>g. case g of SendCommandGuard v _ \<Rightarrow> v = u) gs"

definition sub_inv :: "bool \<Rightarrow> Sends \<times> Live \<Rightarrow> bool" where
  "sub_inv u st \<longleftrightarrow>
     channel_at (fold process_command (commands_of u (fst st)) channels_default) =
       map_of (live_channels u (snd st)) \<and>
     distinct (map (reg_key \<circ> fst) (snd st)) \<and>
     (\<forall>x\<in>set (snd st). guards_of u (snd x) =
        (if serves u (fst x) then [SendCommandGuard u (remove_command (fst x))] else []))"

lemma command_of_registration [simp]:
  "command_key (remove_command r) = reg_key r" "command_channel (remove_command r) = None"
  by (cases r; simp)+

lemma channel_at_command_fun:
  "channel_at (process_command c ch) = (channel_at ch)(command_key c := command_channel c)"
  by (rule ext) (simp add: channel_at_command)

lemma guards_of_simps [simp]:
  "guards_of u [] = []"
  "guards_of u (SendCommandGuard v c # gs) = (if v = u then SendCommandGuard v c # guards_of u gs else guards_of u gs)"
  by (simp_all add: guards_of_def)

lemma commands_of_simps [simp]:
  "commands_of u [] = []"
  "commands_of u ((v, c) # s) = (if v = u then c # commands_of u s else commands_of u s)"
  by (simp_all add: commands_of_def)

text \<open>A registration that succeeds sends one command to each loop that serves it.\<close>

lemma register_ok:
  assumes "register q r = (s, Inr gs)" and "queue_open u q"
  shows "\<exists>cs. commands_of u s = cs \<and> (if serves u r then \<exists>c. cs = [c] \<and> command_key c = reg_key r \<and>
           command_channel c = Some (reg_channel r) else cs = [])"
    and "guards_of u gs = (if serves u r then [SendCommandGuard u (remove_command r)] else [])"
  using assms
  by (cases r; auto simp: register_def add_upstream_def add_downstream_def subscribe_call_ack_def
        send_command_def queue_open_def Let_def split: if_splits)+

text \<open>A registration that fails leaves no channel behind.\<close>

lemma register_error:
  assumes "register q r = (s, Inl e)" and "queue_open u q" and "channel_at ch (reg_key r) = None"
  shows "channel_at (fold process_command (commands_of u s) ch) = channel_at ch"
  using assms
  by (cases r) (auto simp: register_def add_upstream_def add_downstream_def subscribe_call_ack_def
        send_command_def guard_drop_def queue_open_def Let_def channel_at_command_fun fun_eq_iff
        simp del: process_command.simps split: if_splits)

lemma guard_drops:
  "queue_open u q \<Longrightarrow> commands_of u (concat (map (guard_drop q) gs)) =
     map (\<lambda>g. case g of SendCommandGuard _ c \<Rightarrow> c) (guards_of u gs)"
  by (induction gs)
     (auto simp: guard_drop_def send_command_def queue_open_def split: SendCommandGuard.splits)

lemma guards_of_append [simp]: "guards_of u (xs @ ys) = guards_of u xs @ guards_of u ys"
  by (simp add: guards_of_def)

lemma live_channels_none:
  "k \<notin> (reg_key \<circ> fst) ` set live \<Longrightarrow> map_of (live_channels u live) k = None"
  by (induction live) (auto simp: live_channels_def)

lemma live_channels_filter:
  "map_of (live_channels u (filter (\<lambda>x. reg_key (fst x) \<noteq> k) live)) = (map_of (live_channels u live))(k := None)"
  by (induction live) (auto simp: live_channels_def fun_eq_iff)

text \<open>Of distinct keys at most one is released.\<close>

lemma filter_key_distinct:
  "distinct (map (reg_key \<circ> fst) live) \<Longrightarrow>
     filter (\<lambda>x. reg_key (fst x) = k) live = [] \<or> (\<exists>x\<in>set live. reg_key (fst x) = k \<and>
       filter (\<lambda>x. reg_key (fst x) = k) live = [x])"
proof (induction live)
  case (Cons y live)
  show ?case
  proof (cases "reg_key (fst y) = k")
    case True
    with Cons.prems have "k \<notin> (reg_key \<circ> fst) ` set live" by simp
    then have "filter (\<lambda>x. reg_key (fst x) = k) live = []"
      by (auto simp: filter_empty_conv)
    with True show ?thesis by simp
  next
    case False
    with Cons show ?thesis by auto
  qed
qed simp

lemma sub_inv_subscribe:
  assumes "sub_inv u (sends, live)" and "queue_open u q" and "reg_key r \<notin> (reg_key \<circ> fst) ` set live"
  shows "sub_inv u (sub_step (q, Subscribe r) (sends, live))"
proof (cases "register q r")
  case (Pair s res)
  show ?thesis
  proof (cases res)
    case (Inl e)
    have "channel_at (fold process_command (commands_of u sends) channels_default) (reg_key r) = None"
      using assms live_channels_none by (simp add: sub_inv_def)
    from register_error[OF _ assms(2) this] Pair Inl
    show ?thesis using assms(1) by (simp add: sub_inv_def)
  next
    case (Inr gs)
    note reg = Pair[unfolded Inr]
    note ok = register_ok[OF reg assms(2)]
    show ?thesis
    proof (cases "serves u r")
      case True
      with ok(1) obtain c where "commands_of u s = [c]" "command_key c = reg_key r"
        "command_channel c = Some (reg_channel r)" by auto
      then show ?thesis
        using assms(1,3) reg ok(2) True by (auto simp: sub_inv_def live_channels_def channel_at_command_fun)
    next
      case False
      then show ?thesis
        using assms(1,3) reg ok by (auto simp: sub_inv_def live_channels_def)
    qed
  qed
qed

lemma sub_inv_release:
  assumes "sub_inv u (sends, live)" and "queue_open u q"
  shows "sub_inv u (sub_step (q, Release k) (sends, live))"
proof -
  define gone where "gone = filter (\<lambda>x. reg_key (fst x) = k) live"
  have inv: "channel_at (fold process_command (commands_of u sends) channels_default) = map_of (live_channels u live)"
    "distinct (map (reg_key \<circ> fst) live)"
    "\<And>x. x \<in> set live \<Longrightarrow> guards_of u (snd x) = (if serves u (fst x) then [SendCommandGuard u (remove_command (fst x))] else [])"
    using assms(1) by (auto simp: sub_inv_def)
  have "gone = [] \<or> (\<exists>x\<in>set live. reg_key (fst x) = k \<and> gone = [x])"
    using filter_key_distinct[OF inv(2)] by (simp add: gone_def)
  then have "channel_at (fold process_command (commands_of u (sends @ concat (map (guard_drop q) (concat (map snd gone))))) channels_default) =
      (map_of (live_channels u live))(k := None)"
  proof (elim disjE bexE conjE)
    assume "gone = []"
    then have "k \<notin> (reg_key \<circ> fst) ` set live" by (auto simp: gone_def filter_empty_conv)
    then show ?thesis using \<open>gone = []\<close> inv(1) live_channels_none[of k live u] by (auto simp: fun_eq_iff)
  next
    fix x assume x: "x \<in> set live" "reg_key (fst x) = k" "gone = [x]"
    then show ?thesis
    proof (cases "serves u (fst x)")
      case True
      then show ?thesis using x inv(1) inv(3)[OF x(1)] guard_drops[OF assms(2)]
        by (simp add: channel_at_command_fun)
    next
      case False
      moreover have "map_of (live_channels u live) k = None"
      proof -
        have "\<And>y. y \<in> set live \<Longrightarrow> reg_key (fst y) = k \<Longrightarrow> y = x"
          using inv(2) x(1,2) by (auto simp: distinct_map inj_on_def)
        with False show ?thesis by (force simp: live_channels_def map_of_eq_None_iff)
      qed
      ultimately show ?thesis using x inv(1) inv(3)[OF x(1)] guard_drops[OF assms(2)]
        by (auto simp: fun_eq_iff)
    qed
  qed
  moreover have "distinct (map (reg_key \<circ> fst) (filter (\<lambda>x. reg_key (fst x) \<noteq> k) live))"
    using inv(2) by (simp add: distinct_map_filter)
  ultimately show ?thesis
    using inv(3) by (simp add: sub_inv_def live_channels_filter gone_def)
qed

lemma sub_inv_run:
  "sub_inv u st \<Longrightarrow> \<forall>(q, e)\<in>set evs. queue_open u q \<Longrightarrow> fresh_history st evs \<Longrightarrow> sub_inv u (fold sub_step evs st)"
proof (induction evs arbitrary: st)
  case (Cons ev evs)
  obtain q e where ev: "ev = (q, e)" by (cases ev)
  obtain sends live where st: "st = (sends, live)" by (cases st)
  have "sub_inv u (sub_step ev st)"
    using Cons.prems sub_inv_subscribe sub_inv_release
    by (cases e) (auto simp: ev st simp del: sub_step.simps)
  then show ?case using Cons.prems Cons.IH[of "sub_step ev st"] by (simp add: ev)
qed simp

section \<open>Properties\<close>

text \<open>
  C21: the channels a read loop holds are those of the live registrations that it serves, whatever
  the history of registrations and dropped guards was, as long as the loop runs and no key is
  registered while it is live.  A registration that fails half way (the unreliable loop accepts a
  downstream and the reliable loop has ended) and a registration whose guards were dropped leave no
  channel behind.
\<close>

theorem channels_follow_guards:
  assumes "\<forall>(q, e)\<in>set evs. queue_open u q" and "fresh_history ([], []) evs"
  shows "channel_at (fold process_command (commands_of u (fst (fold sub_step evs ([], [])))) channels_default) k =
           map_of (live_channels u (snd (fold sub_step evs ([], [])))) k"
proof -
  have "sub_inv u ([], [])" by (simp add: sub_inv_def live_channels_def fun_eq_iff)
  then have "sub_inv u (fold sub_step evs ([], []))" using sub_inv_run assms by blast
  then show ?thesis by (simp add: sub_inv_def)
qed

text \<open>The unreliable loop after a downstream that failed, one that was closed and one that lives.\<close>

definition sub_history :: "(Queues \<times> SubEvent) list" where
  "sub_history =
     (let q = \<lparr>qs_open = True, qs_unreliable_open = Some True\<rparr>;
          q' = \<lparr>qs_open = False, qs_unreliable_open = Some True\<rparr> in
      [(q, Subscribe (RegDownstream 1 True 10)), (q, Subscribe (RegDownstream 2 True 20)),
       (q, Release (KeyDownstream 1)), (q', Subscribe (RegDownstream 3 True 30))])"

theorem channels_follow_guards_witness:
  "channel_at (fold process_command (commands_of True (fst (fold sub_step sub_history ([], [])))) channels_default) (KeyDownstream 2) = Some 20 \<and>
   channel_at (fold process_command (commands_of True (fst (fold sub_step sub_history ([], [])))) channels_default) (KeyDownstream 3) = None"
proof -
  have "\<forall>(q, e)\<in>set sub_history. queue_open True q" by (simp add: sub_history_def queue_open_def Let_def)
  moreover have "fresh_history ([], []) sub_history" by code_simp
  ultimately have "channel_at (fold process_command (commands_of True (fst (fold sub_step sub_history ([], [])))) channels_default) k =
      map_of (live_channels True (snd (fold sub_step sub_history ([], [])))) k" for k
    by (rule channels_follow_guards)
  moreover have "live_channels True (snd (fold sub_step sub_history ([], []))) = [(KeyDownstream 2, 20)]" by code_simp
  ultimately show ?thesis by (simp del: channel_at.simps)
qed

text \<open>
  A key registered again while its first guard lives loses its channel with the first guard.
\<close>

lemma registered_twice_lost:
  assumes "qs_open q"
  shows "channel_at (fold process_command
      (commands_of False (fst (add_upstream q a 1) @ fst (add_upstream q a 2) @
         guard_drop q (SendCommandGuard False (RemoveUpstream a)))) channels_default) (KeyUpstream a) = None"
  using assms by (simp add: add_upstream_def guard_drop_def send_command_def)

end
