(* ===== verification/Wire_Tasks.thy ===== *)
theory Wire_Tasks
  imports Prelude
begin

text \<open>
  The life of the tasks of a wire connection (\<open>Conn::new\<close>, \<open>Conn::close\<close> and \<open>close_task\<close> in
  \<open>wire/mod.rs\<close>, the wait groups of \<open>internal.rs\<close>): which task ends what, and in which order.
  What the loops do while they run is in the theories of the read and write loops.
\<close>

section \<open>The tasks and their state\<close>

datatype Task = Reader | UnreliableReader | Writer | Closer | UnreliableWriter | PingLoop

text \<open>
  \<open>Looping\<close>: in its loop (the closer: waiting for the cancellation).  \<open>Exited\<close>: out of the loop,
  its half of the transport not closed yet (the closer: waiting for the other tasks).
  \<open>Ended\<close>: finished, with its clones of the wait groups dropped.
\<close>

datatype Phase = Looping | Exited | Ended

datatype TaskOut = HalfClosed Task | TransportClosed | UnreliableWritten | CloseReturned nat | ClosedAlready nat

record Tasks =
  tk_cancelled :: bool
  tk_phase :: "Task \<Rightarrow> Phase"
  tk_closing :: "nat list"
  tk_log :: "TaskOut list"

text \<open>The tasks of an unreliable half exist only where the transport has that half.\<close>

definition tasks_new :: "bool \<Rightarrow> bool \<Rightarrow> Tasks" where
  "tasks_new unreliable_reader unreliable_writer =
     \<lparr>tk_cancelled = False,
      tk_phase = (\<lambda>t. if t = UnreliableReader \<and> \<not> unreliable_reader \<or>
                         t = UnreliableWriter \<and> \<not> unreliable_writer then Ended else Looping),
      tk_closing = [], tk_log = []\<rparr>"

text \<open>
  A \<open>Waiter\<close> returns when the last \<open>WaitGroup\<close> clone has been dropped: \<open>waiter_rw\<close> is held by the
  reliable reader and writer and by the unreliable reader, \<open>waiter\<close> by the closer, the unreliable
  writer and the ping loop.
\<close>

definition waiter_rw_done :: "Tasks \<Rightarrow> bool" where
  "waiter_rw_done s \<longleftrightarrow> tk_phase s Reader = Ended \<and> tk_phase s UnreliableReader = Ended \<and> tk_phase s Writer = Ended"

definition waiter_done :: "Tasks \<Rightarrow> bool" where
  "waiter_done s \<longleftrightarrow> tk_phase s Closer = Ended \<and> tk_phase s UnreliableWriter = Ended \<and> tk_phase s PingLoop = Ended"

definition set_phase :: "Task \<Rightarrow> Phase \<Rightarrow> Tasks \<Rightarrow> Tasks" where
  "set_phase t p s = s\<lparr>tk_phase := (tk_phase s)(t := p)\<rparr>"

definition log_out :: "TaskOut \<Rightarrow> Tasks \<Rightarrow> Tasks" where
  "log_out out s = s\<lparr>tk_log := tk_log s @ [out]\<rparr>"

section \<open>The steps\<close>

text \<open>
  \<open>LoopEnds\<close>: a loop returns, for any reason; its drop guard cancels the connection.  The closer
  leaves its first wait only on a cancellation.  \<open>TaskEnds\<close>: a reader or the reliable writer closes
  its half of the transport and ends; the closer closes the transport when \<open>waiter_rw\<close> is done; the
  unreliable writer and the ping loop just end.  \<open>CloseCalled\<close>, \<open>CloseReturns\<close>: a caller of \<open>close\<close>.
  \<open>None\<close>: the step cannot happen now.
\<close>

datatype TaskEvent = LoopEnds Task | TaskEnds Task | WriteUnreliable | CancelCalled | CloseCalled nat | CloseReturns nat

definition loop_ends :: "Task \<Rightarrow> Tasks \<Rightarrow> Tasks option" where
  "loop_ends t s =
     (if tk_phase s t \<noteq> Looping then None
      else if t = Closer then (if tk_cancelled s then Some (set_phase t Exited s) else None)
      else Some (set_phase t Exited s\<lparr>tk_cancelled := True\<rparr>))"

definition task_ends :: "Task \<Rightarrow> Tasks \<Rightarrow> Tasks option" where
  "task_ends t s =
     (if tk_phase s t \<noteq> Exited then None
      else if t = Closer then (if waiter_rw_done s then Some (log_out TransportClosed (set_phase t Ended s)) else None)
      else if t = UnreliableWriter \<or> t = PingLoop then Some (set_phase t Ended s)
      else Some (log_out (HalfClosed t) (set_phase t Ended s)))"

definition close_called :: "nat \<Rightarrow> Tasks \<Rightarrow> Tasks" where
  "close_called caller s =
     (if tk_cancelled s then log_out (ClosedAlready caller) s
      else s\<lparr>tk_cancelled := True, tk_closing := tk_closing s @ [caller]\<rparr>)"

definition close_returns :: "nat \<Rightarrow> Tasks \<Rightarrow> Tasks option" where
  "close_returns caller s =
     (if caller \<in> set (tk_closing s) \<and> waiter_done s
      then Some (log_out (CloseReturned caller) (s\<lparr>tk_closing := remove1 caller (tk_closing s)\<rparr>)) else None)"

fun task_step :: "Tasks \<Rightarrow> TaskEvent \<Rightarrow> Tasks option" where
  "task_step s (LoopEnds t) = loop_ends t s"
| "task_step s (TaskEnds t) = task_ends t s"
| "task_step s WriteUnreliable =
     (if tk_phase s UnreliableWriter = Looping then Some (log_out UnreliableWritten s) else None)"
| "task_step s CancelCalled = Some (s\<lparr>tk_cancelled := True\<rparr>)"
| "task_step s (CloseCalled caller) = Some (close_called caller s)"
| "task_step s (CloseReturns caller) = close_returns caller s"

inductive task_runs :: "Tasks \<Rightarrow> TaskEvent list \<Rightarrow> Tasks \<Rightarrow> bool" where
  runs_nil: "task_runs s [] s"
| runs_snoc: "task_runs s evs s' \<Longrightarrow> task_step s' ev = Some s'' \<Longrightarrow> task_runs s (evs @ [ev]) s''"

inductive_cases task_runs_nilE: "task_runs s [] s'"

lemma task_runs_Cons: "task_step s ev = Some s' \<Longrightarrow> task_runs s' evs s'' \<Longrightarrow> task_runs s (ev # evs) s''"
proof -
  have "task_runs s' evs s'' \<Longrightarrow> (\<And>s. task_step s ev = Some s' \<Longrightarrow> task_runs s (ev # evs) s'')"
  proof (induction rule: task_runs.induct)
    case (runs_nil s')
    then show ?case using task_runs.intros(2)[OF task_runs.intros(1)] by fastforce
  next
    case (runs_snoc s' evs s'' ev' s''')
    then show ?case using task_runs.intros(2)[of _ "ev # evs"] by fastforce
  qed
  then show "task_step s ev = Some s' \<Longrightarrow> task_runs s' evs s'' \<Longrightarrow> task_runs s (ev # evs) s''" by blast
qed

section \<open>The invariant\<close>

text \<open>
  The observations so far agree with the phases: a half is closed when its task has ended, the
  transport when the closer has, after which no task of a reliable half is left; a loop that has
  ended has cancelled the connection, and so has every waiting caller of \<open>close\<close>.
\<close>

definition half_tasks :: "bool \<Rightarrow> Task list" where
  "half_tasks unreliable_reader = [Reader, Writer] @ (if unreliable_reader then [UnreliableReader] else [])"

definition log_ordered :: "bool \<Rightarrow> TaskOut list \<Rightarrow> bool" where
  "log_ordered ur outs \<longleftrightarrow>
     (\<forall>before after. outs = before @ TransportClosed # after \<longrightarrow>
        (\<forall>t. HalfClosed t \<in> set before \<longleftrightarrow> t \<in> set (half_tasks ur)) \<and>
        TransportClosed \<notin> set after \<and> (\<forall>t. HalfClosed t \<notin> set after)) \<and>
     (\<forall>before caller after. outs = before @ CloseReturned caller # after \<longrightarrow> TransportClosed \<in> set before)"

definition task_inv :: "bool \<Rightarrow> Tasks \<Rightarrow> bool" where
  "task_inv ur s \<longleftrightarrow>
     (\<forall>t. HalfClosed t \<in> set (tk_log s) \<longleftrightarrow> t \<in> set (half_tasks ur) \<and> tk_phase s t = Ended) \<and>
     (TransportClosed \<in> set (tk_log s) \<longleftrightarrow> tk_phase s Closer = Ended) \<and>
     (tk_phase s Closer = Ended \<longrightarrow> waiter_rw_done s) \<and>
     (tk_phase s Closer \<noteq> Looping \<longrightarrow> tk_cancelled s) \<and>
     (\<not> ur \<longrightarrow> tk_phase s UnreliableReader = Ended) \<and>
     (tk_closing s \<noteq> [] \<longrightarrow> tk_cancelled s) \<and>
     (\<forall>t. tk_phase s t = Exited \<longrightarrow> tk_cancelled s) \<and>
     log_ordered ur (tk_log s)"

lemma log_ordered_Nil [simp]: "log_ordered ur []"
  by (simp add: log_ordered_def)

text \<open>What may be added to an ordered log.\<close>

lemma log_ordered_snoc:
  assumes "log_ordered ur outs"
    and "\<And>t. out = HalfClosed t \<Longrightarrow> TransportClosed \<notin> set outs"
    and "out = TransportClosed \<Longrightarrow> TransportClosed \<notin> set outs \<and> (\<forall>t. HalfClosed t \<in> set outs \<longleftrightarrow> t \<in> set (half_tasks ur))"
    and "\<And>k. out = CloseReturned k \<Longrightarrow> TransportClosed \<in> set outs"
  shows "log_ordered ur (outs @ [out])"
  unfolding log_ordered_def
proof (intro conjI allI impI)
  fix before after assume eq: "outs @ [out] = before @ TransportClosed # after"
  show "TransportClosed \<notin> set after" "\<And>t. HalfClosed t \<notin> set after"
    "\<And>t. (HalfClosed t \<in> set before) = (t \<in> set (half_tasks ur))"
    using eq assms by (cases after rule: rev_cases; force simp: log_ordered_def)+
next
  fix before k after assume "outs @ [out] = before @ CloseReturned k # after"
  then show "TransportClosed \<in> set before"
    using assms by (cases after rule: rev_cases) (auto simp: log_ordered_def)
qed

lemma in_half_tasks [simp]:
  "t \<in> set (half_tasks ur) \<longleftrightarrow> t = Reader \<or> t = Writer \<or> (ur \<and> t = UnreliableReader)"
  by (auto simp: half_tasks_def)

lemma task_inv_new: "task_inv ur (tasks_new ur uw)"
  by (auto simp: task_inv_def tasks_new_def waiter_rw_done_def)

lemmas task_step_defs = loop_ends_def task_ends_def close_called_def close_returns_def set_phase_def log_out_def

lemma loop_ends_Some:
  "loop_ends t s = Some s' \<Longrightarrow> tk_phase s t = Looping \<and> (t = Closer \<longrightarrow> tk_cancelled s) \<and>
     s' = s\<lparr>tk_phase := (tk_phase s)(t := Exited), tk_cancelled := True\<rparr>"
  by (auto simp: task_step_defs split: if_splits)

lemma task_ends_Some:
  "task_ends t s = Some s' \<Longrightarrow> tk_phase s t = Exited \<and> (t = Closer \<longrightarrow> waiter_rw_done s) \<and>
     s' = s\<lparr>tk_phase := (tk_phase s)(t := Ended),
            tk_log := tk_log s @ (if t = Closer then [TransportClosed]
                                  else if t = UnreliableWriter \<or> t = PingLoop then [] else [HalfClosed t])\<rparr>"
  by (auto simp: task_step_defs split: if_splits)

lemma loop_ends_inv:
  assumes "task_inv ur s" and "loop_ends t s = Some s'"
  shows "task_inv ur s'"
proof -
  note step = loop_ends_Some[OF assms(2)]
  then have ended: "tk_phase s' x = Ended \<longleftrightarrow> tk_phase s x = Ended" for x by auto
  have "tk_log s' = tk_log s" "tk_cancelled s'" using step by auto
  then show ?thesis using assms(1) ended by (simp add: task_inv_def waiter_rw_done_def)
qed

lemma task_ends_inv:
  assumes inv: "task_inv ur s" and step: "task_ends t s = Some s'"
  shows "task_inv ur s'"
proof -
  note s' = task_ends_Some[OF step]
  have log: "log_ordered ur (tk_log s)"
    and half: "\<And>t. HalfClosed t \<in> set (tk_log s) \<longleftrightarrow> t \<in> set (half_tasks ur) \<and> tk_phase s t = Ended"
    and closed: "TransportClosed \<in> set (tk_log s) \<longleftrightarrow> tk_phase s Closer = Ended"
    and rw: "tk_phase s Closer = Ended \<Longrightarrow> waiter_rw_done s"
    and ur: "\<not> ur \<Longrightarrow> tk_phase s UnreliableReader = Ended"
    and cancelled: "tk_cancelled s"
    and other: "tk_closing s \<noteq> [] \<longrightarrow> tk_cancelled s"
    using inv s' by (auto simp: task_inv_def)
  have ended: "tk_phase s' x = Ended \<longleftrightarrow> x = t \<or> tk_phase s x = Ended" for x using s' by auto
  have open_yet: "TransportClosed \<notin> set (tk_log s)" if "t \<noteq> UnreliableWriter" "t \<noteq> PingLoop"
    using that s' closed rw by (cases t) (auto simp: waiter_rw_done_def)
  have is_half: "t \<in> set (half_tasks ur)" if "t \<noteq> UnreliableWriter" "t \<noteq> PingLoop" "t \<noteq> Closer"
    using that s' ur by (cases t) auto
  have all_closed: "HalfClosed x \<in> set (tk_log s) \<longleftrightarrow> x \<in> set (half_tasks ur)" if "t = Closer" for x
    using that s' half by (auto simp: waiter_rw_done_def)
  have "log_ordered ur (tk_log s')"
  proof -
    consider "t = Closer" | "t = UnreliableWriter \<or> t = PingLoop" | "t \<noteq> Closer" "t \<noteq> UnreliableWriter" "t \<noteq> PingLoop" by blast
    then show ?thesis
    proof cases
      case 1
      then have "tk_log s' = tk_log s @ [TransportClosed]" using s' by simp
      moreover have "log_ordered ur (tk_log s @ [TransportClosed])"
        by (rule log_ordered_snoc[OF log]) (use 1 open_yet all_closed in simp_all)
      ultimately show ?thesis by simp
    next
      case 2
      then show ?thesis using s' log by auto
    next
      case 3
      then have "tk_log s' = tk_log s @ [HalfClosed t]" using s' by simp
      moreover have "log_ordered ur (tk_log s @ [HalfClosed t])"
        by (rule log_ordered_snoc[OF log]) (use 3 open_yet in simp_all)
      ultimately show ?thesis by simp
    qed
  qed
  moreover have "HalfClosed x \<in> set (tk_log s') \<longleftrightarrow> x \<in> set (half_tasks ur) \<and> tk_phase s' x = Ended" for x
    unfolding ended using s' half[of x] is_half by auto
  moreover have "TransportClosed \<in> set (tk_log s') \<longleftrightarrow> tk_phase s' Closer = Ended"
    unfolding ended using s' closed by auto
  moreover have "tk_phase s' Closer = Ended \<Longrightarrow> waiter_rw_done s'"
    using s' rw by (auto simp: waiter_rw_done_def)
  moreover have "tk_cancelled s'" "\<not> ur \<Longrightarrow> tk_phase s' UnreliableReader = Ended"
    using s' ur cancelled by auto
  ultimately show ?thesis by (simp add: task_inv_def)
qed

text \<open>The other steps leave the phases alone and at most add to the log.\<close>

lemma task_inv_other:
  assumes "task_inv ur s" and "tk_phase s' = tk_phase s" and "tk_cancelled s \<Longrightarrow> tk_cancelled s'"
    and "tk_closing s' \<noteq> [] \<Longrightarrow> tk_cancelled s'"
    and "tk_log s' = tk_log s \<or> (\<exists>out. tk_log s' = tk_log s @ [out] \<and> out \<noteq> TransportClosed \<and> (\<forall>t. out \<noteq> HalfClosed t) \<and>
           ((\<exists>k. out = CloseReturned k) \<longrightarrow> waiter_done s))"
  shows "task_inv ur s'"
proof -
  have closed: "tk_phase s Closer = Ended \<Longrightarrow> TransportClosed \<in> set (tk_log s)" using assms(1) by (simp add: task_inv_def)
  have "log_ordered ur (tk_log s')"
    using assms(5)
  proof (elim disjE exE conjE)
    fix out assume out: "tk_log s' = tk_log s @ [out]" "out \<noteq> TransportClosed" "\<forall>t. out \<noteq> HalfClosed t"
      "(\<exists>k. out = CloseReturned k) \<longrightarrow> waiter_done s"
    have "log_ordered ur (tk_log s @ [out])"
      by (rule log_ordered_snoc) (use assms(1) out closed in \<open>auto simp: task_inv_def waiter_done_def\<close>)
    with out(1) show ?thesis by simp
  qed (use assms(1) in \<open>simp add: task_inv_def\<close>)
  moreover have "HalfClosed t \<in> set (tk_log s') \<longleftrightarrow> HalfClosed t \<in> set (tk_log s)" for t using assms(5) by auto
  moreover have "TransportClosed \<in> set (tk_log s') \<longleftrightarrow> TransportClosed \<in> set (tk_log s)" using assms(5) by auto
  ultimately show ?thesis
    using assms(1-4) by (simp add: task_inv_def waiter_rw_done_def)
qed

lemma task_inv_step:
  assumes "task_inv ur s" and "task_step s ev = Some s'"
  shows "task_inv ur s'"
proof (cases ev)
  case (LoopEnds t)
  then show ?thesis using assms loop_ends_inv[of ur s t s'] by simp
next
  case (TaskEnds t)
  then show ?thesis using assms task_ends_inv[of ur s t s'] by simp
next
  case WriteUnreliable
  then have "s' = log_out UnreliableWritten s" using assms(2) by (simp split: if_splits)
  then show ?thesis using assms(1) by (intro task_inv_other[OF assms(1)]) (simp_all add: log_out_def task_inv_def)
next
  case CancelCalled
  then show ?thesis using assms(2) by (intro task_inv_other[OF assms(1)]) auto
next
  case (CloseCalled k)
  then show ?thesis using assms(2) by (intro task_inv_other[OF assms(1)]) (auto simp: close_called_def log_out_def)
next
  case (CloseReturns k)
  then have s': "waiter_done s" "tk_closing s \<noteq> []" "s' = log_out (CloseReturned k) (s\<lparr>tk_closing := remove1 k (tk_closing s)\<rparr>)"
    using assms(2) by (auto simp: close_returns_def split: if_splits)
  then have "tk_cancelled s" using assms(1) by (simp add: task_inv_def)
  then show ?thesis using s' by (intro task_inv_other[OF assms(1)]) (simp_all add: log_out_def)
qed

lemma task_inv_runs: "task_runs s evs s' \<Longrightarrow> task_inv ur s \<Longrightarrow> task_inv ur s'"
  by (induction rule: task_runs.induct) (auto intro: task_inv_step)

section \<open>Ending\<close>

text \<open>The steps the tasks take by themselves on the way to their end, and how many are left.\<close>

definition progress :: "TaskEvent \<Rightarrow> bool" where
  "progress ev = (case ev of LoopEnds t \<Rightarrow> True | TaskEnds t \<Rightarrow> True | _ \<Rightarrow> False)"

definition phase_left :: "Phase \<Rightarrow> nat" where
  "phase_left p = (case p of Looping \<Rightarrow> 2 | Exited \<Rightarrow> 1 | Ended \<Rightarrow> 0)"

definition steps_left :: "Tasks \<Rightarrow> nat" where
  "steps_left s = sum_list (map (\<lambda>t. phase_left (tk_phase s t)) [Reader, UnreliableReader, Writer, Closer, UnreliableWriter, PingLoop])"

lemma steps_left_12: "steps_left s \<le> 12"
proof -
  have "phase_left p \<le> 2" for p by (cases p) (simp_all add: phase_left_def)
  from this[of "tk_phase s Reader"] this[of "tk_phase s UnreliableReader"] this[of "tk_phase s Writer"]
    this[of "tk_phase s Closer"] this[of "tk_phase s UnreliableWriter"] this[of "tk_phase s PingLoop"]
  show ?thesis by (simp add: steps_left_def)
qed

lemma progress_step: "progress ev \<Longrightarrow> task_step s ev = Some s' \<Longrightarrow> steps_left s = Suc (steps_left s')"
proof (cases ev)
  case (LoopEnds t)
  assume "task_step s ev = Some s'"
  with LoopEnds loop_ends_Some[of t s s'] show ?thesis
    by (cases t) (auto simp: steps_left_def phase_left_def)
next
  case (TaskEnds t)
  assume "task_step s ev = Some s'"
  with TaskEnds task_ends_Some[of t s s'] show ?thesis
    by (cases t) (auto simp: steps_left_def phase_left_def)
qed (simp_all add: progress_def)

text \<open>Nothing blocks: a cancelled connection with a task left has a step of its own to take.\<close>

lemma stuck_ended:
  assumes "tk_cancelled s" and stuck: "\<And>ev. progress ev \<Longrightarrow> task_step s ev = None"
  shows "tk_phase s t = Ended"
proof -
  have no_loop: "tk_phase s x \<noteq> Looping" for x
    using stuck[of "LoopEnds x"] assms(1) by (auto simp: progress_def loop_ends_def split: if_splits)
  have other: "tk_phase s x = Ended" if "x \<noteq> Closer" for x
    using stuck[of "TaskEnds x"] no_loop[of x] that
    by (cases "tk_phase s x") (auto simp: progress_def task_ends_def split: if_splits)
  then have "waiter_rw_done s" by (simp add: waiter_rw_done_def)
  with stuck[of "TaskEnds Closer"] no_loop[of Closer] have "tk_phase s Closer = Ended"
    by (cases "tk_phase s Closer") (auto simp: progress_def task_ends_def)
  with other show ?thesis by (cases "t = Closer") auto
qed

lemma progress_runs:
  "task_runs s evs s' \<Longrightarrow> list_all progress evs \<Longrightarrow> length evs + steps_left s' = steps_left s"
proof (induction rule: task_runs.induct)
  case (runs_snoc s evs s' ev s'')
  then show ?case using progress_step[of ev s' s''] by simp
qed simp

lemma cancelled_runs: "task_runs s evs s' \<Longrightarrow> tk_cancelled s \<Longrightarrow> tk_cancelled s'"
proof (induction rule: task_runs.induct)
  case (runs_snoc s evs s' ev s'')
  then show ?case
    by (cases ev) (auto simp: task_step_defs split: if_splits)
qed simp

lemma task_runs_append: "task_runs s' evs' s'' \<Longrightarrow> task_runs s evs s' \<Longrightarrow> task_runs s (evs @ evs') s''"
proof (induction rule: task_runs.induct)
  case (runs_snoc s' evs' s'' ev s''')
  then show ?case using task_runs.intros(2)[of s "evs @ evs'" s'' ev s'''] by simp
qed simp

text \<open>Runs computed.\<close>

fun task_exec :: "Tasks \<Rightarrow> TaskEvent list \<Rightarrow> Tasks option" where
  "task_exec s [] = Some s"
| "task_exec s (ev # evs) = (case task_step s ev of None \<Rightarrow> None | Some s' \<Rightarrow> task_exec s' evs)"

lemma task_exec_runs: "task_exec s evs = Some s' \<Longrightarrow> task_runs s evs s'"
  by (induction evs arbitrary: s) (auto intro: task_runs_Cons runs_nil split: option.splits)

section \<open>Properties\<close>

text \<open>
  C14: the transport itself is closed once, after the reliable reader, the reliable writer and the
  unreliable reader (where there is one) have each closed their half of it, and none of them closes
  its half later; every call of \<open>close\<close> that waited returns after that.
\<close>

theorem transport_closed_last:
  assumes "task_runs (tasks_new ur uw) evs s" and "tk_log s = before @ out # after"
  shows "(out = TransportClosed \<longrightarrow>
            (\<forall>t. HalfClosed t \<in> set before \<longleftrightarrow> t = Reader \<or> t = Writer \<or> ur \<and> t = UnreliableReader) \<and>
            TransportClosed \<notin> set after \<and> (\<forall>t. HalfClosed t \<notin> set after)) \<and>
         (\<forall>caller. out = CloseReturned caller \<longrightarrow> TransportClosed \<in> set before)"
proof -
  have "log_ordered ur (tk_log s)"
    using task_inv_runs[OF assms(1) task_inv_new] by (simp add: task_inv_def)
  then show ?thesis using assms(2) by (auto simp: log_ordered_def)
qed

definition shutdown_events :: "TaskEvent list" where
  "shutdown_events =
     [CloseCalled 7, LoopEnds Writer, LoopEnds Reader, LoopEnds UnreliableReader, LoopEnds Closer,
      TaskEnds UnreliableReader, TaskEnds Writer, TaskEnds Reader, TaskEnds Closer]"

theorem transport_closed_last_witness:
  "\<exists>s. task_runs (tasks_new True True) shutdown_events s \<and>
     tk_log s = [HalfClosed UnreliableReader, HalfClosed Writer, HalfClosed Reader] @ TransportClosed # [] \<and>
     (\<forall>t. HalfClosed t \<in> set [HalfClosed UnreliableReader, HalfClosed Writer, HalfClosed Reader] \<longleftrightarrow>
        t = Reader \<or> t = Writer \<or> True \<and> t = UnreliableReader)"
proof -
  let ?before = "[HalfClosed UnreliableReader, HalfClosed Writer, HalfClosed Reader]"
  have "map_option tk_log (task_exec (tasks_new True True) shutdown_events) = Some (?before @ TransportClosed # [])"
    by code_simp
  then obtain s where s: "task_runs (tasks_new True True) shutdown_events s" "tk_log s = ?before @ TransportClosed # []"
    using task_exec_runs by auto
  with transport_closed_last[OF this] show ?thesis by blast
qed



text \<open>
  The unreliable writer is in neither wait of the closer: it may write after the transport is
  closed.  A call of \<open>close\<close> on a connection that is already cancelled returns before the tasks end.
\<close>

lemma unreliable_writer_outlives_transport:
  "map_option tk_log (task_exec (tasks_new True True) (shutdown_events @ [WriteUnreliable, CloseCalled 8])) =
     Some [HalfClosed UnreliableReader, HalfClosed Writer, HalfClosed Reader, TransportClosed, UnreliableWritten, ClosedAlready 8]"
  by code_simp

end
