(* ===== verification/Handles.thy ===== *)
theory Handles
  imports Errors
begin

text \<open>
  The client's ends of a downstream (\<open>iscp/downstream.rs\<close>): \<open>Downstream::read_chunk\<close>,
  \<open>Downstream::close\<close> and \<open>DownstreamMetadataReader::read\<close>, against what the stream's task does to
  the channel, the cancellation token, the close cause and the sender of the close result.  The task
  itself is in \<open>Downstream\<close>; here it is the events by which the handles can notice it.
\<close>

section \<open>The shared state\<close>

text \<open>
  \<open>rd_task\<close>: the future of \<open>downstream_loop\<close> has not returned; it owns the only sender of the
  channel.  \<open>rd_tx_result\<close>: \<open>close\<close> has stored a sender that has not been taken; the handle holds
  the state it is stored in.  \<open>rd_closing\<close>: a \<open>close\<close> is waiting (the handle is borrowed for it, so
  there is at most one).
\<close>

record 'a Reading =
  rd_channel :: "'a list"
  rd_task :: bool
  rd_cancelled :: bool
  rd_close_cause :: "Error option"
  rd_tx_result :: bool
  rd_closing :: bool

definition reading_new :: "'a Reading" where
  "reading_new = \<lparr>rd_channel = [], rd_task = True, rd_cancelled = False, rd_close_cause = None, rd_tx_result = False, rd_closing = False\<rparr>"

section \<open>Reading\<close>

text \<open>Which branch of the unbiased \<open>select!\<close> is taken.\<close>

datatype SelectBranch = RecvBranch | CancelledBranch

definition take_close_cause :: "'a Reading \<Rightarrow> 'a Reading \<times> Error" where
  "take_close_cause s =
     (s\<lparr>rd_close_cause := None\<rparr>, case rd_close_cause s of None \<Rightarrow> StreamClosed | Some e \<Rightarrow> e)"

text \<open>\<open>None\<close>: the branch is not ready.  \<open>recv\<close> fails only when the task has dropped its sender.\<close>

definition read_chunk :: "SelectBranch \<Rightarrow> 'a Reading \<Rightarrow> ('a Reading \<times> 'a res) option" where
  "read_chunk branch s =
     (case branch of
        RecvBranch \<Rightarrow>
          (case rd_channel s of
             x # xs \<Rightarrow> Some (s\<lparr>rd_channel := xs\<rparr>, Inr x)
           | [] \<Rightarrow> if rd_task s then None else (case take_close_cause s of (s', e) \<Rightarrow> Some (s', Inl e)))
      | CancelledBranch \<Rightarrow>
          (if \<not> rd_cancelled s then None
           else (case rd_channel s of
                   x # xs \<Rightarrow> Some (s\<lparr>rd_channel := xs\<rparr>, Inr x)
                 | [] \<Rightarrow> (case take_close_cause s of (s', e) \<Rightarrow> Some (s', Inl e)))))"

definition read_metadata :: "SelectBranch \<Rightarrow> 'a Reading \<Rightarrow> ('a Reading \<times> 'a res) option" where
  "read_metadata branch s =
     (case branch of
        RecvBranch \<Rightarrow>
          (case rd_channel s of
             x # xs \<Rightarrow> Some (s\<lparr>rd_channel := xs\<rparr>, Inr x)
           | [] \<Rightarrow> if rd_task s then None else Some (s, Inl StreamClosed))
      | CancelledBranch \<Rightarrow>
          (if \<not> rd_cancelled s then None
           else (case rd_channel s of
                   x # xs \<Rightarrow> Some (s\<lparr>rd_channel := xs\<rparr>, Inr x)
                 | [] \<Rightarrow> Some (s, Inl StreamClosed))))"

section \<open>Closing\<close>

definition handle_close :: "'a Reading \<Rightarrow> 'a Reading" where
  "handle_close s = s\<lparr>rd_tx_result := True, rd_cancelled := True, rd_closing := True\<rparr>"

text \<open>What the wait in \<open>close\<close> ends with; the inner error is that of the oneshot channel.\<close>

datatype CloseWait = WaitTimeout | SenderDropped | CloseAnswer "unit res"

definition close_result :: "CloseWait \<Rightarrow> unit res" where
  "close_result w =
     (case w of
        WaitTimeout \<Rightarrow> Inl (Unexpected ''close timeout'')
      | SenderDropped \<Rightarrow> Inl (Unexpected ''cannot get close result'')
      | CloseAnswer r \<Rightarrow> r)"

section \<open>The task as seen from the handles\<close>

text \<open>
  The task hands an item over, answers a close, is cancelled, returns, and has its error stored.  When \<open>downstream_loop\<close>
  returns its guard cancels the token and its sender is dropped; the error it returned is stored
  after that, by the block that awaited it.
\<close>

datatype 'a ReadEvent =
  HandOver 'a | Cancel | LoopReturns | StoreCause Error | AnswerClose "unit res" | CloseTimesOut
| CallClose | ReadChunk SelectBranch

datatype 'a ReadOut = ReadResult "'a res" | CloseResult "unit res"

fun read_step :: "'a Reading \<Rightarrow> 'a ReadEvent \<Rightarrow> ('a Reading \<times> 'a ReadOut list) option" where
  "read_step s (HandOver x) = (if rd_task s then Some (s\<lparr>rd_channel := rd_channel s @ [x]\<rparr>, []) else None)"
| "read_step s Cancel = Some (s\<lparr>rd_cancelled := True\<rparr>, [])"
| "read_step s LoopReturns = (if rd_task s then Some (s\<lparr>rd_cancelled := True, rd_task := False\<rparr>, []) else None)"
| "read_step s (StoreCause e) = (if rd_task s then None else Some (s\<lparr>rd_close_cause := Some e\<rparr>, []))"
| "read_step s (AnswerClose r) =
     (if rd_task s \<and> rd_tx_result s
      then Some (s\<lparr>rd_tx_result := False, rd_closing := False\<rparr>,
                 if rd_closing s then [CloseResult (close_result (CloseAnswer r))] else []) else None)"
| "read_step s CloseTimesOut =
     (if rd_closing s then Some (s\<lparr>rd_closing := False\<rparr>, [CloseResult (close_result WaitTimeout)]) else None)"
| "read_step s CallClose = Some (handle_close s, [])"
| "read_step s (ReadChunk branch) =
     map_option (\<lambda>(s', r). (s', [ReadResult r])) (read_chunk branch s)"

fun read_run :: "'a Reading \<Rightarrow> 'a ReadEvent list \<Rightarrow> ('a Reading \<times> 'a ReadOut list) option" where
  "read_run s [] = Some (s, [])"
| "read_run s (ev # evs) =
     (case read_step s ev of None \<Rightarrow> None
      | Some (s', outs) \<Rightarrow> map_option (\<lambda>(s'', outs'). (s'', outs @ outs')) (read_run s' evs))"

definition handed_over :: "'a ReadEvent list \<Rightarrow> 'a list" where
  "handed_over evs = concat (map (\<lambda>ev. case ev of HandOver x \<Rightarrow> [x] | _ \<Rightarrow> []) evs)"

definition read_items :: "'a ReadOut list \<Rightarrow> 'a list" where
  "read_items outs = concat (map (\<lambda>out. case out of ReadResult (Inr x) \<Rightarrow> [x] | _ \<Rightarrow> []) outs)"

definition read_errors :: "'a ReadOut list \<Rightarrow> Error list" where
  "read_errors outs = concat (map (\<lambda>out. case out of ReadResult (Inl e) \<Rightarrow> [e] | _ \<Rightarrow> []) outs)"

lemma outs_simps [simp]:
  "read_items [] = []" "read_errors [] = []" "handed_over [] = []"
  "read_items (xs @ ys) = read_items xs @ read_items ys"
  "read_errors (xs @ ys) = read_errors xs @ read_errors ys"
  "read_items (ReadResult (Inr x) # outs) = x # read_items outs"
  "read_items (ReadResult (Inl e) # outs) = read_items outs"
  "read_items (CloseResult r # outs) = read_items outs"
  "read_errors (ReadResult (Inr x) # outs) = read_errors outs"
  "read_errors (ReadResult (Inl e) # outs) = e # read_errors outs"
  "read_errors (CloseResult r # outs) = read_errors outs"
  "handed_over (ev # evs) = (case ev of HandOver x \<Rightarrow> [x] | _ \<Rightarrow> []) @ handed_over evs"
  by (simp_all add: read_items_def read_errors_def handed_over_def)

lemma read_run_Cons:
  "read_run s (ev # evs) = Some (s'', outs) \<longleftrightarrow>
     (\<exists>s' out1 out2. read_step s ev = Some (s', out1) \<and> read_run s' evs = Some (s'', out2) \<and> outs = out1 @ out2)"
  by (auto split: option.splits)

text \<open>A read hands out the first item, or an error that is the cause or \<open>StreamClosed\<close>.\<close>

lemma read_chunk_cases:
  assumes "read_chunk branch s = Some (s', r)"
  obtains (item) x xs where "rd_channel s = x # xs" "s' = s\<lparr>rd_channel := xs\<rparr>" "r = Inr x"
    | (failed) "rd_channel s = []" "rd_cancelled s \<or> \<not> rd_task s" "s' = s\<lparr>rd_close_cause := None\<rparr>"
        "r = Inl (case rd_close_cause s of None \<Rightarrow> StreamClosed | Some e \<Rightarrow> e)"
  using assms
  by (auto simp: read_chunk_def take_close_cause_def split: SelectBranch.splits list.splits if_splits)

section \<open>Properties\<close>



text \<open>
  After the task has ended and its error was stored, the reads hand out what is left in the
  channel, then that error once, and \<open>StreamClosed\<close> from then on, whichever branch each takes.
\<close>

theorem close_cause_given_once:
  assumes "\<not> rd_task s" and "rd_cancelled s" and "rd_close_cause s = Some e"
    and "length branches = length (rd_channel s) + 1 + n"
  shows "map_option snd (read_run s (map ReadChunk branches)) =
           Some (map (\<lambda>x. ReadResult (Inr x)) (rd_channel s) @ ReadResult (Inl e) # replicate n (ReadResult (Inl StreamClosed)))"
proof -
  have closed: "read_run s (map ReadChunk bs) = Some (s, replicate (length bs) (ReadResult (Inl StreamClosed)))"
    if "\<not> rd_task s" "rd_cancelled s" "rd_close_cause s = None" "rd_channel s = []" for s :: "'a Reading" and bs
  proof (induction bs)
    case (Cons b bs)
    have "s\<lparr>rd_close_cause := None\<rparr> = s" using that(3) by (cases s) simp
    then have "read_chunk b s = Some (s, Inl StreamClosed)"
      using that by (cases b) (simp_all add: read_chunk_def take_close_cause_def)
    then show ?case using Cons.IH by simp
  qed simp
  show ?thesis
    using assms
  proof (induction "rd_channel s" arbitrary: s branches)
    case Nil
    then obtain b bs where bs: "branches = b # bs" "length bs = n" by (cases branches) auto
    have "read_chunk b s = Some (s\<lparr>rd_close_cause := None\<rparr>, Inl e)"
      using Nil by (cases b) (auto simp: read_chunk_def take_close_cause_def)
    moreover have "read_run (s\<lparr>rd_close_cause := None\<rparr>) (map ReadChunk bs) =
        Some (s\<lparr>rd_close_cause := None\<rparr>, replicate n (ReadResult (Inl StreamClosed)))"
      using closed[of "s\<lparr>rd_close_cause := None\<rparr>" bs] Nil bs by simp
    ultimately show ?case using bs Nil.hyps by simp
  next
    case (Cons x xs)
    then obtain b bs where bs: "branches = b # bs" by (cases branches) auto
    have x: "rd_channel s = x # xs" using Cons.hyps(2) by simp
    have "read_chunk b s = Some (s\<lparr>rd_channel := xs\<rparr>, Inr x)"
      using Cons.prems x by (cases b) (auto simp: read_chunk_def)
    moreover have "map_option snd (read_run (s\<lparr>rd_channel := xs\<rparr>) (map ReadChunk bs)) =
        Some (map (\<lambda>x. ReadResult (Inr x)) xs @ ReadResult (Inl e) # replicate n (ReadResult (Inl StreamClosed)))"
      using Cons.hyps(1)[of "s\<lparr>rd_channel := xs\<rparr>" bs] Cons.prems bs x by simp
    ultimately show ?case using bs x by (auto simp: option.map_comp comp_def split_beta)
  qed
qed

theorem close_cause_given_once_witness:
  "map_option snd (read_run \<lparr>rd_channel = [5::nat], rd_task = False, rd_cancelled = True,
       rd_close_cause = Some (Timeout ''''), rd_tx_result = False, rd_closing = False\<rparr>
       (map ReadChunk [CancelledBranch, RecvBranch, RecvBranch])) =
     Some [ReadResult (Inr 5), ReadResult (Inl (Timeout '''')), ReadResult (Inl StreamClosed)]"
  using close_cause_given_once[of "\<lparr>rd_channel = [5::nat], rd_task = False, rd_cancelled = True,
       rd_close_cause = Some (Timeout ''''), rd_tx_result = False, rd_closing = False\<rparr>" "Timeout ''''"
       "[CancelledBranch, RecvBranch, RecvBranch]" 1]
  by simp

text \<open>
  Two runs where a read reports the end too early: between the end of the task and the store of its
  error, and between a cancellation and the chunks the task still hands over while it drains.
\<close>

lemma cause_missed:
  "map_option snd (read_run reading_new [LoopReturns, ReadChunk RecvBranch, StoreCause (Timeout ''''), ReadChunk RecvBranch :: nat ReadEvent]) =
     Some [ReadResult (Inl StreamClosed), ReadResult (Inl (Timeout ''''))]"
  by (simp add: reading_new_def read_chunk_def take_close_cause_def)

lemma closed_before_last_chunk:
  "map_option snd (read_run reading_new [Cancel, ReadChunk CancelledBranch, HandOver (1::nat), LoopReturns, ReadChunk RecvBranch]) =
     Some [ReadResult (Inl StreamClosed), ReadResult (Inr 1)]"
  by (simp add: reading_new_def read_chunk_def take_close_cause_def)

text \<open>
  A \<open>close\<close> that is called when the task has ended is never answered: whatever happens, the only
  result it can return is the timeout, since the handle itself keeps the sender alive.
\<close>

theorem close_after_end_times_out:
  assumes "read_run s (CallClose # evs) = Some (s', outs)" and "\<not> rd_task s"
  shows "(\<forall>r. CloseResult r \<in> set outs \<longrightarrow> r = Inl (Unexpected ''close timeout'')) \<and>
         (rd_closing s' \<or> (\<exists>r. CloseResult r \<in> set outs)) \<and>
         (rd_closing s' \<longrightarrow> read_step s' CloseTimesOut \<noteq> None)"
proof -
  have "\<not> rd_task s' \<and> (\<forall>r. CloseResult r \<in> set outs \<longrightarrow> r = Inl (Unexpected ''close timeout'')) \<and>
      (rd_closing s \<longrightarrow> rd_closing s' \<or> (\<exists>r. CloseResult r \<in> set outs))"
    if "read_run s evs = Some (s', outs)" "\<not> rd_task s" for s s' :: "'a Reading" and evs outs
    using that
  proof (induction evs arbitrary: s outs)
    case (Cons ev evs)
    then obtain s1 out1 out2 where step: "read_step s ev = Some (s1, out1)"
      and run: "read_run s1 evs = Some (s', out2)" and outs: "outs = out1 @ out2"
      by (auto simp: read_run_Cons simp del: read_run.simps)
    have s1: "\<not> rd_task s1 \<and> (\<forall>r. CloseResult r \<in> set out1 \<longrightarrow> r = Inl (Unexpected ''close timeout'')) \<and>
        (rd_closing s \<longrightarrow> rd_closing s1 \<or> (\<exists>r. CloseResult r \<in> set out1))"
      using step Cons.prems(2)
      by (cases ev) (auto simp: handle_close_def close_result_def elim!: read_chunk_cases split: if_splits)
    show ?case using Cons.IH[OF run] s1 outs by auto
  qed simp
  from this[of "handle_close s" evs s' outs] assms show ?thesis
    by (auto simp: handle_close_def split: option.splits)
qed

theorem close_after_end_times_out_witness:
  "\<exists>s' outs. read_run (fst (the (read_run reading_new [LoopReturns :: nat ReadEvent]))) [CallClose, ReadChunk RecvBranch] = Some (s', outs) \<and>
     rd_closing s' \<and> read_step s' CloseTimesOut \<noteq> None"
proof -
  let ?s = "fst (the (read_run reading_new [LoopReturns :: nat ReadEvent]))"
  obtain s' outs where run: "read_run ?s [CallClose, ReadChunk RecvBranch] = Some (s', outs)" "rd_closing s'"
    by (simp add: reading_new_def read_chunk_def take_close_cause_def handle_close_def)
  have "\<not> rd_task ?s" by (simp add: reading_new_def)
  from close_after_end_times_out[OF run(1) this] run(2) show ?thesis using run(1) by blast
qed

end
