(* ===== verification/Reconnect.thy ===== *)
theory Reconnect
  imports Complex_Main Errors
begin

text \<open>
  What the streams and the reconnection loop share: the watch channel that hands a new wire
  connection to every stream (\<open>SharedWireConn\<close> in \<open>iscp/mod.rs\<close>), and the growing pause between
  two attempts (\<open>ReconnectWaiter\<close> in \<open>iscp/misc.rs\<close>).
\<close>

section \<open>The shared wire connection\<close>

text \<open>
  A tokio watch channel keeps one value and the number of sends.  A receiver keeps the number it has
  seen: \<open>changed\<close> returns when the numbers differ and marks the newest as seen, \<open>borrow\<close> does not mark
  anything, and a clone has seen what its original has.
\<close>

record 'c Watch =
  wa_value :: 'c
  wa_version :: nat
  wa_sender :: bool

definition watch_send :: "'c \<Rightarrow> 'c Watch \<Rightarrow> 'c Watch" where
  "watch_send c w = w\<lparr>wa_value := c, wa_version := Suc (wa_version w)\<rparr>"

text \<open>\<open>None\<close>: waits.\<close>

definition watch_changed :: "nat \<Rightarrow> 'c Watch \<Rightarrow> (nat \<times> unit res) option" where
  "watch_changed seen w =
     (if seen \<noteq> wa_version w then Some (wa_version w, Inr ())
      else if wa_sender w then None else Some (seen, Inl ConnectionClosed))"

definition shared_get :: "'c Watch \<Rightarrow> 'c" where
  "shared_get w = wa_value w"

text \<open>
  A stream that follows the connection: the receiver, and the connection it holds.  \<open>get_updated\<close> is
  two steps, with sends of the reconnection loop possibly between them.
\<close>

record 'c Follower =
  fo_watch :: "'c Watch"
  fo_seen :: nat
  fo_held :: 'c
  fo_updating :: bool
  fo_failed :: bool

definition follow :: "nat \<Rightarrow> 'c Watch \<Rightarrow> 'c Follower" where
  "follow seen w = \<lparr>fo_watch = w, fo_seen = seen, fo_held = shared_get w, fo_updating = False, fo_failed = False\<rparr>"

datatype 'c WatchEvent = NewConn 'c | LoopGone | Changed | Borrowed

fun watch_step :: "'c Follower \<Rightarrow> 'c WatchEvent \<Rightarrow> 'c Follower option" where
  "watch_step s (NewConn c) =
     (if wa_sender (fo_watch s) then Some (s\<lparr>fo_watch := watch_send c (fo_watch s)\<rparr>) else None)"
| "watch_step s LoopGone = Some (s\<lparr>fo_watch := (fo_watch s)\<lparr>wa_sender := False\<rparr>\<rparr>)"
| "watch_step s Changed =
     (if fo_updating s then None
      else (case watch_changed (fo_seen s) (fo_watch s) of
              None \<Rightarrow> None
            | Some (seen, Inr _) \<Rightarrow> Some (s\<lparr>fo_seen := seen, fo_updating := True\<rparr>)
            | Some (seen, Inl _) \<Rightarrow> Some (s\<lparr>fo_failed := True\<rparr>)))"
| "watch_step s Borrowed =
     (if fo_updating s then Some (s\<lparr>fo_held := shared_get (fo_watch s), fo_updating := False\<rparr>) else None)"

fun watch_run :: "'c Follower \<Rightarrow> 'c WatchEvent list \<Rightarrow> 'c Follower option" where
  "watch_run s [] = Some s"
| "watch_run s (ev # evs) = (case watch_step s ev of None \<Rightarrow> None | Some s' \<Rightarrow> watch_run s' evs)"

definition watch_inv :: "'c Follower \<Rightarrow> bool" where
  "watch_inv s \<longleftrightarrow>
     fo_seen s \<le> wa_version (fo_watch s) \<and>
     (\<not> fo_updating s \<longrightarrow> fo_seen s = wa_version (fo_watch s) \<longrightarrow> fo_held s = wa_value (fo_watch s)) \<and>
     (fo_failed s \<longrightarrow> fo_seen s = wa_version (fo_watch s) \<and> \<not> wa_sender (fo_watch s) \<and> \<not> fo_updating s)"

lemma watch_inv_step: "watch_inv s \<Longrightarrow> watch_step s ev = Some s' \<Longrightarrow> watch_inv s'"
  by (cases ev)
     (auto simp: watch_inv_def watch_changed_def watch_send_def shared_get_def
       split: if_splits option.splits prod.splits sum.splits)

lemma watch_inv_run: "watch_inv s \<Longrightarrow> watch_run s evs = Some s' \<Longrightarrow> watch_inv s'"
  by (induction evs arbitrary: s) (auto intro: watch_inv_step split: option.splits)

section \<open>The pause between two attempts\<close>

text \<open>
  The \<open>f64\<close> fields are real numbers; \<open>r\<close> is the random factor, \<open>0.5 \<le> r < 1.5\<close>.  The result is the
  pause in milliseconds.
\<close>

record ReconnectWaiter =
  rw_max :: real
  rw_current :: real

definition reconnect_waiter_new :: ReconnectWaiter where
  "reconnect_waiter_new = \<lparr>rw_max = 5000, rw_current = 50\<rparr>"

definition reconnect_wait :: "real \<Rightarrow> ReconnectWaiter \<Rightarrow> ReconnectWaiter \<times> nat" where
  "reconnect_wait r w =
     (let current = rw_current w * 2;
          current = (if current > rw_max w then rw_max w else current)
      in (w\<lparr>rw_current := current\<rparr>, nat \<lfloor>current * r\<rfloor>))"

fun reconnect_waits :: "real list \<Rightarrow> ReconnectWaiter \<Rightarrow> nat list" where
  "reconnect_waits [] w = []"
| "reconnect_waits (r # rs) w = (case reconnect_wait r w of (w', ms) \<Rightarrow> ms # reconnect_waits rs w')"

text \<open>The waiter after \<open>n\<close> pauses.\<close>

definition waiter_after :: "nat \<Rightarrow> ReconnectWaiter" where
  "waiter_after n = \<lparr>rw_max = 5000, rw_current = min 5000 (50 * 2 ^ n)\<rparr>"

lemma reconnect_wait_after:
  "reconnect_wait r (waiter_after n) = (waiter_after (Suc n), nat \<lfloor>min 5000 (50 * 2 ^ Suc n) * r\<rfloor>)"
  by (auto simp: reconnect_wait_def waiter_after_def min_def Let_def)

lemma waiter_after_0: "waiter_after 0 = reconnect_waiter_new"
  by (simp add: waiter_after_def reconnect_waiter_new_def)

lemma reconnect_waits_after:
  "reconnect_waits rs (waiter_after n) =
     map (\<lambda>(i, r). nat \<lfloor>min 5000 (50 * 2 ^ Suc (n + i)) * r\<rfloor>) (zip [0..<length rs] rs)"
proof (induction rs arbitrary: n)
  case (Cons r rs)
  have "zip [0..<length (r # rs)] (r # rs) = (0, r) # zip (map Suc [0..<length rs]) rs"
    by (simp add: upt_conv_Cons map_Suc_upt del: upt_Suc)
  then show ?case
    using Cons[of "Suc n"]
    by (simp add: reconnect_wait_after zip_map1 comp_def split_beta del: upt_Suc)
qed simp

section \<open>Properties\<close>

text \<open>
  C35: a stream never misses a reconnection.  Whatever the order of its \<open>get_updated\<close> calls and of
  the connections the loop publishes, also between the two steps of a \<open>get_updated\<close>, and however old
  the receiver was that it was cloned from: when it waits for the next connection, and when it gives
  up because the loop has ended, it holds the newest one.
\<close>

theorem newest_conn_held:
  assumes "seen \<le> wa_version w" and "watch_run (follow seen w) evs = Some s" and "\<not> fo_updating s"
  shows "(watch_step s Changed = None \<or> fo_failed s) \<longrightarrow> fo_held s = wa_value (fo_watch s)"
proof -
  have "watch_inv (follow seen w)" using assms(1) by (simp add: watch_inv_def follow_def shared_get_def)
  then have inv: "watch_inv s" using watch_inv_run assms(2) by blast
  then show ?thesis
    using assms(3)
    by (auto simp: watch_inv_def watch_changed_def split: if_splits option.splits prod.splits sum.splits)
qed

theorem newest_conn_held_witness:
  "\<exists>s. watch_run (follow 0 \<lparr>wa_value = 10 :: nat, wa_version = 3, wa_sender = True\<rparr>)
          [Changed, NewConn 11, Borrowed, Changed, Borrowed] = Some s \<and> fo_held s = wa_value (fo_watch s)"
proof -
  let ?w = "\<lparr>wa_value = 10 :: nat, wa_version = 3, wa_sender = True\<rparr>"
  let ?evs = "[Changed, NewConn 11, Borrowed, Changed, Borrowed]"
  obtain s where run: "watch_run (follow 0 ?w) ?evs = Some s" "\<not> fo_updating s" "watch_step s Changed = None"
    by (simp add: follow_def watch_changed_def watch_send_def shared_get_def)
  have "(0::nat) \<le> wa_version ?w" by simp
  from newest_conn_held[OF this run(1,2)] run(3) show ?thesis using run(1) by blast
qed

text \<open>
  A stream opened after a reconnection has a receiver that has not seen the connection it holds: its
  first \<open>get_updated\<close> returns the connection that it has just found disconnected.
\<close>

lemma first_update_repeats:
  assumes "seen \<noteq> wa_version w"
  shows "\<exists>s. watch_run (follow seen w) [Changed, Borrowed] = Some s \<and> fo_held s = shared_get w"
  using assms by (simp add: follow_def watch_changed_def)

text \<open>
  The pauses before the attempts to reconnect double from about 100 ms and stay below 7.5 s: the
  \<open>n\<close>th is between a half and one and a half of \<open>min 5000 (50 * 2 ^ n)\<close> milliseconds.
\<close>

theorem reconnect_waits_bounded:
  assumes "\<forall>r\<in>set rs. 1 / 2 \<le> r \<and> r < 3 / 2" and "n < length rs"
  shows "min 5000 (50 * 2 ^ Suc n) div 2 \<le> reconnect_waits rs reconnect_waiter_new ! n \<and>
         2 * (reconnect_waits rs reconnect_waiter_new ! n) < 3 * min 5000 (50 * 2 ^ Suc n) \<and>
         reconnect_waits rs reconnect_waiter_new ! n < 7500"
proof -
  define c :: nat where "c = min 5000 (50 * 2 ^ Suc n)"
  define ms where "ms = reconnect_waits rs reconnect_waiter_new ! n"
  have ms: "ms = nat \<lfloor>real c * rs ! n\<rfloor>"
    using assms(2) reconnect_waits_after[of rs 0]
    by (simp add: ms_def c_def waiter_after_0 of_nat_min del: power_Suc)
  have c: "100 \<le> c" "c \<le> 5000" by (simp_all add: c_def)
  have r: "1 / 2 \<le> rs ! n" "rs ! n < 3 / 2" using assms by auto
  have lower: "real c / 2 \<le> real c * rs ! n" and upper: "real c * rs ! n < real c * (3 / 2)"
    using mult_left_mono[OF r(1), of "real c"] mult_strict_left_mono[OF r(2), of "real c"] c by auto
  have "real ms \<le> real c * rs ! n" using lower by (simp add: ms)
  then have "real (2 * ms) < real (3 * c)" using upper by simp
  then have up: "2 * ms < 3 * c" by linarith
  have "real (c div 2) \<le> real c / real 2" by (rule of_nat_div_le_of_nat)
  then have "real (c div 2) \<le> real c * rs ! n" using lower by simp
  then have "c div 2 \<le> ms" by (simp add: ms le_nat_floor)
  with up c show ?thesis unfolding c_def[symmetric] ms_def[symmetric] by auto
qed

theorem reconnect_waits_bounded_witness:
  "min 5000 (50 * 2 ^ Suc 1) div 2 \<le> reconnect_waits [1, 1 / 2] reconnect_waiter_new ! 1 \<and>
   reconnect_waits [1, 1 / 2] reconnect_waiter_new ! 1 = 100"
  using reconnect_waits_bounded[of "[1, 1 / 2]" 1]
  by (simp add: reconnect_wait_def reconnect_waiter_new_def)

end
