(* ===== verification/Streams.thy ===== *)
theory Streams
  imports Framing
begin

text \<open>
  The incoming side of a QUIC or WebTransport connection (\<open>transport/quic.rs\<close>): the accept loop that
  starts one reading task for every stream the server opens, all of which put their messages into
  one channel, and the reader of that channel.
\<close>

section \<open>The reading tasks\<close>

text \<open>
  \<open>as_left\<close>: the bytes each stream's task has not passed on; \<open>as_channel\<close>: the messages in the
  channel, with the stream they came from; \<open>as_cancelled\<close>: the token of the connection's tasks.
\<close>

record Accepted =
  as_left :: "nat \<Rightarrow> bytes"
  as_channel :: "(nat \<times> bytes) list"
  as_cancelled :: bool

definition accepted_new :: Accepted where
  "accepted_new = \<lparr>as_left = (\<lambda>_. []), as_channel = [], as_cancelled = False\<rparr>"

text \<open>
  Bytes arrive on a stream; the client reads; the client closes its reader, which ends all tasks
  (what a task may still put into the channel after that is read by nobody, and left out).
\<close>

datatype StreamEvent = StreamBytes nat bytes | ReadMessage | CloseReader

definition stream_bytes :: "nat \<Rightarrow> bytes \<Rightarrow> Accepted \<Rightarrow> Accepted" where
  "stream_bytes i bs s =
     (if as_cancelled s then s
      else (case read_recv_stream (as_left s i @ bs) of
              (msgs, left) \<Rightarrow>
                s\<lparr>as_left := (as_left s)(i := left), as_channel := as_channel s @ map (Pair i) msgs\<rparr>))"

text \<open>\<open>None\<close>: nothing to read.\<close>

definition quic_read :: "bytes \<Rightarrow> Accepted \<Rightarrow> (Accepted \<times> nat \<times> bytes) option" where
  "quic_read buf s =
     (case as_channel s of
        [] \<Rightarrow> None
      | (i, msg) # rest \<Rightarrow> Some (s\<lparr>as_channel := rest\<rparr>, i, buf @ msg))"

definition quic_close_reader :: "Accepted \<Rightarrow> Accepted" where
  "quic_close_reader s = s\<lparr>as_cancelled := True\<rparr>"

text \<open>The messages read in a run, with their streams; the read loop reads into an empty buffer.\<close>

fun stream_run :: "StreamEvent list \<Rightarrow> Accepted \<Rightarrow> Accepted \<times> (nat \<times> bytes) list" where
  "stream_run [] s = (s, [])"
| "stream_run (StreamBytes i bs # evs) s = stream_run evs (stream_bytes i bs s)"
| "stream_run (ReadMessage # evs) s =
     (case quic_read [] s of
        None \<Rightarrow> stream_run evs s
      | Some (s', m) \<Rightarrow> (case stream_run evs s' of (s'', ms) \<Rightarrow> (s'', m # ms)))"
| "stream_run (CloseReader # evs) s = stream_run evs (quic_close_reader s)"

text \<open>What arrived on one stream before the reader was closed.\<close>

fun arrived :: "nat \<Rightarrow> StreamEvent list \<Rightarrow> bytes" where
  "arrived i [] = []"
| "arrived i (StreamBytes j bs # evs) = (if i = j then bs else []) @ arrived i evs"
| "arrived i (ReadMessage # evs) = arrived i evs"
| "arrived i (CloseReader # evs) = []"

definition of_stream :: "nat \<Rightarrow> (nat \<times> bytes) list \<Rightarrow> bytes list" where
  "of_stream i ms = map snd (filter (\<lambda>x. fst x = i) ms)"

lemma of_stream_simps [simp]:
  "of_stream i [] = []"
  "of_stream i (xs @ ys) = of_stream i xs @ of_stream i ys"
  "of_stream i ((j, m) # ms) = (if i = j then m # of_stream i ms else of_stream i ms)"
  "of_stream i (map (Pair j) msgs) = (if i = j then msgs else [])"
  by (auto simp: of_stream_def filter_map comp_def)

text \<open>No task has a whole message left.\<close>

definition drained :: "Accepted \<Rightarrow> bool" where
  "drained s \<longleftrightarrow> (\<forall>i. read_recv_stream (as_left s i) = ([], as_left s i))"

lemma read_recv_stream_again:
  "read_recv_stream bs = (msgs, left) \<Longrightarrow> read_recv_stream left = ([], left)"
  using read_recv_stream_append[of bs "[]"]
  by (cases "read_recv_stream left") auto

lemma stream_bytes_drained: "drained s \<Longrightarrow> drained (stream_bytes i bs s)"
  by (auto simp: drained_def stream_bytes_def read_recv_stream_again split: prod.splits)

lemma cancelled_run:
  "as_cancelled s \<Longrightarrow> of_stream i (snd (stream_run evs s)) @ of_stream i (as_channel (fst (stream_run evs s))) =
     of_stream i (as_channel s)"
proof (induction evs arbitrary: s)
  case (Cons ev evs)
  show ?case
  proof (cases ev)
    case ReadMessage
    then show ?thesis
      using Cons.prems Cons.IH[of "s\<lparr>as_channel := tl (as_channel s)\<rparr>"] Cons.IH[of s]
      by (auto simp: quic_read_def split: list.splits prod.splits)
  qed (use Cons in \<open>simp_all add: stream_bytes_def quic_close_reader_def\<close>)
qed simp

lemma stream_run_of_stream:
  "drained s \<Longrightarrow> \<not> as_cancelled s \<Longrightarrow>
   of_stream i (snd (stream_run evs s)) @ of_stream i (as_channel (fst (stream_run evs s))) =
     of_stream i (as_channel s) @ fst (read_recv_stream (as_left s i @ arrived i evs))"
proof (induction evs s rule: stream_run.induct)
  case (1 s)
  then show ?case by (simp add: drained_def)
next
  case (2 j bs evs s)
  obtain msgs left where r: "read_recv_stream (as_left s j @ bs) = (msgs, left)"
    by (cases "read_recv_stream (as_left s j @ bs)")
  have s': "stream_bytes j bs s = s\<lparr>as_left := (as_left s)(j := left), as_channel := as_channel s @ map (Pair j) msgs\<rparr>"
    using 2(3) r by (simp add: stream_bytes_def)
  have IH: "of_stream i (snd (stream_run evs (stream_bytes j bs s))) @ of_stream i (as_channel (fst (stream_run evs (stream_bytes j bs s)))) =
      of_stream i (as_channel (stream_bytes j bs s)) @ fst (read_recv_stream (as_left (stream_bytes j bs s) i @ arrived i evs))"
    by (rule 2(1)[OF stream_bytes_drained[OF 2(2)]]) (use 2(3) in \<open>simp add: s'\<close>)
  show ?case
    using IH read_recv_stream_append[of "as_left s j @ bs" "arrived i evs"] r
    by (auto simp: s')
next
  case (3 evs s)
  show ?case
  proof (cases "as_channel s")
    case Nil
    then show ?thesis using 3 by (simp add: quic_read_def)
  next
    case (Cons m rest)
    obtain j b where m: "m = (j, b)" by (cases m)
    have "drained (s\<lparr>as_channel := rest\<rparr>)" "\<not> as_cancelled (s\<lparr>as_channel := rest\<rparr>)"
      using 3(3,4) by (simp_all add: drained_def)
    then show ?thesis
      using 3(2)[of "(s\<lparr>as_channel := rest\<rparr>, j, b)" "s\<lparr>as_channel := rest\<rparr>" "(j, b)"] Cons m
      by (auto simp: quic_read_def split: prod.splits)
  qed
next
  case (4 evs s)
  then show ?case
    using cancelled_run[of "quic_close_reader s" i evs]
    by (simp add: quic_close_reader_def drained_def)
qed

section \<open>Properties\<close>

text \<open>
  C27: the streams of a connection do not disturb each other.  However their bytes are cut up and
  interleaved with one another and with the reads, the messages read that came from one stream,
  followed by those of it still in the channel, are exactly the messages that this stream's bytes
  contain, in order, up to the close of the reader.
\<close>

theorem streams_independent:
  "of_stream i (snd (stream_run evs accepted_new)) @ of_stream i (as_channel (fst (stream_run evs accepted_new))) =
     fst (read_recv_stream (arrived i evs))"
proof -
  have "drained accepted_new"
    by (simp add: drained_def accepted_new_def read_recv_stream_short)
  then show ?thesis
    using stream_run_of_stream[of accepted_new i evs] by (simp add: accepted_new_def)
qed

end
