(* ===== verification/Websocket.thy ===== *)
theory Websocket
  imports Byte_Path
begin

text \<open>
  The WebSocket transport (\<open>transport/websocket.rs\<close>): the reader, which takes binary messages,
  answers pings and skips the rest, the writer, which only queues, and the task that writes what is
  queued.  The WebSocket library is the items its stream yields and the outcomes of its sink.
\<close>

section \<open>The reader\<close>

datatype WsMessage = WsText string | WsBinary bytes | WsPing bytes | WsPong bytes | WsClose nat string

text \<open>
  What becomes of the pong that answers a ping: it is queued, the queue is closed or full for ten
  seconds, or the read is dropped while it waits for room, since the read loop takes a command.
\<close>

datatype PongSend = PongQueued | PongRefused | ReadDropped

datatype WsItem = WsItem WsMessage PongSend | WsError | WsEnd

text \<open>
  One call of \<open>read\<close>: the items left, the pongs queued, and the result.  \<open>None\<close>: no message yet,
  the stream has nothing more for now or the read was dropped.
\<close>

fun ws_read :: "WsItem list \<Rightarrow> bytes \<Rightarrow> WsItem list \<times> WsMessage list \<times> bytes res option" where
  "ws_read [] buf = ([], [], None)"
| "ws_read (WsError # items) buf = (items, [], Some (Inl (Transport '''')))"
| "ws_read (WsEnd # items) buf = (items, [], Some (Inl (Transport ''web socket stream closed'')))"
| "ws_read (WsItem msg pong # items) buf =
     (case msg of
        WsClose code reason \<Rightarrow> (items, [], Some (Inl (Transport ''web socket stream closed'')))
      | WsPing p \<Rightarrow>
          (case pong of
             PongQueued \<Rightarrow> (case ws_read items buf of (rest, pongs, r) \<Rightarrow> (rest, WsPong p # pongs, r))
           | PongRefused \<Rightarrow>
               (items, [], Some (Inl (Transport ''websocket write task closed or timeout, cannot send pong'')))
           | ReadDropped \<Rightarrow> (items, [], None))
      | WsBinary bin \<Rightarrow> (items, [], Some (Inr (buf @ bin)))
      | _ \<Rightarrow> ws_read items buf)"

lemma ws_read_length: "length (fst (ws_read items buf)) \<le> length items - 1"
  by (induction items buf rule: ws_read.induct)
     (auto split: WsMessage.splits PongSend.splits prod.splits)

lemma ws_read_shorter: "(rest, out) = ws_read items buf \<Longrightarrow> items \<noteq> [] \<Longrightarrow> length rest < length items"
  using ws_read_length[of items buf] by (cases "ws_read items buf"; cases items) (auto simp del: ws_read.simps)

text \<open>
  The calls the read loop makes, each with an empty buffer, up to the first error: the messages and
  the pongs, and whether it met an error.
\<close>

function ws_reads :: "WsItem list \<Rightarrow> bytes list \<times> WsMessage list \<times> bool" where
  "ws_reads items =
     (if items = [] then ([], [], False)
      else (case ws_read items [] of
              (rest, pongs, None) \<Rightarrow>
                (case ws_reads rest of (msgs, pongs', e) \<Rightarrow> (msgs, pongs @ pongs', e))
            | (rest, pongs, Some (Inl err)) \<Rightarrow> ([], pongs, True)
            | (rest, pongs, Some (Inr buf)) \<Rightarrow>
                (case ws_reads rest of (msgs, pongs', e) \<Rightarrow> (buf # msgs, pongs @ pongs', e))))"
  by pat_completeness auto

termination
  by (relation "measure length") (auto simp del: ws_read.simps dest!: ws_read_shorter)

declare ws_reads.simps [simp del]

text \<open>What a stream of items carries, without the loops.\<close>

fun ws_live :: "WsItem \<Rightarrow> bool" where
  "ws_live (WsItem (WsClose _ _) _) = False"
| "ws_live (WsItem (WsPing _) pong) = (pong \<noteq> PongRefused)"
| "ws_live (WsItem _ _) = True"
| "ws_live _ = False"

fun ws_payload :: "WsItem \<Rightarrow> bytes list" where
  "ws_payload (WsItem (WsBinary b) _) = [b]"
| "ws_payload _ = []"

fun ws_answer :: "WsItem \<Rightarrow> WsMessage list" where
  "ws_answer (WsItem (WsPing p) PongQueued) = [WsPong p]"
| "ws_answer _ = []"

definition ws_content :: "WsItem list \<Rightarrow> bytes list \<times> WsMessage list \<times> bool" where
  "ws_content items =
     (let live = takeWhile ws_live items in
      (concat (map ws_payload live), concat (map ws_answer live), length live < length items))"

lemma ws_content_Nil [simp]: "ws_content [] = ([], [], False)"
  by (simp add: ws_content_def)

lemma ws_content_Cons:
  "ws_content (x # items) =
     (if ws_live x then (case ws_content items of (msgs, pongs, e) \<Rightarrow> (ws_payload x @ msgs, ws_answer x @ pongs, e))
      else ([], [], True))"
  by (simp add: ws_content_def Let_def)

text \<open>One call takes its part of the content.\<close>

lemma ws_read_content:
  "items \<noteq> [] \<Longrightarrow>
   ws_content items =
     (case ws_read items [] of
        (rest, pongs, None) \<Rightarrow> (case ws_content rest of (msgs, pongs', e) \<Rightarrow> (msgs, pongs @ pongs', e))
      | (rest, pongs, Some (Inl err)) \<Rightarrow> ([], pongs, True)
      | (rest, pongs, Some (Inr buf)) \<Rightarrow> (case ws_content rest of (msgs, pongs', e) \<Rightarrow> (buf # msgs, pongs @ pongs', e)))"
proof (induction items)
  case (Cons x items)
  show ?case
  proof (cases "items = []")
    case True
    then show ?thesis
      by (cases x rule: ws_live.cases) (auto simp: ws_content_Cons split: PongSend.splits)
  next
    case False
    from Cons.IH[OF False] show ?thesis
      by (cases x rule: ws_live.cases)
         (auto simp: ws_content_Cons split: PongSend.splits prod.splits option.splits sum.splits)
  qed
qed simp

section \<open>The writer and its task\<close>

text \<open>
  \<open>ws_task\<close>: the task that writes has not ended; when it ends the queue is dropped.  \<open>ws_sent\<close> is
  what the sink took and flushed.
\<close>

record WsWriter =
  ws_queue :: "WsMessage list"
  ws_task :: bool
  ws_sent :: "WsMessage list"

definition ws_writer_new :: WsWriter where
  "ws_writer_new = \<lparr>ws_queue = [], ws_task = True, ws_sent = []\<rparr>"

definition ws_enqueue :: "WsMessage \<Rightarrow> WsWriter \<Rightarrow> WsWriter \<times> unit res" where
  "ws_enqueue msg w =
     (if ws_task w then (w\<lparr>ws_queue := ws_queue w @ [msg]\<rparr>, Inr ())
      else (w, Inl (Transport ''websocket write task closed'')))"

definition ws_write :: "bytes \<Rightarrow> WsWriter \<Rightarrow> WsWriter \<times> unit res" where
  "ws_write data w = ws_enqueue (WsBinary data) w"

definition ws_close :: "WsWriter \<Rightarrow> WsWriter \<times> unit res" where
  "ws_close w = ws_enqueue (WsClose 1000 ''OK'') w"

datatype SinkOutcome = SinkOk | SinkSendFails | SinkFlushFails

definition ws_task_turn :: "SinkOutcome \<Rightarrow> WsWriter \<Rightarrow> WsWriter" where
  "ws_task_turn outcome w =
     (if \<not> ws_task w then w
      else (case ws_queue w of
              [] \<Rightarrow> w
            | msg # queue \<Rightarrow>
                (if outcome = SinkOk then w\<lparr>ws_queue := queue, ws_sent := ws_sent w @ [msg]\<rparr>
                 else w\<lparr>ws_queue := [], ws_task := False\<rparr>)))"

text \<open>A pong comes from the reader, through the same queue.\<close>

datatype WsWriteEvent = WsWrite bytes | WsWriteClose | WsSendPong bytes | WsTurn SinkOutcome

fun ws_event :: "WsWriteEvent \<Rightarrow> WsWriter \<Rightarrow> WsWriter \<times> unit res option" where
  "ws_event (WsWrite data) w = map_prod id Some (ws_write data w)"
| "ws_event WsWriteClose w = map_prod id Some (ws_close w)"
| "ws_event (WsSendPong p) w = (fst (ws_enqueue (WsPong p) w), None)"
| "ws_event (WsTurn outcome) w = (ws_task_turn outcome w, None)"

text \<open>The writes that returned \<open>Ok\<close>, up to a close.\<close>

fun ws_written :: "WsWriteEvent list \<Rightarrow> WsWriter \<Rightarrow> WsWriter \<times> WsMessage list" where
  "ws_written [] w = (w, [])"
| "ws_written (ev # evs) w =
     (case ws_event ev w of (w', r) \<Rightarrow>
      case ws_written evs w' of (w'', acc) \<Rightarrow>
        (w'', (case ev of
                 WsWrite data \<Rightarrow> if r = Some (Inr ()) then [WsBinary data] else []
               | WsWriteClose \<Rightarrow> if r = Some (Inr ()) then [WsClose 1000 ''OK''] else []
               | WsSendPong p \<Rightarrow> if ws_task w then [WsPong p] else []
               | WsTurn outcome \<Rightarrow> []) @ acc))"

lemma ws_written_queue:
  "ws_written evs w = (w', acc) \<Longrightarrow>
     (\<exists>lost. ws_sent w @ ws_queue w @ acc = ws_sent w' @ ws_queue w' @ lost \<and>
        (ws_task w' \<longrightarrow> lost = []) \<and> (\<not> ws_task w \<longrightarrow> \<not> ws_task w' \<and> acc = []))"
proof (induction evs arbitrary: w acc)
  case (Cons ev evs)
  obtain w1 r where ev: "ws_event ev w = (w1, r)" by (cases "ws_event ev w")
  obtain acc1 where run: "ws_written evs w1 = (w', acc1)"
    using Cons.prems ev by (auto split: prod.splits)
  obtain lost where IH: "ws_sent w1 @ ws_queue w1 @ acc1 = ws_sent w' @ ws_queue w' @ lost"
    "ws_task w' \<longrightarrow> lost = []" "\<not> ws_task w1 \<longrightarrow> \<not> ws_task w' \<and> acc1 = []"
    using Cons.IH[OF run] by blast
  show ?case
  proof (cases "ws_task w")
    case False
    then show ?thesis
      using Cons.prems ev run IH
      by (cases ev) (auto simp: ws_write_def ws_close_def ws_enqueue_def ws_task_turn_def)
  next
    case task: True
    show ?thesis
    proof (cases ev)
      case (WsTurn outcome)
      then show ?thesis
        using Cons.prems ev run IH task
        by (cases "ws_queue w"; cases "outcome = SinkOk") (auto simp: ws_task_turn_def)
    qed (use Cons.prems ev run IH task in \<open>auto simp: ws_write_def ws_close_def ws_enqueue_def\<close>)
  qed
qed simp

lemma ws_reads_eq: "ws_reads items = ws_content items"
proof (induction items rule: ws_reads.induct)
  case (1 items)
  show ?case
  proof (cases "items = []")
    case True
    then show ?thesis by (simp add: ws_reads.simps)
  next
    case False
    obtain rest pongs r where read: "ws_read items [] = (rest, pongs, r)" by (cases "ws_read items []")
    show ?thesis
    proof (cases r)
      case None
      with 1(1)[OF False read[symmetric] refl] show ?thesis
        by (subst ws_reads.simps) (simp add: False read ws_read_content)
    next
      case (Some res)
      show ?thesis
      proof (cases res)
        case (Inl e)
        then show ?thesis
          by (subst ws_reads.simps) (simp add: False read Some ws_read_content)
      next
        case (Inr buf)
        have "ws_reads rest = ws_content rest"
          using 1(2)[OF False read[symmetric] refl] Some Inr by blast
        then show ?thesis
          by (subst ws_reads.simps) (simp add: False read Some Inr ws_read_content)
      qed
    qed
  qed
qed

section \<open>Properties\<close>

text \<open>
  The calls of \<open>read\<close> take the stream apart as it should be: the binary payloads in order, one
  message each, up to the first close frame, error or refused pong; text and pong frames are
  skipped; every ping before that point is answered once, in order, unless its read was dropped.
\<close>

theorem websocket_reads_content: "ws_reads items = ws_content items"
  by (rule ws_reads_eq)

text \<open>The items the peer's stream yields for what was sent, with room for its pongs.\<close>

definition ws_items :: "WsMessage list \<Rightarrow> WsItem list" where
  "ws_items msgs = map (\<lambda>m. WsItem m PongQueued) msgs"

definition ws_got :: "WsMessage list \<Rightarrow> bytes list" where
  "ws_got sent = fst (ws_reads (ws_items sent))"

lemma ws_got_append: "\<exists>more. ws_got (xs @ ys) = ws_got xs @ more"
proof (induction xs)
  case Nil
  then show ?case by (simp add: ws_got_def ws_reads_eq ws_items_def)
next
  case (Cons x xs)
  then show ?case
    by (auto simp: ws_got_def ws_reads_eq ws_items_def ws_content_Cons split: prod.splits)
qed

lemma ws_got_binary: "ws_got (map WsBinary ms) = ms"
  by (induction ms) (auto simp: ws_got_def ws_reads_eq ws_items_def ws_content_Cons split: prod.splits)

definition ws_put :: "bytes list \<Rightarrow> WsMessage list" where
  "ws_put ms = ws_sent (fold (\<lambda>m w. ws_task_turn SinkOk (fst (ws_write m w))) ms ws_writer_new)"

lemma ws_put_binary: "ws_put ms = map WsBinary ms"
proof -
  have "ws_task w \<Longrightarrow> ws_queue w = [] \<Longrightarrow>
      ws_sent (fold (\<lambda>m w. ws_task_turn SinkOk (fst (ws_write m w))) ms w) = ws_sent w @ map WsBinary ms" for w
    by (induction ms arbitrary: w) (auto simp: ws_write_def ws_enqueue_def ws_task_turn_def)
  then show ?thesis by (simp add: ws_put_def ws_writer_new_def)
qed

interpretation ws: message_transport ws_put ws_got "\<lambda>_. True"
  by unfold_locales (simp add: ws_put_binary ws_got_binary)

text \<open>
  C28: whatever is interleaved in the queue of a WebSocket connection (messages, pongs, the close
  frame) and whenever its task fails, the peer's reader gets a prefix of the messages that were
  accepted, unchanged and in order, and all of them while the task lives and its queue is empty.
\<close>

theorem websocket_delivers_prefix:
  assumes "ws_written evs ws_writer_new = (w, accepted)"
  shows "\<exists>lost. ws_got accepted = ws_got (ws_sent w) @ lost \<and> (ws_task w \<and> ws_queue w = [] \<longrightarrow> lost = [])"
proof -
  obtain lost where lost: "accepted = ws_sent w @ ws_queue w @ lost" "ws_task w \<longrightarrow> lost = []"
    using ws_written_queue[OF assms] by (auto simp: ws_writer_new_def)
  show ?thesis
  proof (cases "ws_task w \<and> ws_queue w = []")
    case True
    then show ?thesis using lost by simp
  next
    case False
    then show ?thesis using lost ws_got_append by metis
  qed
qed

theorem websocket_delivers_prefix_witness:
  "ws_written [WsWrite [1], WsSendPong [9], WsWrite [2], WsTurn SinkOk, WsTurn SinkOk, WsTurn SinkFlushFails, WsWrite [3]] ws_writer_new =
     (\<lparr>ws_queue = [], ws_task = False, ws_sent = [WsBinary [1], WsPong [9]]\<rparr>, [WsBinary [1], WsPong [9], WsBinary [2]]) \<and>
   (\<exists>lost. ws_got [WsBinary [1], WsPong [9], WsBinary [2]] = ws_got [WsBinary [1], WsPong [9]] @ lost)"
proof -
  let ?evs = "[WsWrite [1], WsSendPong [9], WsWrite [2], WsTurn SinkOk, WsTurn SinkOk, WsTurn SinkFlushFails, WsWrite [3]]"
  have "ws_written ?evs ws_writer_new =
      (\<lparr>ws_queue = [], ws_task = False, ws_sent = [WsBinary [1], WsPong [9]]\<rparr>, [WsBinary [1], WsPong [9], WsBinary [2]])"
    by (simp add: ws_writer_new_def ws_write_def ws_enqueue_def ws_task_turn_def)
  from this websocket_delivers_prefix[OF this] show ?thesis by auto
qed

text \<open>The byte path of a connection over a WebSocket.\<close>

lemma websocket_round_trip:
  assumes "converters fl fl' settings = Some (c, e)" and "lossless fl fl'"
    and "\<And>m b. encode m = Inr b \<Longrightarrow> decode b = Inr m"
    and "write_loop encode fl evs \<lparr>wl_compressor = c, wl_written = []\<rparr> = Some w"
  shows "\<exists>k. read_turns decode fl' (ws_got (ws_put (wl_written w))) e =
           Some (Inr (take k (sendable encode (queued evs))))"
  using ws.path_round_trip [where encode = encode and decode = decode, OF assms] by (auto simp: list_all_iff)

text \<open>A pong is lost when the read is dropped while it waits for room in the queue.\<close>

lemma dropped_read_loses_pong:
  "ws_reads [WsItem (WsPing p) ReadDropped, WsItem (WsBinary b) PongQueued] = ([b], [], False)"
  by (simp add: ws_reads_eq ws_content_def)

end
