(* ===== verification/Tls.thy ===== *)
theory Tls
  imports Errors
begin

text \<open>
  The choice of a TLS configuration (\<open>transport/tls.rs\<close> and the parts of the three connectors that
  use it): which certificates are checked, which are presented.  The rustls library is a record of
  functions: what its PEM parser finds, which keys, roots and client certificates it accepts.
  The text of its errors is left empty.
\<close>

section \<open>The library\<close>

record ('c, 'k) Rustls =
  rl_pem_certs :: "bytes \<Rightarrow> 'c option list"
  rl_der_cert :: "bytes \<Rightarrow> 'c"
  rl_pem_key :: "bytes \<Rightarrow> 'k option"
  rl_der_key :: "bytes \<Rightarrow> 'k option"
  rl_native_certs :: "'c list"
  rl_add_root :: "'c \<Rightarrow> bool"
  rl_versions :: bool
  rl_client_auth :: "'c list \<Rightarrow> 'k \<Rightarrow> bool"

datatype 'c Verifier = SkipServerVerification | RootCerts "'c list"

record ('c, 'k) ClientConfig =
  cc_verifier :: "'c Verifier"
  cc_client_auth :: "('c list \<times> 'k) option"
  cc_alpn :: "string list"

section \<open>Certificates\<close>

datatype Certificate = Pem bytes | Der bytes

definition into_rustls_cert :: "('c, 'k) Rustls \<Rightarrow> Certificate \<Rightarrow> 'c list res" where
  "into_rustls_cert lib cert =
     (case cert of
        Pem pem \<Rightarrow>
          (let certs = List.map_filter id (rl_pem_certs lib pem)
           in if certs = [] then Inl (Transport ''invalid pem data'') else Inr certs)
      | Der der \<Rightarrow> Inr [rl_der_cert lib der])"

definition into_rustls_key :: "('c, 'k) Rustls \<Rightarrow> Certificate \<Rightarrow> 'k res" where
  "into_rustls_key lib key =
     (case key of
        Pem pem \<Rightarrow> (case rl_pem_key lib pem of Some k \<Rightarrow> Inr k | None \<Rightarrow> Inl (Transport ''no key found''))
      | Der der \<Rightarrow> (case rl_der_key lib der of Some k \<Rightarrow> Inr k | None \<Rightarrow> Inl (Transport '''')))"

definition load_native_certs :: "('c, 'k) Rustls \<Rightarrow> 'c list res" where
  "load_native_certs lib =
     (if rl_native_certs lib = [] then Inl (Transport ''cannot get any native certificate'')
      else Inr (rl_native_certs lib))"

text \<open>The callers wrap the error once more, which puts its text behind the prefix of its display.\<close>

definition wrap_transport :: "'a res \<Rightarrow> 'a res" where
  "wrap_transport r =
     (case r of Inl (Transport s) \<Rightarrow> Inl (Transport (''transport error: '' @ s)) | _ \<Rightarrow> r)"

fun add_roots :: "('c, 'k) Rustls \<Rightarrow> 'c list \<Rightarrow> 'c list \<Rightarrow> 'c list res" where
  "add_roots lib roots [] = Inr roots"
| "add_roots lib roots (c # cs) =
     (if rl_add_root lib c then add_roots lib (roots @ [c]) cs else Inl (Transport ''''))"

definition native_roots :: "('c, 'k) Rustls \<Rightarrow> 'c list res" where
  "native_roots lib = res_bind (wrap_transport (load_native_certs lib)) (add_roots lib [])"

section \<open>The configuration\<close>

definition client_auth :: "('c, 'k) Rustls \<Rightarrow> (Certificate \<times> Certificate) option \<Rightarrow> ('c list \<times> 'k) option res" where
  "client_auth lib auth =
     (case auth of
        None \<Rightarrow> Inr None
      | Some (cert, key) \<Rightarrow>
          res_bind (into_rustls_cert lib cert) (\<lambda>c.
          res_bind (into_rustls_key lib key) (\<lambda>k. Inr (Some (c, k)))))"

definition with_auth ::
  "('c, 'k) Rustls \<Rightarrow> 'c Verifier \<Rightarrow> ('c list \<times> 'k) option \<Rightarrow> ('c, 'k) ClientConfig res" where
  "with_auth lib verifier auth =
     (if \<not> rl_versions lib then Inl (Transport '''')
      else case auth of
             None \<Rightarrow> Inr \<lparr>cc_verifier = verifier, cc_client_auth = None, cc_alpn = []\<rparr>
           | Some (c, k) \<Rightarrow>
               if rl_client_auth lib c k
               then Inr \<lparr>cc_verifier = verifier, cc_client_auth = Some (c, k), cc_alpn = []\<rparr>
               else Inl (Transport ''''))"

definition rustls_config_client ::
  "('c, 'k) Rustls \<Rightarrow> bool \<Rightarrow> (Certificate \<times> Certificate) option \<Rightarrow> ('c, 'k) ClientConfig option res" where
  "rustls_config_client lib skip auth =
     res_bind (client_auth lib auth) (\<lambda>auth.
       if skip then res_bind (with_auth lib SkipServerVerification auth) (\<lambda>c. Inr (Some c))
       else case auth of
              Some a \<Rightarrow>
                res_bind (native_roots lib) (\<lambda>roots.
                res_bind (with_auth lib (RootCerts roots) (Some a)) (\<lambda>c. Inr (Some c)))
            | None \<Rightarrow> Inr None)"

section \<open>What the connectors make of it\<close>

text \<open>QUIC (\<open>configure_client\<close>) fills in the native roots itself, and sets its protocol name.\<close>

definition quic_tls ::
  "('c, 'k) Rustls \<Rightarrow> bool \<Rightarrow> (Certificate \<times> Certificate) option \<Rightarrow> ('c, 'k) ClientConfig res" where
  "quic_tls lib skip auth =
     res_bind (rustls_config_client lib skip auth) (\<lambda>config.
     res_bind (case config of
                 Some c \<Rightarrow> Inr c
               | None \<Rightarrow>
                   res_bind (native_roots lib) (\<lambda>roots.
                   Inr \<lparr>cc_verifier = RootCerts roots, cc_client_auth = None, cc_alpn = []\<rparr>)) (\<lambda>c.
     Inr (c\<lparr>cc_alpn := [''iscp'']\<rparr>)))"

text \<open>
  WebTransport: the library's configuration without validation, a configuration of its own, or the
  library's default.  \<open>None\<close> is the panic of the \<open>unwrap\<close>.
\<close>

datatype ('c, 'k) WtConfig = WtNoCertValidation | WtCustomTls "('c, 'k) ClientConfig" | WtDefault

definition webtransport_tls ::
  "('c, 'k) Rustls \<Rightarrow> bool \<Rightarrow> (Certificate \<times> Certificate) option \<Rightarrow> ('c, 'k) WtConfig res option" where
  "webtransport_tls lib skip auth =
     (if skip then Some (Inr WtNoCertValidation)
      else if auth \<noteq> None then
        (case rustls_config_client lib False auth of
           Inl e \<Rightarrow> Some (Inl e)
         | Inr None \<Rightarrow> None
         | Inr (Some c) \<Rightarrow> Some (Inr (WtCustomTls (c\<lparr>cc_alpn := [''h3'']\<rparr>))))
      else Some (Inr WtDefault))"

section \<open>Properties\<close>

lemma with_auth_Inr:
  "with_auth lib v auth = Inr c \<Longrightarrow> c = \<lparr>cc_verifier = v, cc_client_auth = auth, cc_alpn = []\<rparr>"
  by (auto simp: with_auth_def split: if_splits option.splits prod.splits)

lemma add_roots_Inr: "add_roots lib roots cs = Inr r \<Longrightarrow> r = roots @ cs"
  by (induction cs arbitrary: roots) (fastforce split: if_splits)+

lemma native_roots_Inr: "native_roots lib = Inr r \<Longrightarrow> r = rl_native_certs lib \<and> r \<noteq> []"
  by (auto simp: native_roots_def wrap_transport_def load_native_certs_def dest: add_roots_Inr split: if_splits)

lemma client_auth_None: "client_auth lib auth = Inr None \<longleftrightarrow> auth = None"
  by (auto simp: client_auth_def res_binds split: option.splits prod.splits)

lemma rustls_config_client_Inr:
  assumes "rustls_config_client lib skip auth = Inr config"
  shows "\<exists>a. client_auth lib auth = Inr a \<and>
     config = (if skip then Some \<lparr>cc_verifier = SkipServerVerification, cc_client_auth = a, cc_alpn = []\<rparr>
               else if auth = None then None
               else Some \<lparr>cc_verifier = RootCerts (rl_native_certs lib), cc_client_auth = a, cc_alpn = []\<rparr>)"
proof -
  obtain a where a: "client_auth lib auth = Inr a"
    using assms by (auto simp: rustls_config_client_def res_bind_Inr)
  have auth: "a = None \<longleftrightarrow> auth = None" using a client_auth_None by (metis sum.inject(2))
  show ?thesis
    using assms a auth
    by (cases a) (auto simp: rustls_config_client_def res_bind_Inr dest!: with_auth_Inr native_roots_Inr split: if_splits)
qed

lemma quic_tls_settings:
  assumes "quic_tls lib skip auth = Inr c"
  shows "cc_verifier c = (if skip then SkipServerVerification else RootCerts (rl_native_certs lib)) \<and>
         (skip \<or> rl_native_certs lib \<noteq> []) \<and>
         client_auth lib auth = Inr (cc_client_auth c) \<and> cc_alpn c = [''iscp'']"
proof -
  obtain config c' where config: "rustls_config_client lib skip auth = Inr config"
    and c: "c = c'\<lparr>cc_alpn := [''iscp'']\<rparr>"
    and c': "(case config of Some c \<Rightarrow> Inr c
       | None \<Rightarrow> res_bind (native_roots lib) (\<lambda>roots.
           Inr \<lparr>cc_verifier = RootCerts roots, cc_client_auth = None, cc_alpn = []\<rparr>)) = Inr c'"
    using assms by (auto simp: quic_tls_def res_bind_Inr)
  obtain a where a: "client_auth lib auth = Inr a"
    and eq: "config = (if skip then Some \<lparr>cc_verifier = SkipServerVerification, cc_client_auth = a, cc_alpn = []\<rparr>
               else if auth = None then None
               else Some \<lparr>cc_verifier = RootCerts (rl_native_certs lib), cc_client_auth = a, cc_alpn = []\<rparr>)"
    using rustls_config_client_Inr[OF config] by blast
  have "skip \<or> rl_native_certs lib \<noteq> []"
    using config c' eq
    by (auto simp: rustls_config_client_def res_bind_Inr split: if_splits option.splits dest!: native_roots_Inr)
  then show ?thesis
    using c c' a eq client_auth_None[of lib auth]
    by (auto simp: res_bind_Inr split: if_splits dest!: native_roots_Inr)
qed

text \<open>
  A QUIC connection checks the server against the native certificates (at least one) unless
  told to skip the check, and presents exactly the client certificate and key it was given; with
  them unreadable it is not configured at all.
\<close>

theorem quic_tls_honours_settings:
  assumes "quic_tls lib skip auth = Inr c"
  shows "cc_verifier c = (if skip then SkipServerVerification else RootCerts (rl_native_certs lib)) \<and>
         (skip \<or> rl_native_certs lib \<noteq> []) \<and>
         client_auth lib auth = Inr (cc_client_auth c) \<and> cc_alpn c = [''iscp'']"
  using quic_tls_settings[OF assms] .

definition some_lib :: "(nat, nat) Rustls" where
  "some_lib = \<lparr>rl_pem_certs = (\<lambda>b. [None, Some (length b)]), rl_der_cert = length, rl_pem_key = (\<lambda>b. None),
     rl_der_key = (\<lambda>b. Some (length b)), rl_native_certs = [1, 2], rl_add_root = (\<lambda>c. True),
     rl_versions = True, rl_client_auth = (\<lambda>c k. True)\<rparr>"

theorem quic_tls_honours_settings_witness:
  "quic_tls some_lib False (Some (Pem [1, 2, 3], Der [7])) =
     Inr \<lparr>cc_verifier = RootCerts [1, 2], cc_client_auth = Some ([3], 1), cc_alpn = [''iscp'']\<rparr> \<and>
   client_auth some_lib (Some (Pem [1, 2, 3], Der [7])) = Inr (Some ([3], 1))"
proof -
  let ?c = "\<lparr>cc_verifier = RootCerts [1, 2], cc_client_auth = Some ([3], 1), cc_alpn = [''iscp'']\<rparr> :: (nat, nat) ClientConfig"
  have "quic_tls some_lib False (Some (Pem [1, 2, 3], Der [7])) = Inr ?c" by code_simp
  from this quic_tls_honours_settings[OF this] show ?thesis by simp
qed

text \<open>
  A WebTransport connection never panics when it is configured, and does as a QUIC connection does,
  except that a client certificate is silently left out when the check of the server is skipped.
\<close>

lemma webtransport_drops_client_auth:
  "webtransport_tls lib skip auth \<noteq> None"
  "webtransport_tls lib True (Some a) = Some (Inr WtNoCertValidation)"
  "webtransport_tls lib skip auth = Some (Inr (WtCustomTls c)) \<Longrightarrow>
     \<not> skip \<and> client_auth lib auth = Inr (cc_client_auth c) \<and> cc_verifier c = RootCerts (rl_native_certs lib)"
  using rustls_config_client_Inr[of lib False auth]
  by (fastforce simp: webtransport_tls_def split: if_splits sum.splits option.splits)+

end
