(* ===== verification/Connectors.thy ===== *)
theory Connectors
  imports Tls Framing Negotiation
begin

text \<open>
  The connectors (\<open>transport/quic.rs\<close>, \<open>transport/webtransport.rs\<close>, \<open>transport/websocket.rs\<close>): their
  settings, and what \<open>connect\<close> does between the calls of the libraries.  A library call is a field of
  an environment: its outcome, for the arguments it is given.
\<close>

section \<open>Addresses\<close>

datatype IpAddr = V4 "32 word" | V6 "128 word"

record SocketAddr =
  sa_ip :: IpAddr
  sa_port :: u16

definition is_ipv6 :: "SocketAddr \<Rightarrow> bool" where
  "is_ipv6 a = (case sa_ip a of V6 _ \<Rightarrow> True | V4 _ \<Rightarrow> False)"

section \<open>\<open>QuicConnector\<close>\<close>

text \<open>The bits of an \<open>f32\<close> are a word.  A controller is the library's, with what is set in it.\<close>

datatype CongestionConfig =
  CongestionDefault | Bbr "u64 option" | Cubic "u64 option" | NewReno "u64 option" "32 word option"

datatype Controller =
  BbrController "u64 option" | CubicController "u64 option" | NewRenoController "u64 option" "32 word option"

definition set_factory :: "CongestionConfig \<Rightarrow> Controller option \<Rightarrow> Controller option" where
  "set_factory c current =
     (case c of
        CongestionDefault \<Rightarrow> current
      | Bbr window \<Rightarrow> Some (BbrController window)
      | Cubic window \<Rightarrow> Some (CubicController window)
      | NewReno window factor \<Rightarrow> Some (NewRenoController window factor))"

record QuicConnector =
  qc_host :: string
  qc_port :: u16
  qc_addr :: "IpAddr option"
  qc_bind_addr :: "SocketAddr option"
  qc_max_datagram_size :: "nat option"
  qc_datagram_send_buffer_size :: "nat option"
  qc_timeout :: nat
  qc_congestion_config :: CongestionConfig
  qc_skip_server_verification :: bool
  qc_client_auth :: "(Certificate \<times> Certificate) option"

definition quic_connector_new :: "string \<Rightarrow> u16 \<Rightarrow> QuicConnector" where
  "quic_connector_new host port =
     \<lparr>qc_host = host, qc_port = port, qc_addr = None, qc_bind_addr = None, qc_max_datagram_size = None,
      qc_datagram_send_buffer_size = None, qc_timeout = 10 * 10 ^ 9,
      qc_congestion_config = CongestionDefault, qc_skip_server_verification = False,
      qc_client_auth = None\<rparr>"

datatype QuicSetting =
  QAddr "IpAddr option" | QBindAddr "SocketAddr option" | QMaxDatagramSize "nat option"
| QDatagramSendBufferSize "nat option" | QTimeout nat
| QCongestionConfig CongestionConfig | QSkipServerVerification bool
| QClientAuth "(Certificate \<times> Certificate) option"

definition quic_set :: "QuicSetting \<Rightarrow> QuicConnector \<Rightarrow> QuicConnector" where
  "quic_set s c =
     (case s of
        QAddr a \<Rightarrow> c\<lparr>qc_addr := a\<rparr>
      | QBindAddr a \<Rightarrow> c\<lparr>qc_bind_addr := a\<rparr>
      | QMaxDatagramSize n \<Rightarrow> c\<lparr>qc_max_datagram_size := n\<rparr>
      | QDatagramSendBufferSize n \<Rightarrow> c\<lparr>qc_datagram_send_buffer_size := n\<rparr>
      | QTimeout t \<Rightarrow> c\<lparr>qc_timeout := t\<rparr>
      | QCongestionConfig g \<Rightarrow> c\<lparr>qc_congestion_config := g\<rparr>
      | QSkipServerVerification b \<Rightarrow> c\<lparr>qc_skip_server_verification := b\<rparr>
      | QClientAuth a \<Rightarrow> c\<lparr>qc_client_auth := a\<rparr>)"

text \<open>
  The transport settings: idle timeout (the library takes durations up to some bound), no keep
  alive, the datagram buffer where it is configured, and the congestion controller.
\<close>

record ('c, 'k) QuicConfig =
  qf_tls :: "('c, 'k) ClientConfig"
  qf_send_buffer :: "nat option"
  qf_idle_timeout :: "nat option"
  qf_keep_alive :: "nat option"
  qf_congestion :: "Controller option"

definition configure_client ::
  "('c, 'k) Rustls \<Rightarrow> (nat \<Rightarrow> bool) \<Rightarrow> QuicConnector \<Rightarrow> ('c, 'k) QuicConfig res" where
  "configure_client lib idle_ok c =
     res_bind (quic_tls lib (qc_skip_server_verification c) (qc_client_auth c)) (\<lambda>tls.
       if \<not> idle_ok (qc_timeout c) then Inl (Transport '''')
       else Inr \<lparr>qf_tls = tls, qf_send_buffer = qc_datagram_send_buffer_size c,
                 qf_idle_timeout = Some (qc_timeout c), qf_keep_alive = None,
                 qf_congestion = set_factory (qc_congestion_config c) None\<rparr>)"

record ('c, 'k) QuicEnv =
  qe_rustls :: "('c, 'k) Rustls"
  qe_idle_ok :: "nat \<Rightarrow> bool"
  qe_lookup_host :: "string \<Rightarrow> SocketAddr list res"
  qe_endpoint :: "SocketAddr \<Rightarrow> unit res"
  qe_connect :: "('c, 'k) QuicConfig \<Rightarrow> SocketAddr \<Rightarrow> string \<Rightarrow> unit res"
  qe_max_datagram_size :: "nat option"
  qe_open_uni :: "nat \<Rightarrow> unit res"
  qe_write_all :: "bytes \<Rightarrow> unit res"
  qe_finish :: "unit res"

definition resolve :: "('c, 'k) QuicEnv \<Rightarrow> QuicConnector \<Rightarrow> SocketAddr res" where
  "resolve env c =
     (case qc_addr c of
        Some ip \<Rightarrow> Inr \<lparr>sa_ip = ip, sa_port = qc_port c\<rparr>
      | None \<Rightarrow>
          res_bind (qe_lookup_host env (qc_host c @ '':'' @ show_nat (unat (qc_port c)))) (\<lambda>addrs.
            case addrs of
              a # _ \<Rightarrow> Inr a
            | [] \<Rightarrow> Inl (Transport ''lookup host failed: no address found'')))"

definition bind_address :: "QuicConnector \<Rightarrow> SocketAddr \<Rightarrow> SocketAddr" where
  "bind_address c addr =
     (case qc_bind_addr c of
        Some a \<Rightarrow> a
      | None \<Rightarrow> \<lparr>sa_ip = (if is_ipv6 addr then V6 0 else V4 0), sa_port = 0\<rparr>)"

text \<open>What a connection is made of: where it goes to, what it said first, and its unreliable side.\<close>

record ('c, 'k) QuicTransport =
  qt_addr :: SocketAddr
  qt_bind :: SocketAddr
  qt_config :: "('c, 'k) QuicConfig"
  qt_negotiated :: bytes
  qt_writer :: Writer
  qt_unreliable_writer :: UnreliableWriter

definition negotiate :: "('c, 'k) QuicEnv \<Rightarrow> NegotiationParams \<Rightarrow> bytes res" where
  "negotiate env params =
     res_bind (qe_open_uni env 0) (\<lambda>_.
     res_bind (case to_bytes params of Inl e \<Rightarrow> Inl (Transport e) | Inr b \<Rightarrow> Inr b) (\<lambda>bs.
     res_bind (qe_write_all env bs) (\<lambda>_.
     res_bind (qe_finish env) (\<lambda>_. Inr bs))))"

text \<open>\<open>None\<close> is the panic of \<open>Splitter::new\<close>, the last thing that can go wrong.\<close>

definition quic_connect ::
  "('c, 'k) QuicEnv \<Rightarrow> QuicConnector \<Rightarrow> NegotiationParams \<Rightarrow> ('c, 'k) QuicTransport res option" where
  "quic_connect env c params =
     (case res_bind (resolve env c) (\<lambda>addr.
           res_bind (configure_client (qe_rustls env) (qe_idle_ok env) c) (\<lambda>config.
           res_bind (qe_endpoint env (bind_address c addr)) (\<lambda>_.
           res_bind (qe_connect env config addr (qc_host c)) (\<lambda>_.
           res_bind (datagram_size (qc_max_datagram_size c) (qe_max_datagram_size env)) (\<lambda>limit.
           res_bind (negotiate env params) (\<lambda>bs.
           res_bind (qe_open_uni env 1) (\<lambda>_. Inr (addr, config, limit, bs)))))))) of
        Inl e \<Rightarrow> Some (Inl e)
      | Inr (addr, config, limit, bs) \<Rightarrow>
          (case splitter_new limit of
             None \<Rightarrow> None
           | Some sp \<Rightarrow>
               Some (Inr \<lparr>qt_addr = addr, qt_bind = bind_address c addr, qt_config = config, qt_negotiated = bs,
                          qt_writer = writer_new,
                          qt_unreliable_writer = \<lparr>uw_splitter = sp, uw_frames = [], uw_sent = []\<rparr>\<rparr>)))"

section \<open>\<open>WebTransportConnector\<close> and \<open>WebSocketConnector\<close>\<close>

text \<open>The WebSocket connector has the first three of these settings.\<close>

record WebConnector =
  wc_url :: string
  wc_skip_server_verification :: bool
  wc_client_auth :: "(Certificate \<times> Certificate) option"

record WebTransportConnector = WebConnector +
  wc_max_datagram_size :: "nat option"

definition websocket_connector_new :: "string \<Rightarrow> WebConnector" where
  "websocket_connector_new url =
     \<lparr>wc_url = url, wc_skip_server_verification = False, wc_client_auth = None\<rparr>"

definition webtransport_connector_new :: "string \<Rightarrow> WebTransportConnector" where
  "webtransport_connector_new url =
     \<lparr>wc_url = url, wc_skip_server_verification = False, wc_client_auth = None, wc_max_datagram_size = None\<rparr>"

text \<open>
  The URL library parses and sets the query, which the serde library makes of the parameters; the
  transport libraries connect.
\<close>

record 'u WebUrls =
  wu_parse :: "string \<Rightarrow> 'u res"
  wu_query :: "NegotiationParams \<Rightarrow> string res"
  wu_set_query :: "string \<Rightarrow> 'u \<Rightarrow> 'u"

definition web_url :: "'u WebUrls \<Rightarrow> string \<Rightarrow> NegotiationParams \<Rightarrow> 'u res" where
  "web_url urls url params =
     res_bind (wu_parse urls url) (\<lambda>u.
     res_bind (wu_query urls params) (\<lambda>q. Inr (wu_set_query urls q u)))"

record ('u, 'c, 'k) WtEnv =
  we_urls :: "'u WebUrls"
  we_rustls :: "('c, 'k) Rustls"
  we_endpoint :: "('c, 'k) WtConfig \<Rightarrow> unit res"
  we_connect :: "'u \<Rightarrow> unit res"
  we_max_datagram_size :: "nat option"
  we_open_uni :: "unit res"

definition webtransport_connect ::
  "('u, 'c, 'k) WtEnv \<Rightarrow> WebTransportConnector \<Rightarrow> NegotiationParams \<Rightarrow> ('u \<times> ('c, 'k) WtConfig \<times> UnreliableWriter) res option" where
  "webtransport_connect env c params =
     (case web_url (we_urls env) (wc_url c) params of
        Inl e \<Rightarrow> Some (Inl e)
      | Inr url \<Rightarrow>
          (case webtransport_tls (we_rustls env) (wc_skip_server_verification c) (wc_client_auth c) of
             None \<Rightarrow> None
           | Some tls \<Rightarrow>
               (case res_bind tls (\<lambda>config.
                     res_bind (we_endpoint env config) (\<lambda>_.
                     res_bind (we_connect env url) (\<lambda>_.
                     res_bind (datagram_size (wc_max_datagram_size c) (we_max_datagram_size env)) (\<lambda>limit.
                     res_bind (we_open_uni env) (\<lambda>_. Inr (config, limit)))))) of
                  Inl e \<Rightarrow> Some (Inl e)
                | Inr (config, limit) \<Rightarrow>
                    map_option (\<lambda>sp. Inr (url, config, \<lparr>uw_splitter = sp, uw_frames = [], uw_sent = []\<rparr>)) (splitter_new limit))))"

record ('u, 'c, 'k) WsEnv =
  wse_urls :: "'u WebUrls"
  wse_rustls :: "('c, 'k) Rustls"
  wse_client :: "('c, 'k) ClientConfig option \<Rightarrow> unit res"
  wse_send :: "'u \<Rightarrow> unit res"
  wse_upgrade :: "unit res"

definition websocket_connect ::
  "('u, 'c, 'k) WsEnv \<Rightarrow> WebConnector \<Rightarrow> NegotiationParams \<Rightarrow> ('u \<times> ('c, 'k) ClientConfig option) res" where
  "websocket_connect env c params =
     res_bind (web_url (wse_urls env) (wc_url c) params) (\<lambda>url.
     res_bind (rustls_config_client (wse_rustls env) (wc_skip_server_verification c) (wc_client_auth c)) (\<lambda>config.
     res_bind (wse_client env config) (\<lambda>_.
     res_bind (wse_send env url) (\<lambda>_.
     res_bind (wse_upgrade env) (\<lambda>_. Inr (url, config))))))"

section \<open>Properties\<close>

lemma datagram_size_limit:
  "datagram_size configured path = Inr n \<Longrightarrow>
     (\<exists>p. path = Some p \<and> 9 \<le> p \<and> n \<le> p) \<and> (\<forall>mtu. configured = Some mtu \<longrightarrow> n \<le> mtu) \<and>
     (n \<le> 8 \<longrightarrow> (\<exists>mtu. configured = Some mtu \<and> mtu \<le> 8))"
  by (auto simp: datagram_size_def split: option.splits if_splits)

lemma small_limit:
  "datagram_size configured path = Inr n \<Longrightarrow> n \<le> 8 \<Longrightarrow> \<exists>mtu. configured = Some mtu \<and> \<not> 8 < mtu"
  using datagram_size_limit[of configured path n] by auto

lemma splitter_new_size:
  "splitter_new n = Some sp \<Longrightarrow> sp_max_segment_size sp + 8 = n"
  "splitter_new n = None \<longleftrightarrow> n \<le> 8"
  by (auto simp: splitter_new_def split: if_splits)

lemma quic_connect_Inr:
  assumes "quic_connect env c params = Some (Inr t)"
  obtains n where "resolve env c = Inr (qt_addr t)" and "qt_bind t = bind_address c (qt_addr t)"
    and "configure_client (qe_rustls env) (qe_idle_ok env) c = Inr (qt_config t)"
    and "datagram_size (qc_max_datagram_size c) (qe_max_datagram_size env) = Inr n"
    and "to_bytes params = Inr (qt_negotiated t)"
    and "splitter_new n = Some (uw_splitter (qt_unreliable_writer t))"
  using assms
  by (auto simp: quic_connect_def negotiate_def res_bind_Inr split: sum.splits option.splits)

lemma configure_client_Inr:
  "configure_client lib idle_ok c = Inr f \<Longrightarrow>
     quic_tls lib (qc_skip_server_verification c) (qc_client_auth c) = Inr (qf_tls f)"
  by (cases "quic_tls lib (qc_skip_server_verification c) (qc_client_auth c)")
     (auto simp: configure_client_def split: if_splits)

lemma quic_connect_None:
  assumes "quic_connect env c params = None"
  shows "\<exists>n. datagram_size (qc_max_datagram_size c) (qe_max_datagram_size env) = Inr n \<and> n \<le> 8"
  using assms
  by (auto simp: quic_connect_def res_bind_Inr splitter_new_size(2) split: sum.splits option.splits)

lemma webtransport_connect_None:
  assumes "webtransport_connect env c params = None"
  shows "\<exists>n. datagram_size (wc_max_datagram_size c) (we_max_datagram_size env) = Inr n \<and> n \<le> 8"
  using assms webtransport_drops_client_auth(1)[of "we_rustls env" "wc_skip_server_verification c" "wc_client_auth c"]
  by (auto simp: webtransport_connect_def res_bind_Inr splitter_new_size(2) split: sum.splits option.splits)

text \<open>
  A QUIC connection that is opened goes to the configured address and port, from an address of
  the same family unless another is configured, checks and presents the certificates as set, has
  told the server the compression parameters in a form that reads back to them, and writes only
  datagrams that fit both the path and the configured limit.
\<close>

theorem quic_connected:
  assumes "quic_connect env c params = Some (Inr t)"
  shows "(\<forall>ip. qc_addr c = Some ip \<longrightarrow> qt_addr t = \<lparr>sa_ip = ip, sa_port = qc_port c\<rparr>) \<and>
    (qc_bind_addr c = None \<longrightarrow> is_ipv6 (qt_bind t) = is_ipv6 (qt_addr t) \<and> sa_port (qt_bind t) = 0) \<and>
    (\<forall>a. qc_bind_addr c = Some a \<longrightarrow> qt_bind t = a) \<and>
    client_auth (qe_rustls env) (qc_client_auth c) = Inr (cc_client_auth (qf_tls (qt_config t))) \<and>
    (cc_verifier (qf_tls (qt_config t)) = SkipServerVerification \<longleftrightarrow> qc_skip_server_verification c) \<and>
    (\<exists>es. get_entries (qt_negotiated t) = Some es \<and>
       es = concat (map (\<lambda>(k, v). case value_text v of None \<Rightarrow> [] | Some s \<Rightarrow> [(k, s)]) (params_to_value params))) \<and>
    (\<exists>p. qe_max_datagram_size env = Some p \<and> sp_max_segment_size (uw_splitter (qt_unreliable_writer t)) + 8 \<le> p) \<and>
    (\<forall>mtu. qc_max_datagram_size c = Some mtu \<longrightarrow> sp_max_segment_size (uw_splitter (qt_unreliable_writer t)) + 8 \<le> mtu)"
proof -
  obtain n where t: "resolve env c = Inr (qt_addr t)" "qt_bind t = bind_address c (qt_addr t)"
    "configure_client (qe_rustls env) (qe_idle_ok env) c = Inr (qt_config t)"
    "datagram_size (qc_max_datagram_size c) (qe_max_datagram_size env) = Inr n"
    "to_bytes params = Inr (qt_negotiated t)"
    "splitter_new n = Some (uw_splitter (qt_unreliable_writer t))"
    using quic_connect_Inr[OF assms] by blast
  have tls: "quic_tls (qe_rustls env) (qc_skip_server_verification c) (qc_client_auth c) = Inr (qf_tls (qt_config t))"
    using configure_client_Inr[OF t(3)] .
  have "cc_verifier (qf_tls (qt_config t)) = SkipServerVerification \<longleftrightarrow> qc_skip_server_verification c"
    "client_auth (qe_rustls env) (qc_client_auth c) = Inr (cc_client_auth (qf_tls (qt_config t)))"
    using quic_tls_settings[OF tls] by simp_all
  moreover have "\<forall>ip. qc_addr c = Some ip \<longrightarrow> qt_addr t = \<lparr>sa_ip = ip, sa_port = qc_port c\<rparr>"
    using t(1) by (auto simp: resolve_def)
  moreover have "qc_bind_addr c = None \<longrightarrow> is_ipv6 (qt_bind t) = is_ipv6 (qt_addr t) \<and> sa_port (qt_bind t) = 0"
    "\<forall>a. qc_bind_addr c = Some a \<longrightarrow> qt_bind t = a"
    using t(2) by (simp_all add: bind_address_def is_ipv6_def)
  moreover have "\<exists>es. get_entries (qt_negotiated t) = Some es \<and>
       es = concat (map (\<lambda>(k, v). case value_text v of None \<Rightarrow> [] | Some s \<Rightarrow> [(k, s)]) (params_to_value params))"
    using get_put_entries[of "params_to_value params" "qt_negotiated t"] t(5) by (simp add: to_bytes_def)
  moreover have "\<exists>p. qe_max_datagram_size env = Some p \<and> sp_max_segment_size (uw_splitter (qt_unreliable_writer t)) + 8 \<le> p"
    "\<forall>mtu. qc_max_datagram_size c = Some mtu \<longrightarrow> sp_max_segment_size (uw_splitter (qt_unreliable_writer t)) + 8 \<le> mtu"
    using datagram_size_limit[OF t(4)] splitter_new_size(1)[OF t(6)] by auto
  ultimately show ?thesis by blast
qed

lemma to_bytes_ok: "\<exists>bs. to_bytes p = Inr bs"
  using put_entries_fits[OF params_fit, of p] by (simp add: to_bytes_def)

definition some_env :: "(nat, nat) QuicEnv" where
  "some_env = \<lparr>qe_rustls = some_lib, qe_idle_ok = (\<lambda>t. True), qe_lookup_host = (\<lambda>h. Inr [\<lparr>sa_ip = V6 5, sa_port = 4433\<rparr>]),
     qe_endpoint = (\<lambda>a. Inr ()), qe_connect = (\<lambda>f a h. Inr ()), qe_max_datagram_size = Some 1200,
     qe_open_uni = (\<lambda>i. Inr ()), qe_write_all = (\<lambda>b. Inr ()), qe_finish = Inr ()\<rparr>"

theorem quic_connected_witness:
  "\<exists>t. quic_connect some_env (quic_set (QMaxDatagramSize (Some 1000)) (quic_connector_new ''h'' 4433)) (negotiation_params compression_new) = Some (Inr t) \<and>
     is_ipv6 (qt_bind t) \<and> sp_max_segment_size (uw_splitter (qt_unreliable_writer t)) + 8 \<le> 1000"
proof -
  let ?c = "quic_set (QMaxDatagramSize (Some 1000)) (quic_connector_new ''h'' 4433)"
  let ?p = "negotiation_params compression_new"
  have "case quic_connect some_env ?c ?p of Some (Inr t) \<Rightarrow> qt_addr t = \<lparr>sa_ip = V6 5, sa_port = 4433\<rparr> | _ \<Rightarrow> False"
    using to_bytes_ok[of ?p]
    by (auto simp: quic_connect_def resolve_def configure_client_def quic_tls_def rustls_config_client_def client_auth_def
      native_roots_def wrap_transport_def load_native_certs_def negotiate_def datagram_size_def splitter_new_def
      some_env_def some_lib_def quic_set_def quic_connector_new_def)
  then obtain t where t: "quic_connect some_env ?c ?p = Some (Inr t)" "qt_addr t = \<lparr>sa_ip = V6 5, sa_port = 4433\<rparr>"
    by (auto split: option.splits sum.splits)
  have "qc_bind_addr ?c = None" "qc_max_datagram_size ?c = Some 1000"
    by (simp_all add: quic_set_def quic_connector_new_def)
  then show ?thesis
    using quic_connected[OF t(1)] t by (auto simp: is_ipv6_def)
qed

text \<open>
  Opening a QUIC or a WebTransport connection panics for no other reason than a configured
  datagram limit of at most eight bytes; in particular the configuration that a WebTransport
  connection unwraps is always there.
\<close>

theorem connect_panics_only_for_small_limit:
  "\<not> (quic_connect env c params = None \<and> (\<forall>mtu. qc_max_datagram_size c = Some mtu \<longrightarrow> 8 < mtu)) \<and>
   \<not> (webtransport_connect env' c' params = None \<and> (\<forall>mtu. wc_max_datagram_size c' = Some mtu \<longrightarrow> 8 < mtu))"
proof (intro conjI notI)
  assume "quic_connect env c params = None \<and> (\<forall>mtu. qc_max_datagram_size c = Some mtu \<longrightarrow> 8 < mtu)"
  then show False
    using quic_connect_None[of env c params] small_limit[of "qc_max_datagram_size c"] by blast
next
  assume "webtransport_connect env' c' params = None \<and> (\<forall>mtu. wc_max_datagram_size c' = Some mtu \<longrightarrow> 8 < mtu)"
  then show False
    using webtransport_connect_None[of env' c' params] small_limit[of "wc_max_datagram_size c'"] by blast
qed

text \<open>Settings are independent, and the last value of each counts.\<close>

lemma quic_set_last:
  "quic_set (QTimeout t) (quic_set s (quic_set (QTimeout t') c)) = quic_set (QTimeout t) (quic_set s c)"
  by (cases s) (simp_all add: quic_set_def)

end
