(* ===== verification/Token.thy ===== *)
theory Token
  imports Errors
begin

text \<open>
  Token sources (\<open>token_source.rs\<close>): one task owns the source and serves the requests of all clones
  one after the other.  The source is any implementation of the trait: a function on its state, that
  may panic, here \<open>None\<close>; the text of its errors is left empty.  Also the time limit that the crate
  puts on its waits (\<open>timeout_with_ct\<close> in \<open>internal.rs\<close>).
\<close>

section \<open>Sources\<close>

datatype AccessToken = AccessToken string

type_synonym 's Source = "'s \<Rightarrow> ('s \<times> AccessToken res) option"

definition static_token_source :: "AccessToken Source" where
  "static_token_source t = Some (t, Inr t)"

section \<open>The shared source\<close>

text \<open>
  \<open>ts_queue\<close>: the requests sent and not yet taken; \<open>ts_answers\<close>: what each request was answered.
  When the source panics, its task ends: the channel of every request that is not answered is
  dropped, and a later one cannot be sent.
\<close>

record 's Shared =
  ts_source :: "'s option"
  ts_queue :: "nat list"
  ts_answers :: "(nat \<times> AccessToken res) list"

definition shared_new :: "'s \<Rightarrow> 's Shared" where
  "shared_new s = \<lparr>ts_source = Some s, ts_queue = [], ts_answers = []\<rparr>"

definition source_closed :: "AccessToken res" where
  "source_closed = Inl (TokenSource ''token source closed'')"

definition request_token :: "nat \<Rightarrow> 's Shared \<Rightarrow> 's Shared" where
  "request_token r s =
     (case ts_source s of
        None \<Rightarrow> s\<lparr>ts_answers := ts_answers s @ [(r, source_closed)]\<rparr>
      | Some _ \<Rightarrow> s\<lparr>ts_queue := ts_queue s @ [r]\<rparr>)"

definition serve_token :: "'s Source \<Rightarrow> 's Shared \<Rightarrow> 's Shared" where
  "serve_token token s =
     (case (ts_source s, ts_queue s) of
        (Some src, r # queue) \<Rightarrow>
          (case token src of
             Some (src', answer) \<Rightarrow>
               s\<lparr>ts_source := Some src', ts_queue := queue, ts_answers := ts_answers s @ [(r, answer)]\<rparr>
           | None \<Rightarrow>
               s\<lparr>ts_source := None, ts_queue := [],
                 ts_answers := ts_answers s @ map (\<lambda>r. (r, source_closed)) (r # queue)\<rparr>)
      | _ \<Rightarrow> s)"

datatype TokenEvent = RequestToken nat | ServeToken

fun token_event :: "'s Source \<Rightarrow> TokenEvent \<Rightarrow> 's Shared \<Rightarrow> 's Shared" where
  "token_event token (RequestToken r) s = request_token r s"
| "token_event token ServeToken s = serve_token token s"

definition requested :: "TokenEvent list \<Rightarrow> nat list" where
  "requested evs = concat (map (\<lambda>ev. case ev of RequestToken r \<Rightarrow> [r] | ServeToken \<Rightarrow> []) evs)"

text \<open>Requests are answered in the order they were made, each once; none waits on a dead task.\<close>

lemma token_event_order:
  assumes "ts_source s = None \<longrightarrow> ts_queue s = []"
  shows "map fst (ts_answers (token_event token ev s)) @ ts_queue (token_event token ev s) =
           map fst (ts_answers s) @ ts_queue s @ requested [ev]"
    and "ts_source (token_event token ev s) = None \<longrightarrow> ts_queue (token_event token ev s) = []"
  using assms
  by (cases ev; auto simp: request_token_def serve_token_def requested_def comp_def split: option.splits list.splits)+

lemma token_run_order:
  assumes "ts_source s = None \<longrightarrow> ts_queue s = []"
  shows "map fst (ts_answers (fold (token_event token) evs s)) @ ts_queue (fold (token_event token) evs s) =
           map fst (ts_answers s) @ ts_queue s @ requested evs \<and>
         (ts_source (fold (token_event token) evs s) = None \<longrightarrow> ts_queue (fold (token_event token) evs s) = [])"
  using assms
proof (induction evs arbitrary: s)
  case (Cons ev evs)
  have "requested (ev # evs) = requested [ev] @ requested evs" by (simp add: requested_def)
  then show ?case
    using Cons.IH[OF token_event_order(2)[OF Cons.prems]] token_event_order(1)[OF Cons.prems] by simp
qed (simp add: requested_def)

text \<open>
  The requests for a token are answered in the order they were made, each exactly once, however
  they interleave with the work of the task; when the source has panicked none is left waiting.
\<close>

theorem token_requests_answered:
  "map fst (ts_answers (fold (token_event token) evs (shared_new s))) @
     ts_queue (fold (token_event token) evs (shared_new s)) = requested evs \<and>
   \<not> (ts_source (fold (token_event token) evs (shared_new s)) = None \<and>
      ts_queue (fold (token_event token) evs (shared_new s)) \<noteq> [])"
  using token_run_order[of "shared_new s" token evs] by (auto simp: shared_new_def)

section \<open>Time limits\<close>

text \<open>How a wait under \<open>timeout_with_ct\<close> ends, and what it returns.\<close>

datatype 'a WaitEnd = Completed 'a | TimedOut | TokenCancelled

definition timeout_with_ct :: "'a WaitEnd \<Rightarrow> 'a res" where
  "timeout_with_ct w =
     (case w of Completed a \<Rightarrow> Inr a | TimedOut \<Rightarrow> Inl (Timeout '''') | TokenCancelled \<Rightarrow> Inl CancelledByClose)"

text \<open>Every wait that does not complete can be retried by a stream that resumes.\<close>

lemma timeout_with_ct_retry: "timeout_with_ct w = Inl e \<Longrightarrow> can_retry_resume e"
  by (cases w) (auto simp: timeout_with_ct_def can_retry_resume_def)

end
