(* ===== verification/Datagram_Loss.thy ===== *)
theory Datagram_Loss
  imports Framing
begin

text \<open>
  The unreliable side over a network that loses and reorders datagrams.  The writer
  (\<open>transport/quic.rs\<close>, \<open>QuicUnreliableWriter\<close>) sends several messages in frames, any part of them
  arrives in any order, and the reader (\<open>QuicUnreliableReader\<close>) is called until it waits.
\<close>

section \<open>Several messages\<close>

text \<open>The writes of a task that ends at the first one that fails.\<close>

fun unreliable_writes :: "bytes list \<Rightarrow> UnreliableWriter \<Rightarrow> (UnreliableWriter \<times> unit res) option" where
  "unreliable_writes [] w = Some (w, Inr ())"
| "unreliable_writes (d # ds) w =
     (case unreliable_write None d w of
        None \<Rightarrow> None
      | Some (w', Inl e) \<Rightarrow> Some (w', Inl e)
      | Some (w', Inr _) \<Rightarrow> unreliable_writes ds w')"

text \<open>The reads of a task, as long as datagrams are there.\<close>

lemma unreliable_read_shorter:
  "unreliable_read fb evs = Some (data, fb', evs') \<Longrightarrow> length evs' < length evs"
  by (induction fb evs rule: unreliable_read.induct)
    (auto split: prod.splits option.splits intro: less_SucI)

function unreliable_reads :: "FrameBuf \<Rightarrow> frame_event list \<Rightarrow> bytes list" where
  "unreliable_reads fb evs =
     (case unreliable_read fb evs of
        None \<Rightarrow> []
      | Some (data, fb', evs') \<Rightarrow> data # unreliable_reads fb' evs')"
  by pat_completeness auto
termination
  by (relation "measure (length \<circ> snd)") (auto dest: unreliable_read_shorter)

declare unreliable_reads.simps [simp del]

lemma unreliable_reads_Nil [simp]: "unreliable_reads fb [] = []"
  by (simp add: unreliable_reads.simps)

lemma unreliable_reads_Cons [simp]:
  "unreliable_reads fb ((now, now', f) # evs) =
     (case frame_push now now' fb f of
        (fb', None) \<Rightarrow> unreliable_reads fb' evs
      | (fb', Some data) \<Rightarrow> data # unreliable_reads fb' evs)"
  by (cases "frame_push now now' fb f"; cases "snd (frame_push now now' fb f)")
    (simp_all add: unreliable_reads.simps [of fb] unreliable_reads.simps [of _ evs])

section \<open>The frames that are sent\<close>

text \<open>The frames of the message with sequence number \<open>n\<close>, and all frames of the messages.\<close>

definition frames_of :: "nat \<Rightarrow> bytes list \<Rightarrow> u32 \<Rightarrow> bytes list" where
  "frames_of seg ms n = (if unat n < length ms then split_frames n seg (ms ! unat n) else [])"

definition frame_pool :: "nat \<Rightarrow> nat \<Rightarrow> bytes list \<Rightarrow> bytes list" where
  "frame_pool seg k ms = concat (map (\<lambda>i. split_frames (of_nat (k + i)) seg (ms ! i)) [0..<length ms])"

lemma frame_pool_Cons:
  "frame_pool seg k (d # ds) = split_frames (of_nat k) seg d @ frame_pool seg (Suc k) ds"
  by (simp add: frame_pool_def upt_conv_Cons map_Suc_upt [symmetric] comp_def ac_simps del: upt_Suc)

lemma frame_pool_Nil [simp]: "frame_pool seg k [] = []"
  by (simp add: frame_pool_def)

lemma unreliable_write_sent:
  assumes "splitter_inv (uw_splitter w)" and "uw_frames w = []"
    and "unreliable_write None d w = Some (w', Inr u)"
  shows "length d < sp_max_message_size (uw_splitter w) \<and>
    w' = w\<lparr>uw_splitter := uw_splitter w\<lparr>sp_sequence_number := sp_sequence_number (uw_splitter w) + 1\<rparr>,
      uw_sent := uw_sent w @ split_frames (sp_sequence_number (uw_splitter w)) (sp_max_segment_size (uw_splitter w)) d\<rparr>"
proof -
  have len: "length d < sp_max_message_size (uw_splitter w)"
    using assms(3) by (auto simp: unreliable_write_def split_def not_le split: if_splits)
  with split_ok(1) [OF assms(1) len, of "[]"] assms(2,3) show ?thesis
    by (auto simp: unreliable_write_def Let_def)
qed

lemma unreliable_writes_sent:
  "splitter_inv (uw_splitter w) \<Longrightarrow> uw_frames w = [] \<Longrightarrow> sp_sequence_number (uw_splitter w) = of_nat k \<Longrightarrow>
     unreliable_writes ds w = Some (w', Inr u) \<Longrightarrow>
     uw_sent w' = uw_sent w @ frame_pool (sp_max_segment_size (uw_splitter w)) k ds \<and>
     list_all (\<lambda>d. length d < sp_max_message_size (uw_splitter w)) ds"
proof (induction ds arbitrary: w k)
  case (Cons d ds)
  obtain w1 where w1: "unreliable_write None d w = Some (w1, Inr ())" "unreliable_writes ds w1 = Some (w', Inr u)"
    using Cons.prems(4) by (auto split: option.splits sum.splits prod.splits)
  note sent = unreliable_write_sent [OF Cons.prems(1,2) w1(1)]
  have "splitter_inv (uw_splitter w1)" "uw_frames w1 = []" "sp_sequence_number (uw_splitter w1) = of_nat (Suc k)"
    using sent Cons.prems(1-3) by (simp_all add: splitter_inv_def)
  from Cons.IH [OF this w1(2)] sent Cons.prems(3) show ?case by (simp add: frame_pool_Cons)
qed simp

text \<open>What arrives of the frames of one message, when no more than \<open>2 ^ 32\<close> messages were sent.\<close>

lemma concat_single:
  "(\<And>i. i \<noteq> j \<Longrightarrow> i < n \<Longrightarrow> h i = []) \<Longrightarrow> concat (map h [0..<n]) = (if j < n then h j else [])"
  by (induction n) (auto simp: less_Suc_eq)

lemma split_frames_seq: "f \<in> set (split_frames n seg d) \<Longrightarrow> frame_seq f = n"
  by (auto simp: split_frames_mem frame_fields)

lemma frame_pool_for:
  assumes "length ms \<le> 2 ^ 32"
  shows "filter (is_frame_of n) (frame_pool seg 0 ms) = filter (is_frame_of n) (frames_of seg ms n)"
proof -
  have "filter (is_frame_of n) (split_frames (of_nat i) seg (ms ! i)) = []"
    if "i \<noteq> unat n" "i < length ms" for i
  proof -
    have "unat (of_nat i :: u32) = i" using that(2) assms by (simp add: unat_of_nat take_bit_nat_eq_self)
    with that(1) have "of_nat i \<noteq> n" by auto
    then show ?thesis by (auto simp: filter_empty_conv is_frame_of_def dest: split_frames_seq)
  qed
  from concat_single [of "unat n" "length ms" "\<lambda>i. filter (is_frame_of n) (split_frames (of_nat i) seg (ms ! i))", OF this]
  show ?thesis by (simp add: frame_pool_def filter_concat comp_def frames_of_def)
qed

lemma frames_for_pool:
  assumes "length ms \<le> 2 ^ 32" and "mset (map (\<lambda>(_, _, f). f) evs) \<subseteq># mset (frame_pool seg 0 ms)"
  shows "mset (frames_for n evs) \<subseteq># mset (frames_of seg ms n)"
proof -
  have "mset (frames_for n evs) \<subseteq># mset (filter (is_frame_of n) (frame_pool seg 0 ms))"
    unfolding frames_for_def mset_filter by (rule multiset_filter_mono) (rule assms(2))
  also have "\<dots> \<subseteq># mset (frames_of seg ms n)"
    by (simp add: frame_pool_for [OF assms(1)])
  finally show ?thesis .
qed

lemma frames_of_fields:
  assumes "0 < seg" and "list_all (\<lambda>d. length d < seg * 65535) ms"
    and "f \<in> set (frames_of seg ms n)" and "9 \<le> length f"
  shows "unat n < length ms" and "unat (frame_max f) + 1 = length (frames_of seg ms n)"
    and "mset fs = mset (frames_of seg ms n) \<Longrightarrow> join_frames fs = ms ! unat n"
    and "concat (map (drop 8) (frames_of seg ms n)) = ms ! unat n"
proof -
  let ?d = "ms ! unat n"
  show n: "unat n < length ms" using assms(3) by (auto simp: frames_of_def split: if_splits)
  then have f: "f \<in> set (split_frames n seg ?d)" using assms(3) by (simp add: frames_of_def)
  have m: "max_segment_index seg (length ?d) < 2 ^ 16"
    using max_segment_index_bound [OF assms(1)] assms(2) n by (fastforce simp: list_all_length)
  have "?d \<noteq> []"
  proof
    assume "?d = []"
    with f have "f = frame_of n 0 0 []"
      by (auto simp: split_frames_mem max_segment_index_def segment_data_def)
    with assms(4) show False by (simp add: frame_fields)
  qed
  from split_frames_header(2) [OF f assms(1) this m] n
  show "unat (frame_max f) + 1 = length (frames_of seg ms n)"
    by (simp add: frames_of_def length_split_frames)
  show "join_frames fs = ?d" if "mset fs = mset (frames_of seg ms n)"
    using join_frames_perm [OF _ m] that n by (simp add: frames_of_def)
  show "concat (map (drop 8) (frames_of seg ms n)) = ?d"
    using n by (simp add: frames_of_def split_frames_payload)
qed

section \<open>What the reader holds\<close>

definition pending_frames :: "FrameBuf \<Rightarrow> u32 \<Rightarrow> bytes list" where
  "pending_frames fb n = (case map_of (fb_frames fb) n of None \<Rightarrow> [] | Some (_, _, got) \<Rightarrow> got)"

text \<open>
  The frames held and those that are still to arrive are, for every message, among the message's
  own, each at most once; the number of frames that a message waits for is right.
\<close>

definition no_frame_twice :: "(u32 \<Rightarrow> bytes list) \<Rightarrow> FrameBuf \<Rightarrow> frame_event list \<Rightarrow> bool" where
  "no_frame_twice F fb evs \<longleftrightarrow> hm_inv (fb_frames fb) \<and>
     (\<forall>n t k got. map_of (fb_frames fb) n = Some (t, k, got) \<longrightarrow> k = length (F n)) \<and>
     (\<forall>n. mset (pending_frames fb n) + mset (frames_for n evs) \<subseteq># mset (F n))"

lemma no_frame_twice_expired: "no_frame_twice F fb evs \<Longrightarrow> no_frame_twice F (drop_expired now fb) evs"
proof -
  assume inv: "no_frame_twice F fb evs"
  then have hm: "hm_inv (fb_frames fb)" by (simp add: no_frame_twice_def)
  have le: "mset (pending_frames (drop_expired now fb) n) \<subseteq># mset (pending_frames fb n)" for n
    by (auto simp: pending_frames_def drop_expired_lookup [OF hm] split: option.splits)
  have "mset (pending_frames (drop_expired now fb) n) + mset (frames_for n evs) \<subseteq># mset (F n)" for n
    using inv subset_mset.order_trans [OF subset_mset.add_right_mono [OF le, of n "mset (frames_for n evs)"]]
    by (simp add: no_frame_twice_def)
  with inv show ?thesis
    by (auto simp: no_frame_twice_def drop_expired_lookup [OF hm] split: option.splits if_splits)
qed

text \<open>One datagram that is a frame of message \<open>n\<close>.\<close>

lemma no_frame_twice_step:
  assumes "no_frame_twice F fb ((now, now', f) # evs)" and f: "is_frame_of n f"
    and hm: "hm_inv (fb_frames fb')"
    and others: "\<And>m. m \<noteq> n \<Longrightarrow> map_of (fb_frames fb') m = map_of (fb_frames fb) m"
    and got: "mset (pending_frames fb' n) \<subseteq># mset (pending_frames fb n @ [f])"
    and needed: "\<And>t k got. map_of (fb_frames fb') n = Some (t, k, got) \<Longrightarrow> k = length (F n)"
  shows "no_frame_twice F fb' evs"
proof -
  have k: "map_of (fb_frames fb) m = Some (t, k, got) \<Longrightarrow> k = length (F m)"
    and sub: "mset (pending_frames fb m) + mset (frames_for m ((now, now', f) # evs)) \<subseteq># mset (F m)"
    for m t k got using assms(1) by (auto simp: no_frame_twice_def)
  have here: "mset (pending_frames fb n @ [f]) + mset (frames_for n evs) \<subseteq># mset (F n)"
    using sub [of n] f by (simp add: frames_for_Cons)
  have sub': "mset (pending_frames fb' m) + mset (frames_for m evs) \<subseteq># mset (F m)" for m
  proof (cases "m = n")
    case True
    then show ?thesis using subset_mset.order_trans [OF subset_mset.add_right_mono [OF got] here] by simp
  next
    case False
    moreover from this f have "\<not> is_frame_of m f" by (simp add: is_frame_of_def)
    ultimately show ?thesis using sub [of m] others [of m] by (simp add: frames_for_Cons pending_frames_def)
  qed
  moreover have "k = length (F m)" if "map_of (fb_frames fb') m = Some (t, k, got)" for m t k got
    using that others [of m] k [of m t k got] needed [of t k got] by (cases "m = n") auto
  ultimately show ?thesis using hm by (auto simp: no_frame_twice_def)
qed

lemma no_frame_twice_complete:
  assumes "no_frame_twice F fb ((now, now', f) # evs)" and "is_frame_of n f"
    and "length (F n) \<le> Suc (length (pending_frames fb n))"
  shows "mset (pending_frames fb n @ [f]) = mset (F n)" and "frames_for n evs = []"
proof -
  have sub: "mset (pending_frames fb n @ [f]) + mset (frames_for n evs) \<subseteq># mset (F n)"
    using assms(1) [unfolded no_frame_twice_def, THEN conjunct2, THEN conjunct2, rule_format, of n] assms(2)
    by (simp add: frames_for_Cons)
  then have "Suc (length (pending_frames fb n)) + length (frames_for n evs) \<le> length (F n)"
    using size_mset_mono [OF sub] by simp
  with assms(3) have "length (frames_for n evs) = 0" by linarith
  then show "frames_for n evs = []" by simp
  then have "mset (pending_frames fb n @ [f]) \<subseteq># mset (F n)" using sub by simp
  moreover have "\<not> mset (pending_frames fb n @ [f]) \<subset># mset (F n)"
    using assms(3) mset_subset_size [of "mset (pending_frames fb n @ [f])" "mset (F n)"] by auto
  ultimately show "mset (pending_frames fb n @ [f]) = mset (F n)"
    by (simp add: subset_mset.le_less)
qed

text \<open>What is read is the message, and nothing of it is to arrive any more.\<close>

definition read_message :: "bytes list \<Rightarrow> bytes \<Rightarrow> frame_event list \<Rightarrow> bytes option \<Rightarrow> bool" where
  "read_message ms f evs out \<longleftrightarrow> (out \<noteq> None \<longrightarrow> is_frame_of (frame_seq f) f \<and> unat (frame_seq f) < length ms \<and>
     out = Some (ms ! unat (frame_seq f)) \<and> frames_for (frame_seq f) evs = [])"

lemma no_frame_twice_push:
  assumes seg: "0 < seg" "list_all (\<lambda>d. length d < seg * 65535) ms"
    and inv: "no_frame_twice (frames_of seg ms) fb ((now, now', f) # evs)"
    and push: "frame_push now now' fb f = (fb', out)"
  shows "no_frame_twice (frames_of seg ms) fb' evs \<and> read_message ms f evs out"
proof (cases "length f < 9")
  case True
  then have "frames_for n ((now, now', f) # evs) = frames_for n evs" for n
    by (simp add: frames_for_Cons is_frame_of_def)
  with True push inv show ?thesis by (auto simp: frame_push_def no_frame_twice_def read_message_def)
next
  case False
  let ?F = "frames_of seg ms" and ?n = "frame_seq f" and ?fb = "drop_expired now fb"
  have mine: "is_frame_of ?n f" using False by (simp add: is_frame_of_def)
  have inv': "no_frame_twice ?F ?fb ((now, now', f) # evs)"
    by (rule no_frame_twice_expired [OF inv])
  then have hm: "hm_inv (fb_frames ?fb)"
    and sub: "mset (pending_frames ?fb ?n) + mset (frames_for ?n ((now, now', f) # evs)) \<subseteq># mset (?F ?n)"
    and k: "map_of (fb_frames ?fb) ?n = Some (t, k, got) \<Longrightarrow> k = length (?F ?n)" for t k got
    by (auto simp: no_frame_twice_def)
  have "f \<in> set (?F ?n)"
    using mset_subset_eqD [OF sub, of f] mine by (simp add: frames_for_Cons)
  from frames_of_fields [OF seg this] False
  have n: "unat ?n < length ms" and max: "unat (frame_max f) + 1 = length (?F ?n)"
    and join: "mset fs = mset (?F ?n) \<Longrightarrow> join_frames fs = ms ! unat ?n"
    and payload: "concat (map (drop 8) (?F ?n)) = ms ! unat ?n" for fs by simp_all
  note step = no_frame_twice_step [OF inv' mine] and complete = no_frame_twice_complete [OF inv' mine]
  consider (single) "frame_max f = 0" | (first) "frame_max f \<noteq> 0" "map_of (fb_frames ?fb) ?n = None"
    | (more) t got where "frame_max f \<noteq> 0" "map_of (fb_frames ?fb) ?n = Some (t, length (?F ?n), got)"
    using k by (cases "frame_max f = 0"; cases "map_of (fb_frames ?fb) ?n") auto
  then show ?thesis
  proof cases
    case single
    then have one: "length (?F ?n) = 1" using max by simp
    have "mset (pending_frames ?fb ?n @ [f]) = mset (?F ?n)" and none: "frames_for ?n evs = []"
      using complete one by simp_all
    with one have "?F ?n = [f]" by (cases "?F ?n"; cases "pending_frames ?fb ?n") auto
    then have "drop 8 f = ms ! unat ?n" using payload by simp
    moreover have "no_frame_twice ?F ?fb evs" by (rule step) (use hm k in auto)
    ultimately show ?thesis
      using single False push mine n none by (auto simp: frame_push_def Let_def read_message_def)
  next
    case first
    then have "fb' = ?fb\<lparr>fb_frames := hm_insert ?n (now', unat (frame_max f) + 1, [f]) (fb_frames ?fb)\<rparr>" "out = None"
      using False push by (auto simp: frame_push_def Let_def)
    moreover from this have "no_frame_twice ?F fb' evs"
      by (intro step) (use hm max in \<open>auto simp: pending_frames_def\<close>)
    ultimately show ?thesis by (simp add: read_message_def)
  next
    case more
    show ?thesis
    proof (cases "length (?F ?n) = Suc (length got)")
      case True
      then have "fb' = ?fb\<lparr>fb_frames := hm_remove ?n (fb_frames ?fb)\<rparr>" "out = Some (join_frames (got @ [f]))"
        using False push more by (auto simp: frame_push_def Let_def)
      moreover have "mset (got @ [f]) = mset (?F ?n)" "frames_for ?n evs = []"
        using complete True more by (simp_all add: pending_frames_def)
      moreover have "no_frame_twice ?F fb' evs"
        by (intro step) (use hm more calculation(1) in \<open>auto simp: pending_frames_def\<close>)
      ultimately show ?thesis using join [of "got @ [f]"] mine n by (simp add: read_message_def)
    next
      case False
      then have "fb' = ?fb\<lparr>fb_frames := hm_insert ?n (t, length (?F ?n), got @ [f]) (fb_frames ?fb)\<rparr>" "out = None"
        using \<open>\<not> length f < 9\<close> push more by (auto simp: frame_push_def Let_def)
      moreover from this have "no_frame_twice ?F fb' evs"
        by (intro step) (use hm more in \<open>auto simp: pending_frames_def\<close>)
      ultimately show ?thesis by (simp add: read_message_def)
    qed
  qed
qed

lemma unreliable_reads_messages:
  assumes "0 < seg" and "list_all (\<lambda>d. length d < seg * 65535) ms"
  shows "no_frame_twice (frames_of seg ms) fb evs \<Longrightarrow>
    \<exists>idxs. unreliable_reads fb evs = map ((!) ms) idxs \<and> distinct idxs \<and>
      (\<forall>i\<in>set idxs. i < length ms \<and> frames_for (of_nat i) evs \<noteq> [] \<and> i < 2 ^ 32)"
proof (induction evs arbitrary: fb)
  case (Cons e evs)
  obtain now now' f where e: "e = (now, now', f)" by (cases e)
  obtain fb' out where push: "frame_push now now' fb f = (fb', out)" by (cases "frame_push now now' fb f")
  let ?i = "unat (frame_seq f)"
  note one = no_frame_twice_push [OF assms Cons.prems [unfolded e] push]
  then obtain idxs where idxs: "unreliable_reads fb' evs = map ((!) ms) idxs" "distinct idxs"
      "\<forall>i\<in>set idxs. i < length ms \<and> frames_for (of_nat i) evs \<noteq> [] \<and> i < 2 ^ 32"
    using Cons.IH by blast
  have later: "\<forall>i\<in>set idxs. i < length ms \<and> frames_for (of_nat i) (e # evs) \<noteq> [] \<and> i < 2 ^ 32"
    using idxs(3) by (auto simp: e frames_for_Cons)
  show ?case
  proof (cases out)
    case None
    with idxs later push e show ?thesis by (intro exI [of _ idxs]) simp
  next
    case (Some data)
    with one have out: "is_frame_of (frame_seq f) f" "?i < length ms" "data = ms ! ?i" "frames_for (frame_seq f) evs = []"
      by (auto simp: read_message_def)
    have "?i \<notin> set idxs" using idxs(3) out(4) by (metis of_nat_unat ucast_id)
    moreover have "?i < 2 ^ 32" using unsigned_less [of "frame_seq f"] by simp
    ultimately show ?thesis
      using idxs later push e Some out
      by (intro exI [of _ "?i # idxs"]) (simp add: frames_for_Cons)
  qed
qed simp

section \<open>Lost and reordered datagrams\<close>

text \<open>
  Of the messages written without an error, at most \<open>2 ^ 32\<close>, the reader gets some, each at most
  once and unchanged, whichever of their datagrams arrive in whatever order and at whatever time:
  the parts of different messages are never mixed.
\<close>

lemma lossy_datagrams:
  assumes "unreliable_writer_new configured path = Some (Inr w)"
    and "unreliable_writes ms w = Some (w', Inr u)" and "length ms \<le> 2 ^ 32"
    and "mset (map (\<lambda>(_, _, f). f) evs) \<subseteq># mset (uw_sent w')"
  shows "\<exists>idxs. unreliable_reads (frame_buf_new now) evs = map ((!) ms) idxs \<and> distinct idxs \<and>
    (\<forall>i\<in>set idxs. i < length ms)"
proof -
  let ?seg = "sp_max_segment_size (uw_splitter w)"
  obtain n where w: "splitter_new n = Some (uw_splitter w)" "uw_frames w = []" "uw_sent w = []"
    using unreliable_writer_new_Some [OF assms(1)] by blast
  have inv: "splitter_inv (uw_splitter w)" by (rule splitter_new_inv [OF w(1)])
  have "sp_sequence_number (uw_splitter w) = of_nat 0"
    using w(1) by (auto simp: splitter_new_def dest!: sym [of _ "uw_splitter w"] split: if_splits)
  note sent = unreliable_writes_sent [OF inv w(2) this assms(2)]
  have "mset (map (\<lambda>(_, _, f). f) evs) \<subseteq># mset (frame_pool ?seg 0 ms)"
    using assms(4) sent w(3) by simp
  from frames_for_pool [OF assms(3) this]
  have "no_frame_twice (frames_of ?seg ms) (frame_buf_new now) evs"
    by (simp add: no_frame_twice_def frame_buf_new_def pending_frames_def hm_inv_def)
  moreover have "0 < ?seg" "list_all (\<lambda>d. length d < ?seg * 65535) ms"
    using inv sent by (simp_all add: splitter_inv_def)
  ultimately show ?thesis using unreliable_reads_messages by blast
qed

end
