(* ===== verification/Unreliable_Path.thy ===== *)
theory Unreliable_Path
  imports Byte_Path Conn Datagram_Loss
begin

text \<open>
  The byte path over datagrams.  Messages on the unreliable side may be lost, repeated and
  overtaken, so that extraction must not depend on what came before: \<open>build\<close> refuses context
  takeover for transports that have such a side.  This theory puts the check, the compression,
  the two loops and the segmentation into datagrams together.
\<close>

section \<open>Without context takeover\<close>

text \<open>A compressor and an extractor that carry nothing from one message to the next.\<close>

definition independent :: "'z Converter \<Rightarrow> 'y Converter \<Rightarrow> bool" where
  "independent c e \<longleftrightarrow> in_step c e \<and> cv_dictionary c = None"

lemma converters_independent:
  "converters fl fl' settings = Some (c, e) \<Longrightarrow> cmp_window_bits settings = None \<Longrightarrow> independent c e"
  by (auto simp: independent_def converters_def converter_new_def in_step_def split: option.splits)

lemma compress_same_shape:
  "compress fl b c = Some (Inr (c', out)) \<Longrightarrow> cv_dictionary c = None \<Longrightarrow>
     cv_dictionary c' = None \<and> (cv_stream c' = None \<longleftrightarrow> cv_stream c = None) \<and> cv_increment c' = cv_increment c"
  by (auto simp: compress_def Let_def split: option.splits sum.splits prod.splits)

lemma independent_compress:
  "independent c e \<Longrightarrow> compress fl b c = Some (Inr (c', out)) \<Longrightarrow> independent c' e"
  using compress_same_shape by (fastforce simp: independent_def in_step_def)

text \<open>Each message is extracted by itself, and leaves the extractor as good as it was.\<close>

lemma independent_extract:
  assumes "lossless fl fl'" and "independent c e" and "compress fl b c = Some (Inr (c', out))"
  shows "\<exists>e'. extract_data fl' out e = Some (Inr (e', b)) \<and> independent c e'"
proof -
  have "in_step c e" using assms(2) by (simp add: independent_def)
  from compress_extract [OF assms(1) this assms(3)] obtain e' where
    e': "extract_data fl' out e = Some (Inr (e', b))" "in_step c' e'" by blast
  moreover have "cv_dictionary c = None" using assms(2) by (simp add: independent_def)
  ultimately show ?thesis
    using compress_same_shape [OF assms(3)] by (auto simp: independent_def in_step_def)
qed

lemma independent_extract_nth:
  assumes "lossless fl fl'"
  shows "compress_all fl bs c = Some (Inr (c', outs)) \<Longrightarrow> independent c e \<Longrightarrow> i < length bs \<Longrightarrow>
     length outs = length bs \<and> (\<exists>e'. extract_data fl' (outs ! i) e = Some (Inr (e', bs ! i)) \<and> independent c e')"
proof (induction bs arbitrary: c outs i)
  case (Cons b bs)
  obtain c1 out outs' where c: "compress fl b c = Some (Inr (c1, out))"
    "compress_all fl bs c1 = Some (Inr (c', outs'))" "outs = out # outs'"
    using compress_all_ConsD [OF Cons.prems(1)] .
  have e: "independent c1 e" using independent_compress Cons.prems(2) c(1) by blast
  have keeps: "independent c1 e' \<Longrightarrow> independent c e'" for e' :: "'b Converter"
    using compress_same_shape [OF c(1)] Cons.prems(2) by (auto simp: independent_def in_step_def)
  have len: "length outs' = length bs" using compress_all_length [OF c(2)] .
  show ?case
  proof (cases i)
    case 0
    then show ?thesis using independent_extract [OF assms Cons.prems(2) c(1)] c(3) len by simp
  next
    case (Suc j)
    then obtain e' where "extract_data fl' (outs' ! j) e = Some (Inr (e', bs ! j))" "independent c1 e'"
      using Cons.IH [OF c(2) e, of j] Cons.prems(3) by auto
    then show ?thesis using keeps Suc c(3) len by auto
  qed
qed simp

text \<open>The read loop over any messages that arrive, in any order.\<close>

lemma read_turns_independent:
  assumes "lossless fl fl'" and "\<And>m b. encode m = Inr b \<Longrightarrow> decode b = Inr m"
    and "compress_all fl (map (\<lambda>m. projr (encode m)) ms) c = Some (Inr (c', outs))"
    and "list_all (\<lambda>m. \<not> isl (encode m)) ms"
  shows "independent c e \<Longrightarrow> \<forall>i\<in>set idxs. i < length ms \<Longrightarrow>
     read_turns decode fl' (map ((!) outs) idxs) e = Some (Inr (map ((!) ms) idxs))"
proof (induction idxs arbitrary: e)
  case (Cons i idxs)
  have i: "i < length (map (\<lambda>m. projr (encode m)) ms)" using Cons.prems(2) by simp
  obtain e' where e': "extract_data fl' (outs ! i) e = Some (Inr (e', map (\<lambda>m. projr (encode m)) ms ! i))"
    "independent c e'"
    using independent_extract_nth [OF assms(1,3) Cons.prems(1) i] by blast
  have "\<not> isl (encode (ms ! i))" using assms(4) i by (simp add: list_all_length)
  then have "decode (projr (encode (ms ! i))) = Inr (ms ! i)"
    using assms(2) [of "ms ! i"] by (cases "encode (ms ! i)") auto
  moreover have "read_turns decode fl' (map ((!) outs) idxs) e' = Some (Inr (map ((!) ms) idxs))"
    using Cons.IH [OF e'(2)] Cons.prems(2) by simp
  ultimately show ?case using e'(1) i by (simp add: read_turn_def)
qed simp

lemma arrived_messages_decode:
  assumes "build uuid_text False b transport token respond = (outs, Inr response)"
    and "converters fl fl' (cb_compression b) = Some (c, e)" and "lossless fl fl'"
    and "\<And>m b. encode m = Inr b \<Longrightarrow> decode b = Inr m"
    and "write_loop encode fl evs \<lparr>wl_compressor = c, wl_written = []\<rparr> = Some w"
    and "\<forall>i\<in>set arrived. i < length (wl_written w)"
  shows "read_turns decode fl' (map ((!) (wl_written w)) arrived) e =
           Some (Inr (map ((!) (sendable encode (queued evs))) arrived)) \<and>
         length (wl_written w) \<le> length (sendable encode (queued evs))"
proof -
  let ?ms = "sendable encode (queued evs)"
  have "independent c e"
    using assms(1) converters_independent [OF assms(2)] by (auto simp: build_def split: if_splits)
  obtain k c' where k: "compress_all fl (take k (encoded encode (queued evs))) c = Some (Inr (c', wl_written w))"
    using write_loop_wrote [OF assms(5)] by (auto simp: wrote_def)
  have all: "compress_all fl (map (\<lambda>m. projr (encode m)) (take k ?ms)) c = Some (Inr (c', wl_written w))"
    using k by (simp add: encoded_def take_map)
  have len: "length (wl_written w) = length (take k ?ms)"
    using compress_all_length [OF all] by simp
  have "list_all (\<lambda>m. \<not> isl (encode m)) (take k ?ms)"
    by (auto simp: list_all_iff sendable_def dest: in_set_takeD)
  from read_turns_independent [where decode = decode, OF assms(3,4) all this \<open>independent c e\<close>, of arrived] assms(6) len
  have "read_turns decode fl' (map ((!) (wl_written w)) arrived) e = Some (Inr (map ((!) (take k ?ms)) arrived))"
    by simp
  moreover have "map ((!) (take k ?ms)) arrived = map ((!) ?ms) arrived"
    using assms(6) len by (auto simp del: length_take) (simp add: nth_take)
  ultimately show ?thesis using len by simp
qed

section \<open>Properties\<close>

text \<open>
  C38: on a connection that was built for a transport with an unreliable side, the messages that
  the read loop gets from that side are messages that were sent, each at most once and unchanged,
  whichever datagrams were lost or overtaken and however the messages were cut into them:
  \<open>build\<close> has refused the context takeover that would make the messages depend on each other.
\<close>

theorem unreliable_messages_decode:
  assumes "build uuid_text False b transport token respond = (outs, Inr response)"
    and "converters fl fl' (cb_compression b) = Some (c, e)" and "lossless fl fl'"
    and "\<And>m b. encode m = Inr b \<Longrightarrow> decode b = Inr m"
    and "write_loop encode fl evs \<lparr>wl_compressor = c, wl_written = []\<rparr> = Some w"
    and "unreliable_writer_new configured path = Some (Inr uw)"
    and "unreliable_writes (wl_written w) uw = Some (uw', Inr u)" and "length (wl_written w) \<le> 2 ^ 32"
    and "mset (map (\<lambda>(_, _, f). f) arrived) \<subseteq># mset (uw_sent uw')"
  shows "\<exists>idxs. distinct idxs \<and> set idxs \<subseteq> {..<length (sendable encode (queued evs))} \<and>
    read_turns decode fl' (unreliable_reads (frame_buf_new now) arrived) e =
      Some (Inr (map ((!) (sendable encode (queued evs))) idxs))"
proof -
  obtain idxs where idxs: "unreliable_reads (frame_buf_new now) arrived = map ((!) (wl_written w)) idxs"
    "distinct idxs" "\<forall>i\<in>set idxs. i < length (wl_written w)"
    using lossy_datagrams [OF assms(6-9)] by blast
  from arrived_messages_decode [where decode = decode, OF assms(1-5) idxs(3)] idxs show ?thesis
    by (intro exI [of _ idxs]) auto
qed

text \<open>Two messages are sent in a datagram each; the first one is lost.\<close>

definition ping_lost :: "frame_event list" where
  "ping_lost = [(5, 5, [0, 0, 0, 1, 0, 0, 0, 0, 7])]"

definition some_response :: ConnectResponse where
  "some_response =
     \<lparr>cnr_request_id = 0, cnr_protocol_version = [], cnr_result_code = 0, cnr_result_string = [],
      cnr_extension_fields = None, cnr_connection_id = [], cnr_connection_group_id = []\<rparr>"

definition some_builder :: ConnBuilder where
  "some_builder = conn_builder_new\<lparr>cb_compression := compression_enable 6 compression_new\<rparr>"

lemma some_connection: "\<exists>outs. build (\<lambda>_. []) False some_builder (Inr ()) (Token []) (\<lambda>_. Inr some_response) =
     (outs, Inr some_response)"
  by (simp add: build_def connect_def connect_request_def connect_extension_def some_builder_def
      conn_builder_new_def compression_enable_def compression_new_def whole_secs_def secs_def Let_def)

lemma two_datagrams: "\<exists>uw'. unreliable_writes [[8], [7]] small_writer = Some (uw', Inr ()) \<and>
     uw_sent uw' = [[0, 0, 0, 0, 0, 0, 0, 0, 8], [0, 0, 0, 1, 0, 0, 0, 0, 7]]"
  by (simp add: small_writer_def sp12_def unreliable_write_def split_def max_segment_index_def
      split_frames_def frame_of_def segment_data_def put_u16_def put_u32_def Let_def)

theorem unreliable_messages_decode_witness:
  "\<exists>c e idxs. converters stored stored (cb_compression some_builder) = Some (c, e) \<and> set idxs \<subseteq> {..<2} \<and>
     read_turns two_decodes stored (unreliable_reads (frame_buf_new 0) ping_lost) e =
       Some (Inr (map ((!) [a_ping, no_message]) idxs))"
proof -
  obtain c e where ce: "converters stored stored (cb_compression some_builder) = Some (c, e)"
    and c: "cv_stream c \<noteq> None" "0 < cv_increment c"
    by (simp add: converters_def converter_new_def some_builder_def compression_enable_def compression_new_def)
  obtain c2 where loop: "write_loop two_codes stored some_writes \<lparr>wl_compressor = c, wl_written = []\<rparr> =
      Some \<lparr>wl_compressor = c2, wl_written = [[8], [7]]\<rparr>"
    using two_written [OF c] by blast
  obtain outs where b: "build (\<lambda>_. []) False some_builder (Inr ()) (Token []) (\<lambda>_. Inr some_response) = (outs, Inr some_response)"
    using some_connection by blast
  obtain uw' where uw: "unreliable_writes [[8], [7]] small_writer = Some (uw', Inr ())"
    "uw_sent uw' = [[0, 0, 0, 0, 0, 0, 0, 0, 8], [0, 0, 0, 1, 0, 0, 0, 0, 7]]"
    using two_datagrams by blast
  have new: "unreliable_writer_new (Some 12) (Some 1200) = Some (Inr small_writer)"
    by (simp add: unreliable_writer_new_def datagram_size_def splitter_new_def small_writer_def sp12_def)
  have arrived: "mset (map (\<lambda>(_, _, f). f) ping_lost) \<subseteq># mset (uw_sent uw')"
    by (simp add: uw(2) ping_lost_def)
  have "\<exists>idxs. distinct idxs \<and> set idxs \<subseteq> {..<length (sendable two_codes (queued some_writes))} \<and>
      read_turns two_decodes stored (unreliable_reads (frame_buf_new 0) ping_lost) e =
        Some (Inr (map ((!) (sendable two_codes (queued some_writes))) idxs))"
    by (rule unreliable_messages_decode [OF b ce stored_lossless two_codes_decode loop new _ _ arrived]) (simp_all add: uw(1) del: unreliable_writes.simps)
  with ce two_messages(1) show ?thesis by (auto simp: numeral_2_eq_2)
qed

end
