(* ===== verification/Command_Turns.thy ===== *)
theory Command_Turns
  imports Byte_Path Wire
begin

text \<open>
  The turns of the read loop (\<open>wire/read_loop.rs\<close>) that take a command instead of a message.  They
  go on with the empty buffer, through the extractor and the decoder, and must not disturb the
  messages around them, nor the dictionary that compressor and extractor share.
\<close>

section \<open>Turns\<close>

datatype ReadEvent = Arrived bytes | CommandTaken

text \<open>The buffer that a turn extracts and decodes, and what arrived in all.\<close>

fun turn_buffer :: "ReadEvent \<Rightarrow> bytes" where
  "turn_buffer (Arrived b) = b"
| "turn_buffer CommandTaken = []"

fun arrived_in :: "ReadEvent list \<Rightarrow> bytes list" where
  "arrived_in [] = []"
| "arrived_in (Arrived b # evs) = b # arrived_in evs"
| "arrived_in (CommandTaken # evs) = arrived_in evs"

text \<open>
  What is documented of an inflating stream: a dictionary can be set after a reset, and without
  input there is nothing to do.
\<close>

definition blank_input :: "'z Flate \<Rightarrow> bool" where
  "blank_input fl \<longleftrightarrow>
     (\<forall>dictionary z. \<exists>z1. load_dictionary fl dictionary (fl_reset fl z) = Inr z1 \<and> fl_total_in fl z1 = 0 \<and>
        (\<forall>spare. \<exists>status z2. fl_step fl [] spare Finish z1 = Inr (status, [], z2) \<and>
           (status = StreamEnd \<or> status = BufError \<and> fl_total_in fl z2 = 0)))"

definition sound_dictionary :: "'z Converter \<Rightarrow> bool" where
  "sound_dictionary c \<longleftrightarrow> (\<forall>d. cv_dictionary c = Some d \<longrightarrow> length (db_buf d) \<le> db_size d)"

lemma converters_sound: "converters fl fl' settings = Some (c, e) \<Longrightarrow> sound_dictionary c"
  by (auto simp: sound_dictionary_def converters_def converter_new_def dictionary_new_Some split: option.splits)

lemma compress_sound:
  "sound_dictionary c \<Longrightarrow> compress fl b c = Some (Inr (c', out)) \<Longrightarrow> sound_dictionary c'"
  by (auto simp: sound_dictionary_def compress_def Let_def push_msg_last split: option.splits sum.splits prod.splits)

section \<open>A command's turn\<close>

lemma extract_blank:
  assumes "blank_input fl'" and "in_step c e" and "sound_dictionary c"
  shows "\<exists>e'. extract_data fl' [] e = Some (Inr (e', [])) \<and> in_step c e'"
proof (cases "cv_stream e")
  case None
  then show ?thesis using assms(2) by (simp add: extract_data_def)
next
  case (Some y)
  obtain y1 where y1: "load_dictionary fl' (cv_dictionary e) (fl_reset fl' y) = Inr y1" "fl_total_in fl' y1 = 0"
    and step: "\<And>spare. \<exists>status y2. fl_step fl' [] spare Finish y1 = Inr (status, [], y2) \<and>
      (status = StreamEnd \<or> status = BufError \<and> fl_total_in fl' y2 = 0)"
    using assms(1) by (metis blank_input_def)
  let ?capacity = "vec_reserve 0 (cv_capacity e) 0"
  obtain status y2 where "fl_step fl' [] ?capacity Finish y1 = Inr (status, [], y2)"
    "status = StreamEnd \<or> status = BufError \<and> fl_total_in fl' y2 = 0" using step by blast
  then have loop: "stream_loop fl' (cv_increment e) [] y1 ?capacity [] = Some (Inr (y2, ?capacity, []))"
    using y1(2) by (auto simp: stream_loop.simps [of fl' _ "[]" y1] Let_def)
  have "map_option (push_msg []) (cv_dictionary e) = cv_dictionary e"
    using assms(2,3) by (cases "cv_dictionary e")
      (auto simp: in_step_def sound_dictionary_def push_msg_last last_bytes_def)
  with y1(1) loop Some assms(2) show ?thesis
    by (simp add: extract_data_def in_step_def)
qed

text \<open>Any turns, of which those with a message read what a compressor wrote.\<close>

lemma read_turns_commands:
  assumes "lossless fl fl'" and "blank_input fl'" and "decode [] = Inr blank_message"
    and "\<And>m b. encode m = Inr b \<Longrightarrow> decode b = Inr m"
  shows "compress_all fl (map (\<lambda>m. projr (encode m)) ms) c = Some (Inr (c', arrived_in evs)) \<Longrightarrow>
     list_all (\<lambda>m. \<not> isl (encode m)) ms \<Longrightarrow> in_step c e \<Longrightarrow> sound_dictionary c \<Longrightarrow>
     \<exists>read. read_turns decode fl' (map turn_buffer evs) e = Some (Inr read) \<and>
       filter (\<lambda>m. m \<noteq> blank_message) read = filter (\<lambda>m. m \<noteq> blank_message) ms"
proof (induction evs arbitrary: ms c e)
  case Nil
  then have "ms = []" using compress_all_length [OF Nil.prems(1)] by simp
  then show ?case by simp
next
  case (Cons ev evs)
  show ?case
  proof (cases ev)
    case CommandTaken
    obtain e1 where e1: "extract_data fl' [] e = Some (Inr (e1, []))" "in_step c e1"
      using extract_blank [OF assms(2) Cons.prems(3,4)] by blast
    obtain read where "read_turns decode fl' (map turn_buffer evs) e1 = Some (Inr read)"
      "filter (\<lambda>m. m \<noteq> blank_message) read = filter (\<lambda>m. m \<noteq> blank_message) ms"
      using Cons.IH [OF _ Cons.prems(2) e1(2) Cons.prems(4)] Cons.prems(1) CommandTaken by auto
    then show ?thesis using e1(1) assms(3) CommandTaken by (simp add: read_turn_def)
  next
    case (Arrived out)
    with Cons.prems(1) have len: "length ms = Suc (length (arrived_in evs))"
      using compress_all_length [OF Cons.prems(1)] by simp
    then obtain m ms' where ms: "ms = m # ms'" by (cases ms) auto
    then obtain b where b: "encode m = Inr b" using Cons.prems(2) by (cases "encode m") auto
    obtain c1 where c1: "compress fl b c = Some (Inr (c1, out))"
      "compress_all fl (map (\<lambda>m. projr (encode m)) ms') c1 = Some (Inr (c', arrived_in evs))"
      using compress_all_ConsD [of fl b "map (\<lambda>m. projr (encode m)) ms'" c c' "out # arrived_in evs"]
        Cons.prems(1) ms b Arrived by auto
    obtain e1 where e1: "extract_data fl' out e = Some (Inr (e1, b))" "in_step c1 e1"
      using compress_extract [OF assms(1) Cons.prems(3) c1(1)] by blast
    have "list_all (\<lambda>m. \<not> isl (encode m)) ms'" using Cons.prems(2) ms by simp
    from Cons.IH [OF c1(2) this e1(2) compress_sound [OF Cons.prems(4) c1(1)]] obtain read where
      "read_turns decode fl' (map turn_buffer evs) e1 = Some (Inr read)"
      "filter (\<lambda>m. m \<noteq> blank_message) read = filter (\<lambda>m. m \<noteq> blank_message) ms'" by blast
    then show ?thesis using e1(1) assms(4) [OF b] Arrived ms by (simp add: read_turn_def)
  qed
qed

section \<open>Properties\<close>

text \<open>
  C22: the commands that the read loop takes between messages, at any points, do not disturb it:
  without an error it decodes the messages that the write loop wrote, in order and with none left
  out, and otherwise only blank ones, which it drops.
\<close>

theorem commands_leave_messages:
  assumes "converters fl fl' settings = Some (c, e)" and "lossless fl fl'" and "blank_input fl'"
    and "\<And>m b. encode m = Inr b \<Longrightarrow> decode b = Inr m" and "decode [] = Inr blank_message"
    and "write_loop encode fl written \<lparr>wl_compressor = c, wl_written = []\<rparr> = Some w"
    and "arrived_in evs = wl_written w"
  shows "\<exists>k read. read_turns decode fl' (map turn_buffer evs) e = Some (Inr read) \<and>
    filter (\<lambda>m. m \<noteq> blank_message) read =
      filter (\<lambda>m. m \<noteq> blank_message) (take k (sendable encode (queued written))) \<and>
    length (wl_written w) = length (take k (sendable encode (queued written)))"
proof -
  obtain k c' where k: "compress_all fl (take k (encoded encode (queued written))) c = Some (Inr (c', wl_written w))"
    using write_loop_wrote [OF assms(6)] by (auto simp: wrote_def)
  let ?ms = "take k (sendable encode (queued written))"
  have all: "compress_all fl (map (\<lambda>m. projr (encode m)) ?ms) c = Some (Inr (c', arrived_in evs))"
    using k assms(7) by (simp add: encoded_def take_map)
  have ok: "list_all (\<lambda>m. \<not> isl (encode m)) ?ms"
    by (auto simp: list_all_iff sendable_def dest: in_set_takeD)
  obtain read where "read_turns decode fl' (map turn_buffer evs) e = Some (Inr read)"
    "filter (\<lambda>m. m \<noteq> blank_message) read = filter (\<lambda>m. m \<noteq> blank_message) ?ms"
    using read_turns_commands [where decode = decode, OF assms(2,3,5,4) all ok
        converters_in_step [OF assms(1)] converters_sound [OF assms(1)]] by blast
  moreover have "length (wl_written w) = length ?ms"
    using compress_all_length [OF all] assms(7) by simp
  ultimately show ?thesis by blast
qed


text \<open>Two messages with commands around them.\<close>

definition blank_decodes :: "bytes \<Rightarrow> Message res" where
  "blank_decodes b = (if b = [] then Inr blank_message else two_decodes b)"

definition some_turns :: "ReadEvent list" where
  "some_turns = [CommandTaken, Arrived [8], CommandTaken, CommandTaken, Arrived [7]]"

lemma stored_blank: "blank_input stored"
  by (auto simp: blank_input_def stored_def load_dictionary_def split: option.split)

theorem commands_leave_messages_witness:
  "\<exists>c e read. converters stored stored (enable_with_window_bits 6 9 compression_new) = Some (c, e) \<and>
     read_turns blank_decodes stored (map turn_buffer some_turns) e = Some (Inr read) \<and>
     filter (\<lambda>m. m \<noteq> blank_message) read = [a_ping]"
proof -
  obtain c e where ce: "converters stored stored (enable_with_window_bits 6 9 compression_new) = Some (c, e)"
    and c: "cv_stream c \<noteq> None" "0 < cv_increment c"
    by (simp add: converters_def converter_new_def enable_with_window_bits_def dictionary_new_def)
  obtain c2 where loop: "write_loop two_codes stored some_writes \<lparr>wl_compressor = c, wl_written = []\<rparr> =
      Some \<lparr>wl_compressor = c2, wl_written = [[8], [7]]\<rparr>" (is "_ = Some ?w")
    using two_written [OF c] by blast
  have decode: "blank_decodes b = Inr m" if "two_codes m = Inr b" for m b
    using that by (auto simp: blank_decodes_def two_codes_def two_decodes_def split: if_splits)
  have blank: "blank_decodes [] = Inr blank_message" by (simp add: blank_decodes_def)
  have "arrived_in some_turns = wl_written ?w" by (simp add: some_turns_def)
  from commands_leave_messages [where encode = two_codes and decode = blank_decodes, OF ce stored_lossless stored_blank decode blank loop this]
  obtain k read where read: "read_turns blank_decodes stored (map turn_buffer some_turns) e = Some (Inr read)"
    "filter (\<lambda>m. m \<noteq> blank_message) read = filter (\<lambda>m. m \<noteq> blank_message) (take k [a_ping, no_message])"
    and k: "length (wl_written ?w) = length (take k [a_ping, no_message])"
    unfolding two_messages by blast
  have "take k [a_ping, no_message] = [a_ping, no_message]"
    using k by simp
  moreover have "no_message = blank_message" "a_ping \<noteq> blank_message"
    by (simp_all add: no_message_def blank_message_def a_ping_def into_message_def)
  ultimately show ?thesis using ce read by auto
qed

end
