(* ===== verification/Encoding.thy ===== *)
theory Encoding
  imports Byte_Path
begin

text \<open>
  Encoder and decoder (\<open>encoding/mod.rs\<close>).  They call \<open>prost\<close>, whose three functions are a
  parameter: the bytes of a message, the error text when a buffer has no room for them, and the
  decoding.  \<open>prost\<close> checks the room before it writes anything, and appends to the buffer.
\<close>

record Prost =
  pr_encode :: "Message \<Rightarrow> bytes"
  pr_no_room :: "nat \<Rightarrow> nat \<Rightarrow> string"
  pr_decode :: "bytes \<Rightarrow> string + Message"

text \<open>The boxed error is its text, which is all that is ever made of it.\<close>

datatype EncodingError = EncodingError (ee_inner: string)

definition encoding_error_text :: "EncodingError \<Rightarrow> string" where
  "encoding_error_text e = ''encoding error: '' @ ee_inner e"

definition usize_max :: nat where
  "usize_max = 2 ^ 64 - 1"

definition encode_to :: "Prost \<Rightarrow> bytes \<Rightarrow> Message \<Rightarrow> bytes \<times> (EncodingError + unit)" where
  "encode_to p buf msg =
     (let required = length (pr_encode p msg); remaining = usize_max - length buf
      in if remaining < required then (buf, Inl (EncodingError (pr_no_room p required remaining)))
         else (buf @ pr_encode p msg, Inr ()))"

definition decode_from :: "Prost \<Rightarrow> bytes \<Rightarrow> EncodingError + Message" where
  "decode_from p data = (case pr_decode p data of Inl e \<Rightarrow> Inl (EncodingError e) | Inr m \<Rightarrow> Inr m)"

section \<open>In the loops\<close>

text \<open>
  What the loops of a wire connection get from them: the write loop encodes into an empty buffer,
  and both loops only log the error.
\<close>

definition loop_encode :: "Prost \<Rightarrow> Message \<Rightarrow> bytes res" where
  "loop_encode p msg =
     (case encode_to p [] msg of
        (_, Inl e) \<Rightarrow> Inl (Unexpected (encoding_error_text e))
      | (buf, Inr _) \<Rightarrow> Inr buf)"

definition loop_decode :: "Prost \<Rightarrow> bytes \<Rightarrow> Message res" where
  "loop_decode p data =
     (case decode_from p data of
        Inl e \<Rightarrow> Inl (Unexpected (encoding_error_text e))
      | Inr m \<Rightarrow> Inr m)"

lemma encode_to_appends:
  "encode_to p buf msg = (buf', r) \<Longrightarrow> length buf \<le> usize_max \<Longrightarrow>
     buf' = (case r of Inl _ \<Rightarrow> buf | Inr _ \<Rightarrow> buf @ pr_encode p msg) \<and>
     (isl r \<longleftrightarrow> usize_max < length buf + length (pr_encode p msg))"
  by (auto simp: encode_to_def Let_def split: if_splits)

lemma loop_encode_Inr: "loop_encode p m = Inr b \<longleftrightarrow> b = pr_encode p m \<and> length b \<le> usize_max"
  by (auto simp: loop_encode_def encode_to_def Let_def)

lemma loop_decode_Inr: "loop_decode p b = Inr m \<longleftrightarrow> pr_decode p b = Inr m"
  by (auto simp: loop_decode_def decode_from_def split: sum.splits)

lemma loop_sendable: "sendable (loop_encode p) msgs = filter (\<lambda>m. length (pr_encode p m) \<le> usize_max) msgs"
proof -
  have "\<not> isl (loop_encode p m) \<longleftrightarrow> length (pr_encode p m) \<le> usize_max" for m
    by (simp add: loop_encode_def encode_to_def Let_def not_less)
  then show ?thesis by (simp add: sendable_def)
qed

text \<open>The way of the messages with this encoding: all that is asked of \<open>prost\<close> is that it decodes what it encodes.\<close>

lemma encoded_messages_arrive:
  assumes "converters fl fl' settings = Some (c, e)" and "lossless fl fl'"
    and "\<And>m. pr_decode p (pr_encode p m) = Inr m"
    and "write_loop (loop_encode p) fl evs \<lparr>wl_compressor = c, wl_written = []\<rparr> = Some w"
    and "list_all (\<lambda>b. length b < 2 ^ 32) (wl_written w)"
  shows "\<exists>k. read_turns (loop_decode p) fl' (fst (read_recv_stream (wt_stream (write_messages (wl_written w) writer_new)))) e =
           Some (Inr (take k (filter (\<lambda>m. length (pr_encode p m) \<le> usize_max) (queued evs)))) \<and>
         (list_all write_ok evs \<and> compresses fl (encoded (loop_encode p) (queued evs)) c \<longrightarrow>
            take k (sendable (loop_encode p) (queued evs)) = sendable (loop_encode p) (queued evs))"
proof -
  have decodes: "\<And>m b. loop_encode p m = Inr b \<Longrightarrow> loop_decode p b = Inr m"
    using assms(3) by (simp add: loop_encode_Inr loop_decode_Inr)
  from quic.path_round_trip [where encode = "loop_encode p" and decode = "loop_decode p", OF assms(1,2) decodes assms(4,5)]
  show ?thesis unfolding loop_sendable .
qed

end
