(* ===== verification/Backpressure.thy ===== *)
theory Backpressure
  imports Downstream
begin

text \<open>
  Bounded channels between a wire connection and its clients.  The read loop
  (\<open>wire/read_loop.rs\<close>) puts the messages of a downstream into a channel and waits while it is
  full; the loop of the downstream (\<open>iscp/downstream.rs\<close>) takes them out, and puts chunks and
  metadata into the two channels of its client, waiting again.  All three channels hold
  \<open>channel_size\<close> entries.  What a message is converted to is the subject of \<open>Downstream\<close>; here it
  is any list of entries for the client, so that only the waiting matters.
\<close>

section \<open>Channels\<close>

text \<open>A bounded channel of tokio, without its capacity; it is closed when its receiver is dropped.\<close>

record 'a Chan =
  ch_queue :: "'a list"
  ch_open :: bool

definition chan_new :: "'a Chan" where
  "chan_new = \<lparr>ch_queue = [], ch_open = True\<rparr>"

text \<open>\<open>send\<close> waits while \<open>chan_full\<close>, then succeeds or finds the channel closed.\<close>

definition chan_full :: "nat \<Rightarrow> 'a Chan \<Rightarrow> bool" where
  "chan_full cap c \<longleftrightarrow> ch_open c \<and> cap \<le> length (ch_queue c)"

definition chan_push :: "'a \<Rightarrow> 'a Chan \<Rightarrow> 'a Chan" where
  "chan_push x c = c\<lparr>ch_queue := ch_queue c @ [x]\<rparr>"

definition chan_try_send :: "nat \<Rightarrow> 'a \<Rightarrow> 'a Chan \<Rightarrow> 'a Chan" where
  "chan_try_send cap x c = (if ch_open c \<and> \<not> chan_full cap c then chan_push x c else c)"

definition chan_recv :: "'a Chan \<Rightarrow> 'a Chan option" where
  "chan_recv c = (case ch_queue c of [] \<Rightarrow> None | _ # xs \<Rightarrow> Some (c\<lparr>ch_queue := xs\<rparr>))"

definition chan_close :: "'a Chan \<Rightarrow> 'a Chan" where
  "chan_close c = c\<lparr>ch_queue := [], ch_open := False\<rparr>"

section \<open>A downstream and its client\<close>

datatype Handover = Give DownstreamChunk | GiveMetadata DownstreamMetadata

text \<open>
  Where the loop of a downstream is: in its \<open>select!\<close>, handing over the entries of a message, in
  the loop over what is left in the channel, in the closing that follows, or done with this
  connection (it may go on with another one).
\<close>

datatype LoopAt = AtSelect | Handing "Handover list" | Emptying | Ending | Over

record Flowing =
  fw_queue :: "ReceivableDownstreamMsg list"
  fw_at :: LoopAt
  fw_chunks :: "DownstreamChunk Chan"
  fw_metadata :: "DownstreamMetadata Chan"
  fw_cancelled :: bool

definition flowing_new :: Flowing where
  "flowing_new = \<lparr>fw_queue = [], fw_at = AtSelect, fw_chunks = chan_new, fw_metadata = chan_new, fw_cancelled = False\<rparr>"

text \<open>What the loop may hand over for a message.\<close>

fun yields :: "ReceivableDownstreamMsg \<Rightarrow> Handover list \<Rightarrow> bool" where
  "yields (Chunk _) xs = list_all (\<lambda>x. case x of Give _ \<Rightarrow> True | _ \<Rightarrow> False) xs"
| "yields (Metadata _) xs = (case xs of [] \<Rightarrow> True | [GiveMetadata _] \<Rightarrow> True | _ \<Rightarrow> False)"
| "yields (ChunkAckComplete _) xs = (xs = [])"

definition handing :: "Handover list \<Rightarrow> LoopAt" where
  "handing xs = (if xs = [] then AtSelect else Handing xs)"

definition loop_takes :: "Handover list \<Rightarrow> Flowing \<Rightarrow> Flowing option" where
  "loop_takes xs f =
     (case fw_queue f of
        m # q \<Rightarrow> if fw_at f = AtSelect \<and> yields m xs then Some (f\<lparr>fw_queue := q, fw_at := handing xs\<rparr>) else None
      | [] \<Rightarrow> None)"

text \<open>
  One \<open>send\<close>; \<open>None\<close>: it waits.  A closed channel cancels the downstream and ends the loop over the
  entries; for metadata it ends the read loop too.
\<close>

definition loop_hands :: "nat \<Rightarrow> Flowing \<Rightarrow> Flowing option" where
  "loop_hands cap f =
     (case fw_at f of
        Handing (Give c # xs) \<Rightarrow>
          if chan_full cap (fw_chunks f) then None
          else if ch_open (fw_chunks f)
          then Some (f\<lparr>fw_chunks := chan_push c (fw_chunks f), fw_at := handing xs\<rparr>)
          else Some (f\<lparr>fw_cancelled := True, fw_at := AtSelect\<rparr>)
      | Handing (GiveMetadata m # xs) \<Rightarrow>
          if chan_full cap (fw_metadata f) then None
          else if ch_open (fw_metadata f)
          then Some (f\<lparr>fw_metadata := chan_push m (fw_metadata f), fw_at := handing xs\<rparr>)
          else Some (f\<lparr>fw_cancelled := True, fw_at := Emptying\<rparr>)
      | _ \<Rightarrow> None)"

text \<open>After the read loop: what is left in the channel is handed over with \<open>try_send\<close>.\<close>

fun try_hand :: "nat \<Rightarrow> Handover \<Rightarrow> Flowing \<Rightarrow> Flowing" where
  "try_hand cap (Give c) f = f\<lparr>fw_chunks := chan_try_send cap c (fw_chunks f)\<rparr>"
| "try_hand cap (GiveMetadata m) f = f\<lparr>fw_metadata := chan_try_send cap m (fw_metadata f)\<rparr>"

definition loop_empties :: "nat \<Rightarrow> Handover list \<Rightarrow> Flowing \<Rightarrow> Flowing option" where
  "loop_empties cap xs f =
     (if fw_at f \<noteq> Emptying then None
      else case fw_queue f of
        m # q \<Rightarrow> if yields m xs then Some (fold (try_hand cap) xs (f\<lparr>fw_queue := q\<rparr>)) else None
      | [] \<Rightarrow> None)"

text \<open>A chunk for which there is no room in the reordering window ends the loop with an error.\<close>

definition loop_fails :: "Flowing \<Rightarrow> Flowing option" where
  "loop_fails f =
     (case fw_queue f of
        Chunk _ # _ \<Rightarrow>
          if fw_at f = AtSelect \<or> fw_at f = Emptying then Some (f\<lparr>fw_at := Over, fw_queue := []\<rparr>) else None
      | _ \<Rightarrow> None)"

section \<open>The connection\<close>

text \<open>
  What arrives: messages for a downstream, pongs, and those the read loop passes on without
  waiting.  \<open>fl_read\<close> logs what it has taken from the transport.
\<close>

datatype Incoming = ForStream nat ReceivableDownstreamMsg | PongIn Pong | OtherIn Message

record Flow =
  fl_incoming :: "Incoming list"
  fl_read :: "Incoming list"
  fl_held :: "(nat \<times> ReceivableDownstreamMsg) option"
  fl_streams :: "Flowing list"
  fl_cancelled :: bool

definition flow_new :: "nat \<Rightarrow> Flow" where
  "flow_new n = \<lparr>fl_incoming = [], fl_read = [], fl_held = None, fl_streams = replicate n flowing_new, fl_cancelled = False\<rparr>"

definition reads_next :: "Flow \<Rightarrow> Flow option" where
  "reads_next s =
     (if fl_cancelled s \<or> fl_held s \<noteq> None then None
      else case fl_incoming s of
        [] \<Rightarrow> None
      | x # xs \<Rightarrow> Some (s\<lparr>fl_incoming := xs, fl_read := fl_read s @ [x],
          fl_held := (case x of ForStream i m \<Rightarrow> if i < length (fl_streams s) then Some (i, m) else None | _ \<Rightarrow> None)\<rparr>))"

definition puts_through :: "nat \<Rightarrow> Flow \<Rightarrow> Flow option" where
  "puts_through cap s =
     (case fl_held s of
        None \<Rightarrow> None
      | Some (i, m) \<Rightarrow>
          (let f = fl_streams s ! i
           in if fw_at f = Over then Some (s\<lparr>fl_held := None\<rparr>)
              else if cap \<le> length (fw_queue f) then None
              else Some (s\<lparr>fl_held := None, fl_streams := (fl_streams s)[i := f\<lparr>fw_queue := fw_queue f @ [m]\<rparr>]\<rparr>)))"

text \<open>
  A step of one downstream or its client.  A loop leaves its \<open>select!\<close> when it is cancelled, when
  the connection is over and its channel is empty, or when an acknowledgement cannot be sent any
  more, which the end of the connection causes too.
\<close>

definition on_stream :: "nat \<Rightarrow> (Flowing \<Rightarrow> Flowing option) \<Rightarrow> Flow \<Rightarrow> Flow option" where
  "on_stream i g s =
     (if i < length (fl_streams s)
      then map_option (\<lambda>f. s\<lparr>fl_streams := (fl_streams s)[i := f]\<rparr>) (g (fl_streams s ! i)) else None)"

datatype FlowEvent =
  Arrives Incoming | ReadsNext | PutsThrough | ConnCancelled
| LoopTakes nat "Handover list" | LoopHands nat | LoopFails nat | LoopBreaks nat | LoopEmpties nat "Handover list"
| LoopEmptied nat | LoopOver nat
| ClientReads nat | ClientReadsMetadata nat | ClientDrops nat | ClientDropsMetadata nat | CloseCalled nat

fun flow_step :: "nat \<Rightarrow> Flow \<Rightarrow> FlowEvent \<Rightarrow> Flow option" where
  "flow_step cap s (Arrives x) = Some (s\<lparr>fl_incoming := fl_incoming s @ [x]\<rparr>)"
| "flow_step cap s ReadsNext = reads_next s"
| "flow_step cap s PutsThrough = puts_through cap s"
| "flow_step cap s ConnCancelled = Some (s\<lparr>fl_cancelled := True, fl_held := None\<rparr>)"
| "flow_step cap s (LoopTakes i xs) = on_stream i (loop_takes xs) s"
| "flow_step cap s (LoopHands i) = on_stream i (loop_hands cap) s"
| "flow_step cap s (LoopFails i) = on_stream i loop_fails s"
| "flow_step cap s (LoopBreaks i) = on_stream i (\<lambda>f.
     if fw_at f = AtSelect \<and> (fw_cancelled f \<or> fl_cancelled s)
     then Some (f\<lparr>fw_at := Emptying\<rparr>) else None) s"
| "flow_step cap s (LoopEmpties i xs) = on_stream i (loop_empties cap xs) s"
| "flow_step cap s (LoopEmptied i) = on_stream i (\<lambda>f.
     if fw_at f = Emptying \<and> fw_queue f = [] then Some (f\<lparr>fw_at := Ending\<rparr>) else None) s"
| "flow_step cap s (LoopOver i) = on_stream i (\<lambda>f.
     if fw_at f = Ending then Some (f\<lparr>fw_at := Over, fw_queue := []\<rparr>) else None) s"
| "flow_step cap s (ClientReads i) = on_stream i (\<lambda>f.
     map_option (\<lambda>c. f\<lparr>fw_chunks := c\<rparr>) (chan_recv (fw_chunks f))) s"
| "flow_step cap s (ClientReadsMetadata i) = on_stream i (\<lambda>f.
     map_option (\<lambda>c. f\<lparr>fw_metadata := c\<rparr>) (chan_recv (fw_metadata f))) s"
| "flow_step cap s (ClientDrops i) = on_stream i (\<lambda>f. Some (f\<lparr>fw_chunks := chan_close (fw_chunks f)\<rparr>)) s"
| "flow_step cap s (ClientDropsMetadata i) = on_stream i (\<lambda>f. Some (f\<lparr>fw_metadata := chan_close (fw_metadata f)\<rparr>)) s"
| "flow_step cap s (CloseCalled i) = on_stream i (\<lambda>f. Some (f\<lparr>fw_cancelled := True\<rparr>)) s"

fun flow_run :: "nat \<Rightarrow> Flow \<Rightarrow> FlowEvent list \<Rightarrow> Flow option" where
  "flow_run cap s [] = Some s"
| "flow_run cap s (ev # evs) = Option.bind (flow_step cap s ev) (\<lambda>s'. flow_run cap s' evs)"

text \<open>The steps that the tasks take by themselves.\<close>

fun task_event :: "FlowEvent \<Rightarrow> bool" where
  "task_event ReadsNext = True"
| "task_event PutsThrough = True"
| "task_event (LoopTakes _ _) = True"
| "task_event (LoopHands _) = True"
| "task_event (LoopFails _) = True"
| "task_event (LoopBreaks _) = True"
| "task_event (LoopEmpties _ _) = True"
| "task_event (LoopEmptied _) = True"
| "task_event (LoopOver _) = True"
| "task_event _ = False"

section \<open>Waiting for the client\<close>

text \<open>The loop of a downstream is in a \<open>send\<close> to its client, which holds the receiver and does not read.\<close>

definition waits_for_client :: "nat \<Rightarrow> Flowing \<Rightarrow> bool" where
  "waits_for_client cap f \<longleftrightarrow>
     (case fw_at f of
        Handing (Give _ # _) \<Rightarrow> chan_full cap (fw_chunks f)
      | Handing (GiveMetadata _ # _) \<Rightarrow> chan_full cap (fw_metadata f)
      | _ \<Rightarrow> False)"

lemma on_stream_Some:
  "on_stream i g s = Some s' \<longleftrightarrow>
     i < length (fl_streams s) \<and> (\<exists>f. g (fl_streams s ! i) = Some f \<and> s' = s\<lparr>fl_streams := (fl_streams s)[i := f]\<rparr>)"
  by (auto simp: on_stream_def)

lemma on_stream_None: "on_stream i g s = None \<longleftrightarrow> (i < length (fl_streams s) \<longrightarrow> g (fl_streams s ! i) = None)"
  by (simp add: on_stream_def)

lemma handing_not_empty [simp]: "handing xs \<noteq> Handing []"
  by (simp add: handing_def)

lemma try_hand_fields [simp]:
  "fw_at (fold (try_hand cap) xs f) = fw_at f" "fw_queue (fold (try_hand cap) xs f) = fw_queue f"
  "fw_cancelled (fold (try_hand cap) xs f) = fw_cancelled f"
proof -
  have one: "fw_at (try_hand cap x f) = fw_at f" "fw_queue (try_hand cap x f) = fw_queue f"
    "fw_cancelled (try_hand cap x f) = fw_cancelled f" for x f
    by (cases x; simp)+
  show "fw_at (fold (try_hand cap) xs f) = fw_at f" "fw_queue (fold (try_hand cap) xs f) = fw_queue f"
    "fw_cancelled (fold (try_hand cap) xs f) = fw_cancelled f"
    by (induction xs arbitrary: f) (simp_all add: one)
qed

text \<open>What one step of a downstream does, for all the proofs about steps.\<close>

lemma loop_takes_Some:
  "loop_takes xs f = Some f' \<longleftrightarrow> (\<exists>m q. fw_queue f = m # q \<and> fw_at f = AtSelect \<and> yields m xs \<and>
     f' = f\<lparr>fw_queue := q, fw_at := handing xs\<rparr>)"
  by (auto simp: loop_takes_def split: list.splits)

lemma loop_hands_cases:
  assumes "loop_hands cap f = Some f'"
  obtains (chunk) c xs where "fw_at f = Handing (Give c # xs)" "\<not> chan_full cap (fw_chunks f)" "ch_open (fw_chunks f)"
      "f' = f\<lparr>fw_chunks := chan_push c (fw_chunks f), fw_at := handing xs\<rparr>"
  | (no_chunks) c xs where "fw_at f = Handing (Give c # xs)" "\<not> ch_open (fw_chunks f)"
      "f' = f\<lparr>fw_cancelled := True, fw_at := AtSelect\<rparr>"
  | (metadata) m xs where "fw_at f = Handing (GiveMetadata m # xs)" "\<not> chan_full cap (fw_metadata f)"
      "ch_open (fw_metadata f)" "f' = f\<lparr>fw_metadata := chan_push m (fw_metadata f), fw_at := handing xs\<rparr>"
  | (no_metadata) m xs where "fw_at f = Handing (GiveMetadata m # xs)" "\<not> ch_open (fw_metadata f)"
      "f' = f\<lparr>fw_cancelled := True, fw_at := Emptying\<rparr>"
  using assms unfolding loop_hands_def
  by (auto split: LoopAt.splits list.splits Handover.splits if_splits)

lemma loop_hands_None:
  "fw_at f \<noteq> Handing [] \<Longrightarrow>
     loop_hands cap f = None \<longleftrightarrow> (\<forall>xs. fw_at f = Handing xs \<longrightarrow> waits_for_client cap f)"
  by (cases "fw_at f") (auto simp: loop_hands_def waits_for_client_def neq_Nil_conv split: Handover.splits if_splits)

section \<open>The tasks come to rest\<close>

definition loop_rank :: "LoopAt \<Rightarrow> nat" where
  "loop_rank a = (case a of Over \<Rightarrow> 0 | Ending \<Rightarrow> 1 | Emptying \<Rightarrow> 2 | AtSelect \<Rightarrow> 3 | Handing xs \<Rightarrow> 3 + length xs)"

definition flow_order :: "(Flow \<times> Flow) set" where
  "flow_order = measures [\<lambda>s. 2 * length (fl_incoming s) + (if fl_held s = None then 0 else 1),
     \<lambda>s. sum_list (map (length \<circ> fw_queue) (fl_streams s)), \<lambda>s. sum_list (map (loop_rank \<circ> fw_at) (fl_streams s))]"

lemma sum_list_map_update:
  "i < length xs \<Longrightarrow> sum_list (map g (xs[i := y])) + g (xs ! i) = sum_list (map g xs) + (g y :: nat)"
  by (induction xs arbitrary: i) (auto split: nat.splits)

lemma loop_rank [simp]:
  "loop_rank (handing xs) = 3 + length xs" "loop_rank (Handing xs) = 3 + length xs"
  "loop_rank AtSelect = 3" "loop_rank Emptying = 2" "loop_rank Ending = 1" "loop_rank Over = 0"
  by (simp_all add: handing_def loop_rank_def)

lemma on_stream_order:
  assumes "on_stream i g s = Some s'"
    and "\<And>f f'. g f = Some f' \<Longrightarrow> length (fw_queue f') < length (fw_queue f) \<or>
      length (fw_queue f') \<le> length (fw_queue f) \<and> loop_rank (fw_at f') < loop_rank (fw_at f)"
  shows "(s', s) \<in> flow_order"
proof -
  obtain f' where i: "i < length (fl_streams s)" and f': "g (fl_streams s ! i) = Some f'"
    and s': "s' = s\<lparr>fl_streams := (fl_streams s)[i := f']\<rparr>"
    using assms(1) by (auto simp: on_stream_Some)
  from assms(2) [OF f'] show ?thesis
    using sum_list_map_update [OF i, of "length \<circ> fw_queue" f']
      sum_list_map_update [OF i, of "loop_rank \<circ> fw_at" f']
    by (auto simp: flow_order_def s')
qed

lemma task_event_order:
  assumes "task_event ev" and "flow_step cap s ev = Some s'"
  shows "(s', s) \<in> flow_order"
proof (cases ev)
  case ReadsNext
  with assms(2) show ?thesis
    by (auto simp: reads_next_def flow_order_def split: list.splits if_splits)
next
  case PutsThrough
  with assms(2) show ?thesis
    by (auto simp: puts_through_def flow_order_def Let_def split: option.splits if_splits)
next
  case (LoopTakes i xs)
  with assms(2) show ?thesis by (auto intro!: on_stream_order simp: loop_takes_Some)
next
  case (LoopHands i)
  with assms(2) show ?thesis
    by (auto intro!: on_stream_order elim!: loop_hands_cases)
next
  case (LoopFails i)
  with assms(2) show ?thesis
    by (auto intro!: on_stream_order simp: loop_fails_def split: list.splits ReceivableDownstreamMsg.splits if_splits)
next
  case (LoopEmpties i xs)
  with assms(2) show ?thesis
    by (auto intro!: on_stream_order simp: loop_empties_def split: list.splits if_splits)
qed (use assms in \<open>auto intro!: on_stream_order split: if_splits\<close>)

lemma wf_flow_order: "wf flow_order"
  by (simp add: flow_order_def)

section \<open>What can stall a connection\<close>

definition flow_ok :: "Flow \<Rightarrow> bool" where
  "flow_ok s \<longleftrightarrow> list_all (\<lambda>f. fw_at f \<noteq> Handing []) (fl_streams s) \<and>
     (\<forall>i m. fl_held s = Some (i, m) \<longrightarrow> i < length (fl_streams s))"

lemma flow_step_length: "flow_step cap s ev = Some s' \<Longrightarrow> length (fl_streams s') = length (fl_streams s)"
  by (cases ev) (auto simp: on_stream_Some reads_next_def puts_through_def Let_def split: list.splits option.splits if_splits)

lemma flow_step_ok: "flow_ok s \<Longrightarrow> flow_step cap s ev = Some s' \<Longrightarrow> flow_ok s'"
  by (cases ev)
    (auto simp: flow_ok_def on_stream_Some reads_next_def puts_through_def Let_def loop_takes_Some loop_empties_def loop_fails_def
      list_all_length nth_list_update elim!: loop_hands_cases split: list.splits option.splits if_splits Incoming.splits ReceivableDownstreamMsg.splits)

lemma flow_run_ok: "flow_ok s \<Longrightarrow> flow_run cap s evs = Some s' \<Longrightarrow> flow_ok s' \<and> length (fl_streams s') = length (fl_streams s)"
proof (induction evs arbitrary: s)
  case (Cons ev evs)
  then obtain s1 where s1: "flow_step cap s ev = Some s1" "flow_run cap s1 evs = Some s'"
    by (auto simp: bind_eq_Some_conv)
  with Cons.IH [OF flow_step_ok [OF Cons.prems(1) s1(1)]] flow_step_length [OF s1(1)] show ?case by simp
qed simp

lemma flow_new_ok: "flow_ok (flow_new n)"
  by (simp add: flow_ok_def flow_new_def flowing_new_def list_all_iff)

lemma at_rest_cases:
  assumes "flow_ok s" and "0 < cap" and "\<not> fl_cancelled s"
    and rest: "\<And>ev. task_event ev \<Longrightarrow> flow_step cap s ev = None"
  shows "fl_incoming s = [] \<and> fl_held s = None \<or>
    (\<exists>i m. fl_held s = Some (i, m) \<and> waits_for_client cap (fl_streams s ! i) \<and> cap \<le> length (fw_queue (fl_streams s ! i)))"
proof (cases "fl_held s")
  case None
  with rest [of ReadsNext] assms(3) show ?thesis by (auto simp: reads_next_def split: list.splits)
next
  case (Some im)
  then obtain i m where held: "fl_held s = Some (i, m)" by (cases im) auto
  let ?f = "fl_streams s ! i"
  have i: "i < length (fl_streams s)" and ok: "fw_at ?f \<noteq> Handing []"
    using assms(1) held by (auto simp: flow_ok_def list_all_length)
  have full: "fw_at ?f \<noteq> Over" "cap \<le> length (fw_queue ?f)"
    using rest [of PutsThrough] held by (auto simp: puts_through_def Let_def split: if_splits)
  then obtain m' q where q: "fw_queue ?f = m' # q" using assms(2) by (cases "fw_queue ?f") auto
  have stops: "flow_step cap s (LoopTakes i xs) = None" "flow_step cap s (LoopHands i) = None"
    "flow_step cap s (LoopEmpties i xs) = None" "flow_step cap s (LoopOver i) = None" for xs
    using rest [of "LoopTakes i xs"] rest [of "LoopHands i"] rest [of "LoopEmpties i xs"] rest [of "LoopOver i"]
    by simp_all
  have "yields m' []" by (cases m') simp_all
  with stops(1,3) [of "[]"] q i have "fw_at ?f \<noteq> AtSelect" "fw_at ?f \<noteq> Emptying"
    by (auto simp: on_stream_None loop_takes_def loop_empties_def)
  moreover have "fw_at ?f \<noteq> Ending" using stops(4) i by (auto simp: on_stream_None)
  ultimately obtain xs where "fw_at ?f = Handing xs" using full(1) by (cases "fw_at ?f") auto
  moreover have "loop_hands cap ?f = None" using stops(2) i by (simp add: on_stream_None)
  ultimately have "waits_for_client cap ?f" using loop_hands_None [OF ok] by blast
  then show ?thesis using held full(2) by blast
qed

section \<open>A client that does not read\<close>

definition is_for :: "nat \<Rightarrow> Incoming \<Rightarrow> bool" where
  "is_for i x = (case x of ForStream j _ \<Rightarrow> j = i | _ \<Rightarrow> False)"

definition count_for :: "nat \<Rightarrow> Incoming list \<Rightarrow> nat" where
  "count_for i xs = length (filter (is_for i) xs)"

fun arrivals :: "FlowEvent list \<Rightarrow> Incoming list" where
  "arrivals [] = []"
| "arrivals (Arrives x # evs) = x # arrivals evs"
| "arrivals (_ # evs) = arrivals evs"

text \<open>
  The client of downstream \<open>i\<close> keeps its handles but does nothing with them; \<open>leaves_alone\<close> also
  asks that it is neither closed nor fails and that every message has something for the client.
\<close>

fun not_read :: "nat \<Rightarrow> FlowEvent \<Rightarrow> bool" where
  "not_read i (ClientReads j) = (j \<noteq> i)"
| "not_read i (ClientReadsMetadata j) = (j \<noteq> i)"
| "not_read i (ClientDrops j) = (j \<noteq> i)"
| "not_read i (ClientDropsMetadata j) = (j \<noteq> i)"
| "not_read i _ = True"

fun leaves_alone :: "nat \<Rightarrow> FlowEvent \<Rightarrow> bool" where
  "leaves_alone i (CloseCalled j) = (j \<noteq> i)"
| "leaves_alone i (LoopFails j) = (j \<noteq> i)"
| "leaves_alone i (LoopTakes j xs) = (j = i \<longrightarrow> xs \<noteq> [])"
| "leaves_alone i ev = not_read i ev"

text \<open>The entries of downstream \<open>i\<close> between the transport and its client.\<close>

definition absorbed :: "nat \<Rightarrow> Flow \<Rightarrow> nat" where
  "absorbed i s =
     (let f = fl_streams s ! i
      in length (ch_queue (fw_chunks f)) + length (ch_queue (fw_metadata f)) +
         (case fw_at f of Handing _ \<Rightarrow> 1 | _ \<Rightarrow> 0) + length (fw_queue f) +
         (case fl_held s of Some (j, _) \<Rightarrow> if j = i then 1 else 0 | None \<Rightarrow> 0))"

definition filling :: "nat \<Rightarrow> Flowing \<Rightarrow> bool" where
  "filling cap f \<longleftrightarrow> \<not> fw_cancelled f \<and> ch_open (fw_chunks f) \<and> ch_open (fw_metadata f) \<and>
     length (ch_queue (fw_chunks f)) \<le> cap \<and> length (ch_queue (fw_metadata f)) \<le> cap \<and>
     length (fw_queue f) \<le> cap \<and> (case fw_at f of AtSelect \<Rightarrow> True | Handing _ \<Rightarrow> True | _ \<Rightarrow> False)"

definition absorbs :: "nat \<Rightarrow> nat \<Rightarrow> Flow \<Rightarrow> bool" where
  "absorbs cap i s \<longleftrightarrow> i < length (fl_streams s) \<and> count_for i (fl_read s) \<le> 3 * cap + 2 \<and>
     (\<not> fl_cancelled s \<longrightarrow> filling cap (fl_streams s ! i) \<and> count_for i (fl_read s) \<le> absorbed i s)"

lemma absorbed_bound: "filling cap (fl_streams s ! i) \<Longrightarrow> absorbed i s \<le> 3 * cap + 2"
  by (auto simp: filling_def absorbed_def Let_def split: LoopAt.splits option.splits)

lemma count_for_snoc: "count_for i (xs @ [x]) = count_for i xs + (if is_for i x then 1 else 0)"
  by (simp add: count_for_def)

text \<open>A step of downstream \<open>j\<close> that loses no entry.\<close>

lemma absorbs_on_stream:
  assumes "absorbs cap i s" and "on_stream j g s = Some s'"
    and "\<And>f'. j = i \<Longrightarrow> g (fl_streams s ! i) = Some f' \<Longrightarrow> \<not> fl_cancelled s \<Longrightarrow> filling cap (fl_streams s ! i) \<Longrightarrow>
      filling cap f' \<and> absorbed i s \<le> absorbed i (s\<lparr>fl_streams := (fl_streams s)[i := f']\<rparr>)"
  shows "absorbs cap i s'"
proof -
  obtain f' where j: "j < length (fl_streams s)" and f': "g (fl_streams s ! j) = Some f'"
    and s': "s' = s\<lparr>fl_streams := (fl_streams s)[j := f']\<rparr>"
    using assms(2) by (auto simp: on_stream_Some)
  show ?thesis
  proof (cases "j = i")
    case True
    with assms(1) assms(3) [OF True] f' j show ?thesis by (fastforce simp: absorbs_def s')
  next
    case False
    with assms(1) show ?thesis by (simp add: absorbs_def absorbed_def s')
  qed
qed

lemma absorbs_step:
  assumes "absorbs cap i s" and "leaves_alone i ev" and "flow_step cap s ev = Some s'"
  shows "absorbs cap i s'"
proof (cases ev)
  case ReadsNext
  obtain x xs where "\<not> fl_cancelled s" "fl_held s = None" "fl_incoming s = x # xs"
    and s': "s' = s\<lparr>fl_incoming := xs, fl_read := fl_read s @ [x],
      fl_held := (case x of ForStream i m \<Rightarrow> if i < length (fl_streams s) then Some (i, m) else None | _ \<Rightarrow> None)\<rparr>"
    using assms(3) ReadsNext
    by (cases "fl_held s"; cases "fl_incoming s") (auto simp: reads_next_def split: if_splits)
  moreover have "count_for i (fl_read s') \<le> absorbed i s'"
    using assms(1) calculation
    by (auto simp: absorbs_def absorbed_def Let_def count_for_snoc is_for_def split: Incoming.splits)
  ultimately show ?thesis
    using assms(1) absorbed_bound [of cap s' i] by (auto simp: absorbs_def)
next
  case PutsThrough
  obtain j m where held: "fl_held s = Some (j, m)"
    using assms(3) PutsThrough by (cases "fl_held s") (auto simp: puts_through_def)
  let ?f = "fl_streams s ! j"
  consider (over) "fw_at ?f = Over" "s' = s\<lparr>fl_held := None\<rparr>"
    | (room) "length (fw_queue ?f) < cap"
        "s' = s\<lparr>fl_held := None, fl_streams := (fl_streams s)[j := ?f\<lparr>fw_queue := fw_queue ?f @ [m]\<rparr>]\<rparr>"
    using assms(3) PutsThrough held by (auto simp: puts_through_def Let_def not_le split: if_splits)
  then show ?thesis
  proof cases
    case over
    with assms(1) held show ?thesis by (cases "j = i") (simp_all add: absorbs_def absorbed_def filling_def)
  next
    case room
    with assms(1) held show ?thesis
      by (cases "j = i") (auto simp: absorbs_def absorbed_def filling_def Let_def)
  qed
next
  case (LoopTakes j xs)
  with assms(3) have "on_stream j (loop_takes xs) s = Some s'" by simp
  then show ?thesis
    by (rule absorbs_on_stream [OF assms(1)])
      (use assms(1,2) LoopTakes in \<open>auto simp: loop_takes_Some filling_def absorbed_def handing_def absorbs_def Let_def\<close>)
next
  case (LoopHands j)
  with assms(3) have "on_stream j (loop_hands cap) s = Some s'" by simp
  then show ?thesis
    by (rule absorbs_on_stream [OF assms(1)])
      (use assms(1) in \<open>auto elim!: loop_hands_cases simp: filling_def absorbed_def handing_def absorbs_def Let_def
        chan_full_def chan_push_def\<close>)
next
  case (LoopFails j)
  with assms(2,3) show ?thesis
    by (auto elim!: absorbs_on_stream [OF assms(1)])
next
  case (LoopEmpties j xs)
  with assms(3) have "on_stream j (loop_empties cap xs) s = Some s'" by simp
  then show ?thesis
    by (rule absorbs_on_stream [OF assms(1)]) (auto simp: loop_empties_def filling_def split: list.splits if_splits)
next
  case (LoopBreaks j)
  with assms(2,3) show ?thesis
    by (auto elim!: absorbs_on_stream [OF assms(1)] simp: filling_def split: if_splits)
next
  case (LoopEmptied j)
  with assms(2,3) show ?thesis
    by (auto elim!: absorbs_on_stream [OF assms(1)] simp: filling_def split: if_splits)
next
  case (LoopOver j)
  with assms(2,3) show ?thesis
    by (auto elim!: absorbs_on_stream [OF assms(1)] simp: filling_def split: if_splits)
next
  case (ClientReads j)
  with assms(2,3) show ?thesis
    by (auto elim!: absorbs_on_stream [OF assms(1)] simp: filling_def split: if_splits)
next
  case (ClientReadsMetadata j)
  with assms(2,3) show ?thesis
    by (auto elim!: absorbs_on_stream [OF assms(1)] simp: filling_def split: if_splits)
next
  case (ClientDrops j)
  with assms(2,3) show ?thesis
    by (auto elim!: absorbs_on_stream [OF assms(1)] simp: filling_def split: if_splits)
next
  case (ClientDropsMetadata j)
  with assms(2,3) show ?thesis
    by (auto elim!: absorbs_on_stream [OF assms(1)] simp: filling_def split: if_splits)
next
  case (CloseCalled j)
  with assms(2,3) show ?thesis
    by (auto elim!: absorbs_on_stream [OF assms(1)] simp: filling_def split: if_splits)
qed (use assms in \<open>auto simp: absorbs_def absorbed_def\<close>)

lemma absorbs_run:
  "absorbs cap i s \<Longrightarrow> list_all (leaves_alone i) evs \<Longrightarrow> flow_run cap s evs = Some s' \<Longrightarrow> absorbs cap i s'"
proof (induction evs arbitrary: s)
  case (Cons ev evs)
  then obtain s1 where s1: "flow_step cap s ev = Some s1" "flow_run cap s1 evs = Some s'"
    by (auto simp: bind_eq_Some_conv)
  with absorbs_step [OF Cons.prems(1) _ s1(1)] Cons.IH [of s1] Cons.prems(2) show ?case by simp
qed simp

lemma flow_step_log:
  "flow_step cap s ev = Some s' \<Longrightarrow> fl_read s' @ fl_incoming s' = (fl_read s @ fl_incoming s) @ arrivals [ev]"
  by (cases ev) (auto simp: on_stream_Some reads_next_def puts_through_def Let_def split: list.splits option.splits if_splits)

lemma arrivals_Cons: "arrivals (ev # evs) = arrivals [ev] @ arrivals evs"
  by (cases ev) simp_all

lemma flow_run_log:
  "flow_run cap s evs = Some s' \<Longrightarrow> fl_read s' @ fl_incoming s' = (fl_read s @ fl_incoming s) @ arrivals evs"
proof (induction evs arbitrary: s)
  case (Cons ev evs)
  then obtain s1 where "flow_step cap s ev = Some s1" "flow_run cap s1 evs = Some s'"
    by (auto simp: bind_eq_Some_conv)
  with Cons.IH [of s1] flow_step_log [of cap s ev s1] show ?case by (simp add: arrivals_Cons [of ev evs])
qed simp

lemma on_stream_keeps:
  assumes "on_stream j g s = Some s'" and "P (fl_streams s ! i)"
    and "\<And>f'. j = i \<Longrightarrow> g (fl_streams s ! i) = Some f' \<Longrightarrow> P f'"
  shows "P (fl_streams s' ! i)"
  using assms by (auto simp: on_stream_Some nth_list_update)

lemma nth_update: "xs[i := x] ! j = (if i = j \<and> i < length xs then x else xs ! j)"
  by (cases "i < length xs") (auto simp: nth_list_update list_update_beyond)

definition same_to_client :: "Flowing \<Rightarrow> Flowing \<Rightarrow> bool" where
  "same_to_client f g \<longleftrightarrow> fw_at g = fw_at f \<and> fw_chunks g = fw_chunks f \<and> fw_metadata g = fw_metadata f"

lemma same_to_client [simp]:
  "same_to_client f f" "same_to_client f (f\<lparr>fw_queue := q\<rparr>)" "same_to_client f (f\<lparr>fw_cancelled := b\<rparr>)"
  by (simp_all add: same_to_client_def)

lemma waits_step:
  assumes "waits_for_client cap (fl_streams s ! i)" and "not_read i ev" and "flow_step cap s ev = Some s'"
  shows "waits_for_client cap (fl_streams s' ! i) \<and> fw_at (fl_streams s' ! i) = fw_at (fl_streams s ! i)"
proof -
  let ?f = "fl_streams s ! i"
  obtain xs where at: "fw_at ?f = Handing xs"
    using assms(1) by (auto simp: waits_for_client_def split: LoopAt.splits)
  then have hands: "loop_hands cap ?f = None"
    using assms(1) loop_hands_None [of ?f cap] by (cases xs) (auto simp: waits_for_client_def)
  have "same_to_client ?f (fl_streams s' ! i)"
    using assms(2,3) at hands
    by (cases ev)
      (auto elim!: on_stream_keeps [where P = "same_to_client ?f"] simp: loop_takes_Some loop_empties_def loop_fails_def reads_next_def
        puts_through_def Let_def nth_update split: list.splits option.splits if_splits ReceivableDownstreamMsg.splits)
  then show ?thesis
    using assms(1) at by (cases xs) (auto simp: waits_for_client_def same_to_client_def split: Handover.splits)
qed

lemma waits_run:
  "waits_for_client cap (fl_streams s ! i) \<Longrightarrow> list_all (not_read i) evs \<Longrightarrow> flow_run cap s evs = Some s' \<Longrightarrow>
     i < length (fl_streams s) \<Longrightarrow>
     waits_for_client cap (fl_streams s' ! i) \<and> fw_at (fl_streams s' ! i) = fw_at (fl_streams s ! i)"
proof (induction evs arbitrary: s)
  case (Cons ev evs)
  then obtain s1 where s1: "flow_step cap s ev = Some s1" "flow_run cap s1 evs = Some s'"
    by (auto simp: bind_eq_Some_conv)
  from waits_step [OF Cons.prems(1) _ s1(1)] Cons.prems(2) Cons.IH [OF _ _ s1(2)]
    flow_step_length [OF s1(1)] Cons.prems(4) show ?case by simp
qed simp

section \<open>Properties\<close>



text \<open>What the closing of a connection waits for: the loops of all its streams are over.\<close>

definition streams_over :: "Flow \<Rightarrow> bool" where
  "streams_over s \<longleftrightarrow> list_all (\<lambda>f. fw_at f = Over) (fl_streams s)"

text \<open>
  C17: while the loop of a downstream waits for its client, neither closing that downstream nor
  the end of the connection gets it out of the wait: whatever happens, as long as the client keeps
  its handles and does not read, the loop does not end, and the closing of the client's
  connection, which waits for the loops of all its streams, does not return.
\<close>

theorem unread_downstream_blocks_close:
  assumes "waits_for_client cap (fl_streams s ! i)" and "i < length (fl_streams s)"
    and "flow_run cap s evs = Some s'" and "list_all (not_read i) evs"
  shows "waits_for_client cap (fl_streams s' ! i) \<and> fw_at (fl_streams s' ! i) = fw_at (fl_streams s ! i) \<and>
    \<not> streams_over s'"
proof -
  have "length (fl_streams s') = length (fl_streams s)"
    using assms(3) by (induction evs arbitrary: s) (auto simp: bind_eq_Some_conv dest!: flow_step_length)
  moreover note waits_run [OF assms(1,4,3,2)]
  moreover from this have "fw_at (fl_streams s' ! i) \<noteq> Over" by (auto simp: waits_for_client_def)
  ultimately show ?thesis using assms(2) by (auto simp: streams_over_def list_all_length)
qed

text \<open>One downstream with channels for one entry; its client does not read, and closes it.\<close>

definition some_chunk :: ReceivableDownstreamMsg where
  "some_chunk = Chunk \<lparr>mdc_stream_id_alias = 1, mdc_stream_chunk = None, mdc_extension_fields = None,
     mdc_downstream_filter_references = [], mdc_upstream_or_alias = None\<rparr>"

definition some_give :: Handover where
  "some_give = Give \<lparr>dc_sequence_number = 1, dc_data_point_groups = [],
     dc_upstream = \<lparr>ui_session_id = [], ui_stream_id = Uuid [], ui_source_node_id = []\<rparr>\<rparr>"

definition stall_events :: "FlowEvent list" where
  "stall_events = replicate 6 (Arrives (ForStream 0 some_chunk)) @ [Arrives (PongIn \<lparr>pong_request_id = 2, pong_extension_fields = None\<rparr>),
     ReadsNext, PutsThrough, LoopTakes 0 [some_give], LoopHands 0, ReadsNext, PutsThrough,
     LoopTakes 0 [some_give], ReadsNext, PutsThrough, ReadsNext]"

definition stalled :: Flow where
  "stalled = the (flow_run 1 (flow_new 1) stall_events)"

lemmas stall_eval = stall_events_def flow_new_def flowing_new_def chan_new_def reads_next_def puts_through_def
  on_stream_def loop_takes_def loop_hands_def handing_def chan_full_def chan_push_def some_give_def eval_nat_numeral Let_def

lemma stalled_run: "flow_run 1 (flow_new 1) stall_events = Some stalled"
proof -
  have "yields some_chunk [some_give]" by (simp add: some_chunk_def some_give_def)
  then have "flow_run 1 (flow_new 1) stall_events \<noteq> None" by (simp add: stall_eval)
  then show ?thesis by (auto simp: stalled_def)
qed

lemma stalled_fields:
  "fl_held stalled = Some (0, some_chunk)" "\<not> fl_cancelled stalled" "fl_incoming stalled \<noteq> []"
  "length (fl_streams stalled) = 1" "fw_at (fl_streams stalled ! 0) = Handing [some_give]"
  "fw_queue (fl_streams stalled ! 0) = [some_chunk]" "chan_full 1 (fw_chunks (fl_streams stalled ! 0))"
proof -
  have y: "yields some_chunk [some_give]" by (simp add: some_chunk_def some_give_def)
  show "fl_held stalled = Some (0, some_chunk)" "\<not> fl_cancelled stalled" "fl_incoming stalled \<noteq> []"
    "length (fl_streams stalled) = 1" "fw_at (fl_streams stalled ! 0) = Handing [some_give]"
    "fw_queue (fl_streams stalled ! 0) = [some_chunk]" "chan_full 1 (fw_chunks (fl_streams stalled ! 0))"
    using y by (simp_all add: stalled_def stall_eval)
qed

lemma stalled_waits: "waits_for_client 1 (fl_streams stalled ! 0)"
  using stalled_fields(7) by (simp add: waits_for_client_def stalled_fields(5) some_give_def)

lemma stalled_rests: "task_event ev \<Longrightarrow> flow_step 1 stalled ev = None"
  using stalled_fields(7)
  by (cases ev) (auto simp: reads_next_def puts_through_def on_stream_def loop_takes_def loop_empties_def loop_fails_def
      loop_hands_def stalled_fields some_give_def Let_def split: ReceivableDownstreamMsg.splits)



theorem unread_downstream_blocks_close_witness:
  "\<exists>s. flow_run 1 stalled [CloseCalled 0, ConnCancelled] = Some s \<and> \<not> streams_over s"
proof -
  obtain s where s: "flow_run 1 stalled [CloseCalled 0, ConnCancelled] = Some s"
    by (simp add: on_stream_def stalled_fields(4))
  have "list_all (not_read 0) [CloseCalled 0, ConnCancelled]" by simp
  from unread_downstream_blocks_close [OF stalled_waits _ s this] s show ?thesis
    by (simp add: stalled_fields(4))
qed

end
