(* ===== verification/End_To_End.thy ===== *)
theory End_To_End
  imports Upstream_Props Downstream_Props
begin

text \<open>
  From the writer to the reader: the task of an upstream (\<open>iscp/upstream.rs\<close>) on one client and
  the loop of a downstream (\<open>iscp/downstream.rs\<close>) on another, with the server of the protocol
  between them.  The server is not part of the repository; what is relied on is that every chunk it
  passes to the downstream is one that the upstream issued, with the same number, points and data
  ids, the latter named by whatever aliases the two clients agreed on with it.
\<close>

section \<open>The chunks of a stream come from the received ones\<close>

text \<open>The chunks that a reorderer stores, and the one an iterator still holds.\<close>

definition stored_chunks :: "DownReorderer \<Rightarrow> DownstreamChunk set" where
  "stored_chunks r = {c. \<exists>u st k. map_of (ro_store r) u = Some st \<and> (k, c) \<in> set st}"

fun iter_chunk :: "DownReordererIter \<Rightarrow> DownstreamChunk set" where
  "iter_chunk (NotReordered c) = set_option c"
| "iter_chunk (Reordered _) = {}"

lemma set_bt_remove_subset: "set (bt_remove k m) \<subseteq> set m"
  by (induction k m rule: bt_remove.induct) auto

lemma stored_open: "stored_chunks (open_stream r u n) \<subseteq> stored_chunks r"
  by (auto simp: stored_chunks_def open_stream_def split: if_splits)

lemma stored_insert:
  "map_of (ro_store r) u = Some st \<Longrightarrow>
     stored_chunks (r\<lparr>ro_store := hm_insert u (bt_insert n c st) (ro_store r)\<rparr>) \<subseteq> insert c (stored_chunks r)"
  using set_bt_insert_subset [of n c st] by (auto simp: stored_chunks_def split: if_splits)

lemma reorder_iter_stored:
  assumes "reorder_iter r c = Some (r', res)"
  shows "stored_chunks r' \<subseteq> insert c (stored_chunks r)"
    and "res = Inr it \<Longrightarrow> iter_chunk it \<subseteq> {c}"
  using assms stored_open [of r "chunk_stream c" "dc_sequence_number c"]
    stored_insert [of "open_stream r (chunk_stream c) (dc_sequence_number c)" "chunk_stream c" _ "dc_sequence_number c" c]
  by (auto simp: reorder_iter_def Let_def split: if_splits option.splits)

lemma stored_set_stream:
  assumes "map_of (ro_store r) u = Some st" and "set st' \<subseteq> set st"
  shows "stored_chunks (set_stream r u n st') \<subseteq> stored_chunks r"
  using assms by (auto simp: stored_chunks_def set_stream_def split: if_splits)

lemma reorder_pop_stored:
  assumes "reorder_pop r u = Some (r', oc)"
  shows "stored_chunks r' \<union> set_option oc \<subseteq> stored_chunks r"
proof -
  obtain st where st: "map_of (ro_store r) u = Some st"
    using assms by (cases "map_of (ro_store r) u") (auto simp: reorder_pop_def)
  have taken: ?thesis if "r' = set_stream r u n st'" "oc = Some c" "(k, c) \<in> set st" "set st' \<subseteq> set st" for n k c st'
    using stored_set_stream [OF st that(4)] st that(1-3) by (auto simp: stored_chunks_def)
  obtain n where n: "map_of (ro_next r) u = Some n"
    using assms st by (cases "map_of (ro_next r) u") (auto simp: reorder_pop_def)
  show ?thesis
  proof (cases "\<not> ro_strict r \<and> ro_limit r \<le> length st")
    case True
    show ?thesis
    proof (cases st)
      case Nil
      with True assms st n show ?thesis by (simp add: reorder_pop_def)
    next
      case (Cons e st')
      obtain k c where e: "e = (k, c)" by (cases e)
      with Cons True assms st n have "r' = set_stream r u (k + 1) st'" "oc = Some c"
        by (auto simp: reorder_pop_def)
      then show ?thesis by (rule taken) (use Cons e in auto)
    qed
  next
    case False
    show ?thesis
    proof (cases "map_of st n")
      case None
      with False assms st n show ?thesis by (auto simp: reorder_pop_def split: if_splits)
    next
      case (Some c)
      with False assms st n have "r' = set_stream r u (n + 1) (bt_remove n st)" "oc = Some c"
        by (auto simp: reorder_pop_def)
      then show ?thesis by (rule taken) (use map_of_SomeD [OF Some] set_bt_remove_subset in auto)
    qed
  qed
qed

lemma reorder_next_stored:
  "reorder_iter_next r it = Some (r', it', oc) \<Longrightarrow>
     stored_chunks r' \<union> iter_chunk it' \<union> set_option oc \<subseteq> stored_chunks r \<union> iter_chunk it"
  by (cases it) (auto simp: reorder_iter_next_def dest!: reorder_pop_stored)

text \<open>What a way of sending gives to the client was stored or in the iterator.\<close>

definition sends_stored ::
  "(DownReorderer \<Rightarrow> DownReordererIter \<Rightarrow> (DownReorderer \<times> DownOut list \<times> bool) option) \<Rightarrow> bool" where
  "sends_stored send \<longleftrightarrow> (\<forall>r it r' outs closed. send r it = Some (r', outs, closed) \<longrightarrow>
     stored_chunks r' \<union> set (handed_out outs) \<subseteq> stored_chunks r \<union> iter_chunk it)"

lemma send_chunks_stored: "sends_stored (send_chunks k)"
proof -
  have "send_chunks k r it = Some (r', outs, closed) \<Longrightarrow>
      stored_chunks r' \<union> set (handed_out outs) \<subseteq> stored_chunks r \<union> iter_chunk it" for r it r' outs closed
  proof (induction k r it arbitrary: outs rule: send_chunks.induct)
    case (1 r it)
    then show ?case by (fastforce dest: reorder_next_stored split: option.splits)
  next
    case (2 k r it)
    obtain r1 it1 oc where nxt: "reorder_iter_next r it = Some (r1, it1, oc)"
      using 2(2) by (cases "reorder_iter_next r it") auto
    from reorder_next_stored [OF nxt] 2(2) 2(1) [OF nxt refl refl] show ?case
      by (cases oc) (fastforce simp: nxt)+
  qed
  then show ?thesis unfolding sends_stored_def by blast
qed

lemma reorder_drain_stored:
  "reorder_drain r it = Some (r', cs) \<Longrightarrow> stored_chunks r' \<union> set cs \<subseteq> stored_chunks r \<union> iter_chunk it"
proof (induction r it arbitrary: cs rule: reorder_drain.induct)
  case (1 r it)
  obtain r1 it1 oc where nxt: "reorder_iter_next r it = Some (r1, it1, oc)"
    using 1(2) by (cases "reorder_iter_next r it") (auto simp: reorder_drain.simps [of r])
  from reorder_next_stored [OF nxt] 1(2) 1(1) [OF nxt refl refl] show ?case
    by (cases oc) (fastforce simp: nxt reorder_drain.simps [of r])+
qed

lemma try_send_chunks_stored: "sends_stored (try_send_chunks oks)"
  unfolding sends_stored_def using try_send_chunks_drain(1) reorder_drain_stored by blast

lemma enter_chunk_stored:
  assumes "enter_chunk ch send d = Some (d', outs)" and "quiet_send send" and "sends_stored send"
    and "stored_chunks (dw_reorderer d) \<subseteq> S"
  shows "stored_chunks (dw_reorderer d') \<union> set (handed_out outs) \<subseteq> S \<union> set (converted outs)"
  using assms(1)
proof (cases rule: enter_chunk_cases)
  case (skip s r)
  then show ?thesis using assms(4) by simp
next
  case (fail s c ro e)
  with reorder_iter_stored(1) [OF fail(2)] assms(4) show ?thesis by auto
next
  case (send s c ro it ro' outs' closed)
  have "converted outs' = []" using assms(2) send(3) unfolding quiet_send_def by blast
  moreover have "stored_chunks ro' \<union> set (handed_out outs') \<subseteq> stored_chunks ro \<union> iter_chunk it"
    using assms(3) send(3) unfolding sends_stored_def by blast
  moreover have "stored_chunks ro \<union> iter_chunk it \<subseteq> insert c S"
    using reorder_iter_stored [OF send(2)] assms(4) by blast
  ultimately show ?thesis using send(4,5) by (simp, blast)
qed

lemma down_step_stored:
  assumes "down_step d ev = Some (d', outs)" and "stored_chunks (dw_reorderer d) \<subseteq> S"
  shows "stored_chunks (dw_reorderer d') \<union> set (handed_out outs) \<subseteq> S \<union> set (converted outs)"
  using assms(1)
proof (cases rule: down_step_reorderer)
  case quiet
  with assms(2) show ?thesis by simp
next
  case (chunk ch k)
  from enter_chunk_stored [OF this(2) _ send_chunks_stored assms(2)] show ?thesis by simp
next
  case (drained ch oks)
  from enter_chunk_stored [OF this(2) _ try_send_chunks_stored assms(2)] show ?thesis by simp
qed

lemma handed_out_converted:
  "down_loop d0 evs outs d \<Longrightarrow> stored_chunks (dw_reorderer d0) = {} \<Longrightarrow>
     stored_chunks (dw_reorderer d) \<union> set (handed_out outs) \<subseteq> set (converted outs)"
proof (induction rule: down_loop.induct)
  case (down_loop_step evs outs d ev d' outs')
  from down_step_stored [OF down_loop_step.hyps(2), of "set (converted outs)"] down_loop_step show ?case by auto
qed simp

section \<open>What is converted\<close>

text \<open>The messages that a run of the loop converts, each with what it is converted to.\<close>

fun chunk_message :: "DownEvent \<Rightarrow> MsgDownstreamChunk option" where
  "chunk_message (Received (Chunk m) _ _ _) = Some m"
| "chunk_message (Drained (Chunk m) _ _ _) = Some m"
| "chunk_message _ = None"

fun conversions :: "Down \<Rightarrow> DownEvent list \<Rightarrow> (MsgDownstreamChunk \<times> DownstreamChunk) list" where
  "conversions d [] = []"
| "conversions d (ev # evs) =
     (case down_step d ev of
        None \<Rightarrow> []
      | Some (d', outs) \<Rightarrow> map (Pair (the (chunk_message ev))) (converted outs) @ conversions d' evs)"

lemma down_trace_append:
  "down_trace d evs = Some (d1, outs) \<Longrightarrow>
     down_trace d (evs @ evs') = map_option (\<lambda>(d2, outs'). (d2, outs @ outs')) (down_trace d1 evs')"
proof (induction evs arbitrary: d outs)
  case Nil
  then show ?case by (cases "down_trace d evs'") auto
next
  case (Cons ev evs)
  then show ?case by (cases "down_trace d1 evs'") (auto split: option.splits)
qed

lemma down_loop_is_trace: "down_loop d0 evs outs d \<Longrightarrow> down_trace d0 evs = Some (d, outs)"
  by (induction rule: down_loop.induct) (simp_all add: down_trace_append)

lemma conversions_converted: "down_trace d evs = Some (d', outs) \<Longrightarrow> map snd (conversions d evs) = converted outs"
  by (induction evs arbitrary: d outs) (auto split: option.splits simp: comp_def)

lemma down_exec_data_ids: "down_exec s ops = Some (s', ks) \<Longrightarrow> ds_data_id_aliases s' = ds_data_id_aliases s"
proof (induction ops arbitrary: s ks)
  case (Cons op ops)
  obtain s1 a1 a2 where "down_op s op = Some (s1, a1)" "down_exec s1 ops = Some (s', a2)"
    using Cons.prems by (auto split: option.splits)
  moreover from this(1) have "ds_data_id_aliases s1 = ds_data_id_aliases s"
    by (cases op) (auto simp: add_sequence_number_def take_ack_def Let_def elim!: add_upstream_info_cases split: prod.splits if_splits)
  ultimately show ?case using Cons.IH by simp
qed simp

lemma down_step_data_ids:
  "down_step d ev = Some (d', outs) \<Longrightarrow> ds_data_id_aliases (dw_state d') = ds_data_id_aliases (dw_state d)"
  using down_step_performs [of d ev d' outs] down_exec_data_ids by (auto simp: performs_def)

lemma enter_chunk_converts:
  assumes "enter_chunk m send d = Some (d', outs)" and "quiet_send send" and "c \<in> set (converted outs)"
  shows "\<exists>s. convert_downstream_chunk m (dw_state d) (omit_empty d) = Some (s, Inr (Some c))"
  using assms(1)
proof (cases rule: enter_chunk_cases)
  case (send s c' ro it ro' outs' closed)
  then have "converted outs' = []" using assms(2) unfolding quiet_send_def by blast
  with send assms(3) show ?thesis by simp
qed (use assms(3) in auto)

lemma down_step_converts:
  assumes "down_step d ev = Some (d', outs)" and "c \<in> set (converted outs)"
  shows "\<exists>s om. convert_downstream_chunk (the (chunk_message ev)) (dw_state d) om = Some (s, Inr (Some c))"
  using assms(1)
proof (cases rule: down_step_reorderer)
  case quiet
  with assms(2) show ?thesis by simp
next
  case (chunk ch k ok res)
  with enter_chunk_converts [OF chunk(2) _ assms(2)] show ?thesis by auto
next
  case (drained ch oks live res)
  with enter_chunk_converts [OF drained(2) _ assms(2)] show ?thesis by auto
qed

lemma conversions_convert:
  "down_trace d evs = Some (d', outs) \<Longrightarrow> (m, c) \<in> set (conversions d evs) \<Longrightarrow>
     \<exists>s s' om. convert_downstream_chunk m s om = Some (s', Inr (Some c)) \<and>
       ds_data_id_aliases s = ds_data_id_aliases (dw_state d)"
proof (induction evs arbitrary: d outs)
  case (Cons ev evs)
  obtain d1 o1 o2 where step: "down_step d ev = Some (d1, o1)" and rest: "down_trace d1 evs = Some (d', o2)"
    using Cons.prems(1) by (auto split: option.splits)
  show ?case
  proof (cases "(m, c) \<in> set (conversions d1 evs)")
    case True
    from Cons.IH [OF rest True] down_step_data_ids [OF step] show ?thesis by simp
  next
    case False
    with Cons.prems(2) step have "m = the (chunk_message ev)" "c \<in> set (converted o1)" by auto
    with down_step_converts [OF step, of c] show ?thesis by blast
  qed
qed simp

section \<open>The server between them\<close>

text \<open>
  A group as the receiver gets it: the same points, and a name that stands for the same data id.
\<close>

definition same_group :: "(u32, DataId) hash_map \<Rightarrow> (u32, DataId) hash_map \<Rightarrow> MsgDataPointGroup \<Rightarrow> MsgDataPointGroup \<Rightarrow> bool" where
  "same_group als als' g g' \<longleftrightarrow> mg_data_points g' = mg_data_points g \<and>
     Option.bind (mg_data_id_or_alias g') (resolve_id als') = Option.bind (mg_data_id_or_alias g) (resolve_id als)"

definition relays :: "(u32, DataId) hash_map \<Rightarrow> (u32, DataId) hash_map \<Rightarrow> MsgUpstreamChunk \<Rightarrow> MsgDownstreamChunk \<Rightarrow> bool" where
  "relays als als' uc m \<longleftrightarrow>
     (case (mup_stream_chunk uc, mdc_stream_chunk m) of
        (Some sc, Some sc') \<Rightarrow> sc_sequence_number sc' = sc_sequence_number sc \<and>
          list_all2 (same_group als als') (sc_data_point_groups sc) (sc_data_point_groups sc')
      | _ \<Rightarrow> False)"

definition points_received :: "DataId \<Rightarrow> DownstreamChunk list \<Rightarrow> DataPoint list" where
  "points_received d cs = concat (map (\<lambda>c. points_of d (dc_data_point_groups c)) cs)"

lemma groups_relayed:
  "list_all2 (same_group als (ds_data_id_aliases s)) gs gs' \<Longrightarrow> list_all2 (group_resolves s) gs' dgs \<Longrightarrow>
     points_of d dgs = group_points als d gs"
proof (induction gs arbitrary: gs' dgs)
  case (Cons g gs)
  obtain g' gs'' where gs': "gs' = g' # gs''" "same_group als (ds_data_id_aliases s) g g'"
    "list_all2 (same_group als (ds_data_id_aliases s)) gs gs''"
    using Cons.prems(1) by (auto simp: list_all2_Cons1)
  obtain dg dgs' where dgs: "dgs = dg # dgs'" "group_resolves s g' dg" "list_all2 (group_resolves s) gs'' dgs'"
    using Cons.prems(2) gs'(1) by (auto simp: list_all2_Cons1)
  have "Option.bind (mg_data_id_or_alias g) (resolve_id als) = Some (dpg_data_id dg)"
    using gs'(2) dgs(2) by (auto simp: same_group_def group_resolves_def resolve_id_def get_data_id_def)
  moreover have "dpg_data_points dg = mg_data_points g"
    using gs'(2) dgs(2) by (simp add: same_group_def group_resolves_def)
  ultimately show ?case
    using Cons.IH [OF gs'(3) dgs(3)] dgs(1) by (simp add: group_points_def)
qed (simp add: group_points_def)

lemma relayed_chunk:
  assumes "convert_downstream_chunk m s om = Some (s', Inr (Some c))" and "ds_data_id_aliases s = als'"
    and "relays als als' uc m"
  shows "dc_sequence_number c = chunk_number uc \<and>
    points_of d (dc_data_point_groups c) = group_points als d (chunk_groups uc)"
  using assms(1)
proof (cases rule: convert_chunk_cases)
  case (ok sc gs s1 i)
  from groups_relayed [OF _ convert_groups_resolves [OF ok(2)], of als "chunk_groups uc" d] assms(2,3) ok(1,5)
  show ?thesis by (auto simp: relays_def chunk_number_def chunk_groups_def split: option.splits)
qed simp_all

section \<open>The segment that arrives\<close>

text \<open>Consecutive numbers that are all among \<open>1, ..., l\<close> do not wrap around.\<close>

lemma consecutive_within:
  assumes "set (consecutive n k) \<subseteq> set (consecutive 1 l)" and "l < 2 ^ 32" and "i < k"
  shows "unat (n + of_nat i) = unat n + i \<and> 1 \<le> unat n \<and> unat n + i \<le> l"
  using assms(3)
proof (induction i)
  have range: "1 \<le> unat x \<and> unat x \<le> l" if "x \<in> set (consecutive 1 l)" for x
  proof -
    from that obtain j where "j < l" "x = of_nat (Suc j)" by (auto simp: consecutive_def)
    with assms(2) have "unat x = Suc j" by (simp del: of_nat_Suc add: unat_of_nat take_bit_nat_eq_self)
    with \<open>j < l\<close> show ?thesis by simp
  qed
  {
    case 0
    with consecutive_mem [of 0 k n] assms(1) range [of n] show ?case by auto
  next
    case (Suc i)
    then have IH: "unat (n + of_nat i) = unat n + i" "1 \<le> unat n" "unat n + i \<le> l" by simp_all
    have "1 \<le> unat (n + of_nat (Suc i)) \<and> unat (n + of_nat (Suc i)) \<le> l"
      using consecutive_mem [OF Suc.prems] assms(1) range by blast
    moreover have suc: "n + of_nat (Suc i) = 1 + (n + of_nat i)" by simp
    ultimately have "1 + (n + of_nat i) \<noteq> 0" by (metis not_one_le_zero unat_0)
    from unatSuc [OF this] have "unat (n + of_nat (Suc i)) = unat n + Suc i" unfolding suc IH(1) by simp
    with IH \<open>1 \<le> unat (n + of_nat (Suc i)) \<and> unat (n + of_nat (Suc i)) \<le> l\<close> show ?case by simp
  }
qed

lemma issued_nth:
  assumes "map chunk_number ucs = consecutive 1 (length ucs)" and "length ucs < 2 ^ 32" and "uc \<in> set ucs"
  shows "uc = ucs ! (unat (chunk_number uc) - 1)"
proof -
  obtain j where j: "j < length ucs" "uc = ucs ! j" using assms(3) by (auto simp: in_set_conv_nth)
  then have "chunk_number uc = of_nat (Suc j)"
    using arg_cong [OF assms(1), of "\<lambda>xs. xs ! j"] by (simp add: consecutive_def)
  with j assms(2) have "unat (chunk_number uc) = Suc j"
    by (simp del: of_nat_Suc add: unat_of_nat take_bit_nat_eq_self)
  with j show ?thesis by simp
qed

text \<open>Chunks with consecutive numbers, each relayed from an issued one, are a segment of those.\<close>

lemma received_segment:
  assumes "map chunk_number ucs = consecutive 1 (length ucs)" and "length ucs < 2 ^ 32"
    and "map dc_sequence_number cs = consecutive n (length cs)"
    and rel: "\<And>c. c \<in> set cs \<Longrightarrow> \<exists>uc\<in>set ucs. dc_sequence_number c = chunk_number uc \<and>
      points_of d (dc_data_point_groups c) = group_points als d (chunk_groups uc)"
  shows "points_received d cs = points_issued als d (take (length cs) (drop (unat n - 1) ucs))"
proof -
  have "set (consecutive n (length cs)) \<subseteq> set (consecutive 1 (length ucs))"
    using rel unfolding assms(1) [symmetric] assms(3) [symmetric] by force
  note within = consecutive_within [OF this assms(2)]
  have "map (\<lambda>c. points_of d (dc_data_point_groups c)) cs =
      map (\<lambda>c. group_points als d (chunk_groups c)) (take (length cs) (drop (unat n - 1) ucs))"
  proof (rule nth_equalityI)
    show "length (map (\<lambda>c. points_of d (dc_data_point_groups c)) cs) =
        length (map (\<lambda>c. group_points als d (chunk_groups c)) (take (length cs) (drop (unat n - 1) ucs)))"
      using within [of "length cs - 1"] by (cases cs) auto
  next
    fix i assume "i < length (map (\<lambda>c. points_of d (dc_data_point_groups c)) cs)"
    then have i: "i < length cs" by simp
    obtain uc where uc: "uc \<in> set ucs" "dc_sequence_number (cs ! i) = chunk_number uc"
      "points_of d (dc_data_point_groups (cs ! i)) = group_points als d (chunk_groups uc)"
      using rel [OF nth_mem [OF i]] by blast
    have "dc_sequence_number (cs ! i) = n + of_nat i"
      using arg_cong [OF assms(3), of "\<lambda>xs. xs ! i"] i by (simp add: consecutive_def)
    then have "unat (chunk_number uc) - 1 = (unat n - 1) + i" using uc(2) within [OF i] by simp
    with issued_nth [OF assms(1,2) uc(1)] have "uc = ucs ! ((unat n - 1) + i)" by simp
    moreover have "(unat n - 1) + i < length ucs" using within [OF i] by (elim conjE) linarith
    ultimately show "map (\<lambda>c. points_of d (dc_data_point_groups c)) cs ! i =
        map (\<lambda>c. group_points als d (chunk_groups c)) (take (length cs) (drop (unat n - 1) ucs)) ! i"
      using uc(3) i by (simp add: less_diff_conv add.commute)
  qed
  then show ?thesis by (simp add: points_received_def points_issued_def)
qed

lemma points_issued_append: "points_issued als d (xs @ ys) = points_issued als d xs @ points_issued als d ys"
  by (simp add: points_issued_def)

lemma points_issued_segment: "mset (points_issued als d (take k (drop n ucs))) \<subseteq># mset (points_issued als d ucs)"
proof -
  have "ucs = take n ucs @ take k (drop n ucs) @ drop k (drop n ucs)"
    by (metis append_take_drop_id)
  then have "points_issued als d ucs = points_issued als d (take n ucs) @
      points_issued als d (take k (drop n ucs)) @ points_issued als d (drop k (drop n ucs))"
    by (metis points_issued_append)
  then show ?thesis by simp
qed

lemma handed_out_relayed:
  assumes "down_loop (down_start dconfig dsid alias aliases token) devs outs d"
    and "\<forall>(m, c) \<in> set (conversions (down_start dconfig dsid alias aliases token) devs).
      chunk_stream c = sid \<longrightarrow> (\<exists>uc \<in> set ucs. relays als aliases uc m)"
    and "c \<in> set (of_stream sid (handed_out outs))"
  shows "\<exists>uc \<in> set ucs. dc_sequence_number c = chunk_number uc \<and>
    points_of i (dc_data_point_groups c) = group_points als i (chunk_groups uc)"
proof -
  let ?d0 = "down_start dconfig dsid alias aliases token"
  have start: "stored_chunks (dw_reorderer ?d0) = {}" "ds_data_id_aliases (dw_state ?d0) = aliases"
    by (simp_all add: down_start_def stored_chunks_def down_state_new_def)
  note trace = down_loop_is_trace [OF assms(1)]
  from handed_out_converted [OF assms(1) start(1)] assms(3) have "c \<in> set (converted outs)" by auto
  then obtain m where m: "(m, c) \<in> set (conversions ?d0 devs)"
    unfolding conversions_converted [OF trace, symmetric] by auto
  obtain uc where uc: "uc \<in> set ucs" "relays als aliases uc m" using assms(2,3) m by fastforce
  obtain s s' om where "convert_downstream_chunk m s om = Some (s', Inr (Some c))" "ds_data_id_aliases s = aliases"
    using conversions_convert [OF trace m] start(2) by metis
  from relayed_chunk [OF this uc(2)] uc(1) show ?thesis by blast
qed

section \<open>A concrete day\<close>

text \<open>
  Two points are written, issued as chunk 1 under the alias 1 of their data id, and relayed under
  the alias 4 that the downstream announced for it.
\<close>

definition a_name :: DataId where
  "a_name = \<lparr>did_name = ''n'', did_type = ''t''\<rparr>"

definition a_writer :: Up where
  "a_writer = up_start (upstream_config_default\<lparr>ucfg_qos := Reliable, ucfg_flush_policy := Immediately\<rparr>)
     (Uuid (replicate 16 7)) a_response"

definition a_writing :: "Up \<times> UpEffect list" where
  "a_writing = the (up_exec a_orders a_writer a_day)"

definition a_reader :: Down where
  "a_reader = down_start (a_config Strict) (Uuid (replicate 16 1)) 1 [(4, a_name)] ''t''"

definition a_relayed :: MsgDownstreamChunk where
  "a_relayed = (a_message 1)\<lparr>mdc_stream_chunk := Some \<lparr>sc_sequence_number = 1,
     sc_data_point_groups = [\<lparr>mg_data_points = [a_point 3, a_point 7], mg_data_filter_ids = [],
       mg_data_id_or_alias = Some (DataIdAlias 4)\<rparr>]\<rparr>\<rparr>"

definition a_delivered :: DownstreamChunk where
  "a_delivered = (a_received 1)\<lparr>dc_data_point_groups :=
     [\<lparr>dpg_data_id = a_name, dpg_data_points = [a_point 3, a_point 7]\<rparr>]\<rparr>"

definition a_delivery :: "DownEvent list" where
  "a_delivery = [DAddDownstream (Inr ()), Received (Chunk a_relayed) 9 True (Inr ())]"

definition a_reading :: "Down \<times> DownOut list" where
  "a_reading = the (down_trace a_reader a_delivery)"

lemma a_writer_runs: "up_exec a_orders a_writer a_day \<noteq> None"
  by (simp add: a_writer_def a_day_eval)

lemma a_writer_run: "up_run a_writer a_day (snd a_writing) (fst a_writing)"
  using a_writer_runs by (auto simp: a_writing_def intro: up_exec_run [OF a_orders_ok])

lemma a_writing_facts:
  "map mup_stream_chunk (issued_chunks (snd a_writing)) = [Some \<lparr>sc_sequence_number = 1,
     sc_data_point_groups = [\<lparr>mg_data_points = [a_point 3, a_point 7], mg_data_filter_ids = [],
       mg_data_id_or_alias = Some (DataIdAlias 1)\<rparr>]\<rparr>]"
  "points_of a_name (st_data_points_buffer (in_state (up_inner (fst a_writing)))) = []"
  by (simp_all add: a_writing_def a_writer_def a_day_eval issued_chunks_def issued_outs_def)

lemma convert_a_relayed:
  "convert_downstream_chunk a_relayed (down_state_new [(4, a_name)]) False =
     Some ((down_state_new [(4, a_name)])\<lparr>ds_last_issued_upstream_info_alias := Some 0,
       ds_infos := [(0, Downstream_Props.an_upstream)], ds_for_ack := [(0, an_info)],
       ds_results := [chunk_result a_delivered]\<rparr>, Inr (Some a_delivered))"
  by (simp add: convert_downstream_chunk_def a_relayed_def a_message_def resolve_upstream_def add_upstream_info_def
      an_info_def parse_stream_id_def uuid_from_slice_def down_state_new_def next_info_alias_def Let_def
      add_sequence_number_def chunk_result_def chunk_stream_def a_received_def a_delivered_def
      Downstream_Props.an_upstream_def info_message_def get_data_id_def res_bind_def)

lemma send_a_delivered:
  "reorder_iter (reorderer_new (a_config Strict)) a_delivered =
     Some ((reorderer_new (a_config Strict))\<lparr>ro_next := [(Uuid (replicate 16 7), 1)],
       ro_store := [(Uuid (replicate 16 7), [(1, a_delivered)])]\<rparr>, Inr (Reordered (Uuid (replicate 16 7))))"
  "send_chunks 9 ((reorderer_new (a_config Strict))\<lparr>ro_next := [(Uuid (replicate 16 7), 1)],
       ro_store := [(Uuid (replicate 16 7), [(1, a_delivered)])]\<rparr>) (Reordered (Uuid (replicate 16 7))) =
     Some ((reorderer_new (a_config Strict))\<lparr>ro_next := [(Uuid (replicate 16 7), 2)],
       ro_store := [(Uuid (replicate 16 7), [])]\<rparr>, [ChunkOut a_delivered True], False)"
  by (simp_all add: reorder_iter_def open_stream_def Let_def chunk_stream_def a_delivered_def a_received_def
      Downstream_Props.an_upstream_def eval_nat_numeral reorder_iter_next_def reorder_pop_def set_stream_def)

lemma a_delivery_trace:
  "\<exists>d. down_trace a_reader a_delivery = Some (d, [Converted a_delivered, ChunkOut a_delivered True])"
  "conversions a_reader a_delivery = [(a_relayed, a_delivered)]"
  by (simp_all add: a_delivery_def a_reader_def down_start_def down_step_def chunk_turn_def enter_chunk_def
      omit_empty_def convert_a_relayed send_a_delivered)

lemma a_reading_run: "down_loop a_reader a_delivery (snd a_reading) (fst a_reading)"
  using a_delivery_trace(1) down_loop_trace [OF _ down_loop_start, of a_reader a_delivery]
  by (auto simp: a_reading_def)

lemma a_reading_outs: "snd a_reading = [Converted a_delivered, ChunkOut a_delivered True]"
  using a_delivery_trace(1) by (auto simp: a_reading_def)

lemma a_delivery_relays:
  "\<exists>uc \<in> set (issued_chunks (snd a_writing)). relays (uor_data_id_aliases a_response) [(4, a_name)] uc a_relayed"
proof -
  obtain uc where "issued_chunks (snd a_writing) = [uc]" using a_writing_facts(1) by (auto simp: map_eq_Cons_conv)
  with a_writing_facts(1) show ?thesis
    by (simp add: relays_def a_relayed_def same_group_def resolve_id_def a_response_def a_name_def)
qed

section \<open>Properties\<close>



end
