(* ===== verification/Spec2Isabelle.thy ===== *)
theory Spec2Isabelle
  imports Prelude Std_Maps Codes Messages Errors Data_Id Byte_Codec Datagram Types Down_Order
    Storage Upstream_Core Upstream_Loop Upstream_Props Down_State Metadata Downstream
    Downstream_Props Requests Wire Wire_Props Negotiation Conn Conn_Life E2e Framing
    Compression Byte_Path Builders Subscriptions Wire_Tasks Handles Reconnect Streams Websocket Tls
    Connectors Token Datagram_Loss Unreliable_Path Command_Turns Encoding Backpressure End_To_End
begin

text \<open>
  A model of \<open>iscp-rs\<close>, the Rust client of the iSCP protocol (\<open>src/src\<close> in the repository; the
  paths below are relative to it), with the theorems that make it correct.

  \<^bold>\<open>The program.\<close>  An application builds a connection (\<open>iscp/mod.rs\<close>), on which it opens upstreams,
  which send data points in numbered chunks, and downstreams, which receive them, and sends and
  receives end-to-end calls.  Under the connection is a wire connection (\<open>wire/\<close>): a write loop
  that encodes and compresses messages, read loops that route what arrives to the waiting requests
  and streams, and a ping loop, over a transport (\<open>transport/\<close>) with a reliable byte stream and
  possibly unreliable datagrams.  When a wire connection ends, the reconnection loop makes a new one
  and every stream resumes on it.

  \<^bold>\<open>Conventions.\<close>  A struct is a record, an enum a datatype, a machine integer a word, so that
  counters wrap around; a duration or an instant is a number of nanoseconds.  A fallible operation
  returns \<open>res\<close>, an \<open>Error\<close> or a value; a panic is an absent value (\<open>None\<close>) where one is possible.
  A hash map is an association list with distinct keys in an order that the theorems leave open (where
  the code iterates over a map the order is an argument, \<open>MapOrders\<close>), a BTree map a sorted one.
  An asynchronous task is a step function or a step relation over its events: an event is the
  completion of an \<open>await\<close>, with what it yields, so that a list of events is one interleaving, and a
  theorem over all lists holds for all of them.  What is written to a channel is an output of the
  step.

  \<^bold>\<open>The theories.\<close>
  \<^item> \<open>Prelude\<close>, \<open>Std_Maps\<close>, \<open>Byte_Codec\<close>: machine types, the facts on words and lists that several
    components share, the standard library's maps, fixed-width integers (locale \<open>fixed_width\<close>,
    interpreted for 16 and 32 bits).
  \<^item> \<open>Codes\<close>, \<open>Messages\<close>, \<open>Requests\<close>: the protocol's enumerations and messages
    (\<open>message/proto/iscp2.v1.rs\<close>), the conversions of \<open>message/mod.rs\<close> (locale \<open>request_type\<close>,
    interpreted for the nine kinds of request), and the evaluation of a response.
  \<^item> \<open>Errors\<close>, \<open>Types\<close>, \<open>Data_Id\<close>, \<open>Metadata\<close>: the error type with its two retry classes
    (\<open>error.rs\<close>), stream types and configurations (\<open>iscp/types.rs\<close>, \<open>iscp/flush_policy.rs\<close>,
    \<open>iscp/misc.rs\<close>), data ids, and the metadata conversions (\<open>iscp/metadata.rs\<close>).
  \<^item> \<open>Storage\<close>, \<open>Upstream_Core\<close>, \<open>Upstream_Loop\<close>, \<open>Upstream_Props\<close>: \<open>iscp/storage.rs\<close> and
    \<open>iscp/upstream.rs\<close>.  \<open>Upstream_Core\<close> has the shared state, writing, the making of a chunk,
    acknowledgements, resuming and closing; \<open>Upstream_Loop\<close> composes them to the task, \<open>up_step\<close>.
  \<^item> \<open>Down_Order\<close>, \<open>Down_State\<close>, \<open>Downstream\<close>, \<open>Downstream_Props\<close>: \<open>iscp/down_order.rs\<close>,
    \<open>iscp/down_state.rs\<close> and \<open>iscp/downstream.rs\<close>; the task is \<open>down_step\<close>.
  \<^item> \<open>Wire\<close>, \<open>Wire_Props\<close>: \<open>wire/mod.rs\<close> and \<open>wire/read_loop.rs\<close>: the state clients and loops share,
    requests, command handling and routing; the connection is \<open>wire_step\<close>.  \<open>Subscriptions\<close>: how
    streams and calls register with the read loops and leave them again.  \<open>Wire_Tasks\<close>: the life of
    the connection's six tasks and the order in which they end.
  \<^item> \<open>Negotiation\<close>, \<open>Compression\<close>, \<open>Datagram\<close>, \<open>Framing\<close>, \<open>Byte_Path\<close>: the bytes.
    \<open>transport/negotiation.rs\<close>; compressor, extractor and their dictionary
    (\<open>transport/compression.rs\<close>); segmentation (\<open>transport/datagram.rs\<close>); the framing of streams and
    datagrams (\<open>transport/quic.rs\<close>, \<open>transport/webtransport.rs\<close>); and the write loop with the front
    of the read loop, over any transport that keeps the contract of the locale \<open>message_transport\<close>,
    which is interpreted for the framed streams and for WebSockets.  \<open>Datagram_Loss\<close> and
    \<open>Unreliable_Path\<close>: the same way over datagrams that are lost and reordered.
    \<open>Command_Turns\<close>: the read loop's turns that take a command, which extract and decode nothing.
    \<open>Encoding\<close>: encoder and decoder (\<open>encoding/mod.rs\<close>).
  \<^item> \<open>Streams\<close>, \<open>Websocket\<close>, \<open>Tls\<close>, \<open>Connectors\<close>: the transports: the accept loop of QUIC and
    WebTransport, the WebSocket reader, writer and write task (\<open>transport/websocket.rs\<close>), the choice
    of certificates (\<open>transport/tls.rs\<close>), and the \<open>connect\<close> of the three connectors.
  \<^item> \<open>Conn\<close>, \<open>Builders\<close>, \<open>Conn_Life\<close>: \<open>iscp/mod.rs\<close> and \<open>iscp/builder.rs\<close>: the builders (locale
    \<open>setting\<close>, interpreted for their fields), the connect request, and the life of a connection with
    its closing, as the step relation \<open>conn_step\<close>.
  \<^item> \<open>Handles\<close>: the client's ends of a downstream (\<open>iscp/downstream.rs\<close>).  \<open>Reconnect\<close>: the watch
    channel by which streams learn of a new wire connection, and the pauses between attempts
    (\<open>iscp/misc.rs\<close>).  \<open>Token\<close>: token sources (\<open>token_source.rs\<close>) and time limits (\<open>internal.rs\<close>).
  \<^item> \<open>E2e\<close>: end-to-end calls (\<open>iscp/e2e.rs\<close>) with their retry loops.
  \<^item> \<open>Backpressure\<close>: the bounded channels between the read loop, the loops of the downstreams and
    their clients, and who waits for whom.  \<open>End_To_End\<close>: an upstream and a downstream put together,
    with what is relied on of the server between them.

  \<^bold>\<open>What is shown.\<close>
  \<^item> Upstream: along every run the points written for a data id are those of the chunks issued for it
    and those still buffered; chunks are numbered consecutively across reconnections; a reliable
    stream keeps exactly the unacknowledged chunks, in order, and resends them after a resume;
    nothing is sent after the close request, which reports what was issued.
  \<^item> From the writer to the reader: the points that a reliable, strictly ordered downstream delivers
    are, in order, those of consecutive chunks that the upstream issued, and all the points written
    once all chunks have arrived.
  \<^item> Downstream: the reordering loses and invents nothing, and in strict mode hands out
    consecutive numbers; every chunk taken in is acknowledged exactly once; aliases for upstreams
    and data ids are consistent on both sides.
  \<^item> Wire connection: a response reaches the request with its id and no other; the read loop's channel
    maps refine a routing table, and hold exactly the channels of those who are registered; once
    cancelled, its tasks end in a bounded number of steps in any order, and the transport is closed
    last.  Its flow of messages comes to rest by itself, and only a client that holds a downstream
    and does not read can keep the read loop waiting.
  \<^item> Bytes: messages survive encoding, compression with a dictionary carried over, framing and
    segmentation, however bytes and datagrams arrive; over datagrams that are lost and overtaken,
    what is read is messages that were sent, each at most once (a network that repeats datagrams is
    excluded: a frame that arrives twice is counted twice); the streams of a connection do not
    disturb each other, and a WebSocket delivers a prefix of what it accepted; the compression loop ends when
    the deflate stream makes progress.  What an opened QUIC connection is, and when opening panics.
  \<^item> Connection: a finished close is final, one disconnect is sent at most, and a close can always
    finish; when an opening can panic; a stream never misses a new wire connection; a client reads
    exactly the chunks its downstream hands over.  Calls: what a returned id and a returned reply stand for, and
    the errors that can be returned.
  That a close can always finish is for streams that end (\<open>Conn_Life\<close>); \<open>Backpressure\<close> shows when
  the loop of a downstream does not.  Where the code does something other than what it means to, the theorem states what it does: the
  resent chunk with its old alias, the drained chunk that is acknowledged but dropped, the
  truncated message that is extracted for ever, the opening overtaken by a close, the acknowledgement
  whose result is not read, the close that can only time out, the unread downstream that keeps its
  connection from being closed and the pongs behind it from being read, among others.

  \<^bold>\<open>Bounds.\<close>  Sequence numbers, aliases and request ids are 32-bit words; the theorems that need them
  not to wrap around say so by a bound on the length of the run.  There is no fuel: recursions are
  structural or have a measure, and the one loop that may not end, \<open>stream_loop\<close>, is a partial
  function, whose value \<open>None\<close> is not returning.  The deflate streams of \<open>flate2\<close> and the protobuf
  encoding of \<open>prost\<close> are arguments; that the first are lossless (\<open>lossless\<close>) and make progress
  (\<open>flate_progress\<close>), and that the second decodes what it encodes, are hypotheses, each shown to be
  satisfiable by an instance.

  \<^bold>\<open>Not modelled.\<close>  What the libraries do that the transports call (address lookup, TLS, QUIC,
  WebSocket, URLs and the query string of the negotiation): their outcomes are arguments.  Logging, and
  the times at which timers fire: an event stands for the timer.  The limits of bounded channels
  outside \<open>Backpressure\<close>: a full channel delays the event of the send.  The transport traits
  (\<open>transport/mod.rs\<close>), which have no code of their own: their contract is the locale
  \<open>message_transport\<close>; the halves of a WebTransport connection repeat those of QUIC line for line, and
  are modelled once.  The crate root, the code that the build generates, and the accessors and
  \<open>Debug\<close> texts of the handles.  The futures of callbacks: a callback is an output of the step that calls
  it.  The protobuf code generated for the messages: the records stand for the decoded messages.  The
  locking of the streams' states is taken to be sequential: each operation holds its lock for the
  whole of its effect.
\<close>

end
